(* ===== verification/Capsid_Prelude.thy ===== *)
theory Capsid_Prelude
  imports Main "HOL-Library.Word" "HOL-Library.Sublist" "HOL-Library.Monad_Syntax"
    "HOL-Library.Char_ord"
begin

unbundle bit_operations_syntax

text \<open>
  The vocabulary the component theories share.

  \<^item> \<open>byte\<close>, \<open>u16\<close>, \<open>u32\<close>, \<open>u64\<close>: the fixed-width integers of the C++ code, as words.
  \<^item> \<open>span\<close>: a \<open>(pointer, size)\<close> argument pair; \<open>Null n\<close> is a null pointer passed with size \<open>n\<close>.
  \<^item> \<open>sz_sub\<close>: subtraction of two \<open>size_t\<close> values, which wraps below zero.
  \<^item> \<open>reading\<close>: a \<open>cursor, end\<close> pair is the list of the bytes between the two pointers; a
    reader returns the value and the advanced cursor, and \<open>None\<close> is the C++ result
    \<open>false\<close>.
  \<^item> \<open>bytes_of_text\<close>, \<open>text_of_bytes\<close>: the \<open>reinterpret_cast\<close> between \<open>char\<close> and
    \<open>uint8_t\<close>.

  Out-parameters are results of the functions of the model, so a null out-pointer has no
  counterpart. Sizes of containers are natural numbers.
\<close>

type_synonym byte = "8 word"
type_synonym u16 = "16 word"
type_synonym u32 = "32 word"
type_synonym u64 = "64 word"
type_synonym 'a reading = "('a \<times> byte list) option"

named_theorems wire_simps \<open>evaluation of readers and writers of wire integers\<close>
named_theorems keeps \<open>operations preserve their component's invariant\<close>

section \<open>Pointer and size pairs\<close>

datatype span = Null nat | Bytes "byte list"

fun span_size :: "span \<Rightarrow> nat" where
  "span_size (Null n) = n"
| "span_size (Bytes bs) = length bs"

fun span_bytes :: "span \<Rightarrow> byte list" where
  "span_bytes (Null n) = []"
| "span_bytes (Bytes bs) = bs"

fun span_null :: "span \<Rightarrow> bool" where
  "span_null (Null n) = True"
| "span_null (Bytes bs) = False"

section \<open>Unsigned size arithmetic\<close>

definition size_max :: nat where
  "size_max = 2 ^ 64 - 1"

definition sz_sub :: "nat \<Rightarrow> nat \<Rightarrow> nat" where
  "sz_sub a b = (if b \<le> a then a - b else a + 2 ^ 64 - b)"

lemma sz_sub_le [simp]: "b \<le> a \<Longrightarrow> sz_sub a b = a - b"
  by (simp add: sz_sub_def)

section \<open>Text and bytes\<close>

definition bytes_of_text :: "string \<Rightarrow> byte list" where
  "bytes_of_text s = map (\<lambda>c. word_of_nat (of_char c)) s"

definition text_of_bytes :: "byte list \<Rightarrow> string" where
  "text_of_bytes bs = map (\<lambda>b. char_of (unat b)) bs"

lemma length_bytes_of_text [simp]: "length (bytes_of_text s) = length s"
  by (simp add: bytes_of_text_def)

lemma length_text_of_bytes [simp]: "length (text_of_bytes bs) = length bs"
  by (simp add: text_of_bytes_def)

lemma char_of_byte [simp]: "char_of (unat (word_of_nat (of_char c) :: byte)) = c"
  by (simp add: unat_of_nat)

lemma text_of_bytes_of_text [simp]: "text_of_bytes (bytes_of_text s) = s"
  by (induction s) (simp_all add: bytes_of_text_def text_of_bytes_def)

lemma byte_mod_256 [simp]: "unat (b :: byte) mod 256 = unat b"
proof -
  have "unat b < 2 ^ LENGTH(8)" by (rule unsigned_less)
  then show ?thesis by simp
qed

lemma bytes_of_text_of_bytes [simp]: "bytes_of_text (text_of_bytes bs) = bs"
  by (induction bs) (simp_all add: bytes_of_text_def text_of_bytes_def)

section \<open>Little-endian words\<close>

text \<open>The reference reading of a byte list as a word, and of a word as bytes.\<close>

definition le_bytes :: "nat \<Rightarrow> 'a::len word \<Rightarrow> byte list" where
  "le_bytes k v = map (\<lambda>i. ucast (drop_bit (i * 8) v)) [0..<k]"

definition le_word :: "nat \<Rightarrow> byte list \<Rightarrow> 'a::len word" where
  "le_word k bs = foldl (\<lambda>value i. value OR push_bit (i * 8) (ucast (bs ! i))) 0 [0..<k]"

lemma bit_byte_div:
  "bit (push_bit (i * 8) (ucast (b :: byte) :: 'a::len word)) n \<longleftrightarrow> n < LENGTH('a) \<and> n div 8 = i \<and> bit b (n mod 8)"
proof (cases "n div 8 = i")
  case True
  then have "i * 8 \<le> n" "n - i * 8 = n mod 8" by (auto simp: minus_mult_div_eq_mod [symmetric] mult.commute)
  with True show ?thesis by (auto simp: bit_simps)
next
  case False
  have "\<not> bit b (n - i * 8)" if le: "i * 8 \<le> n"
  proof
    assume "bit b (n - i * 8)"
    then have "n - i * 8 < 8" using bit_imp_le_length by fastforce
    moreover from le obtain m where "n = i * 8 + m" using le_Suc_ex by blast
    ultimately have "n div 8 = i" by simp
    with False show False by simp
  qed
  with False show ?thesis by (simp add: bit_push_bit_iff bit_ucast_iff)
qed

lemma bit_le_word:
  "bit (le_word k bs :: 'a::len word) n \<longleftrightarrow> n < LENGTH('a) \<and> n div 8 < k \<and> bit (bs ! (n div 8)) (n mod 8)"
  unfolding le_word_def
proof (induction k)
  case 0
  show ?case by simp
next
  case (Suc k)
  then show ?case by (simp add: bit_or_iff bit_byte_div less_Suc_eq) blast
qed

lemma le_word_bytes:
  assumes "LENGTH('a::len) = k * 8"
  shows "le_word k (le_bytes k (v :: 'a word) @ rest) = v"
proof (rule bit_word_eqI)
  fix n assume n: "n < LENGTH('a)"
  with assms have k: "n div 8 < k" by simp
  then have "(le_bytes k v @ rest) ! (n div 8) = ucast (drop_bit (n div 8 * 8) v)"
    by (simp add: nth_append le_bytes_def)
  with n k show "bit (le_word k (le_bytes k v @ rest) :: 'a word) n = bit v n"
    by (simp add: bit_le_word bit_simps)
qed

lemma le_bytes_word:
  assumes "LENGTH('a::len) = k * 8" and "k \<le> length bs"
  shows "le_bytes k (le_word k bs :: 'a word) = take k bs"
proof (rule nth_equalityI)
  show "length (le_bytes k (le_word k bs :: 'a word)) = length (take k bs)"
    using assms by (simp add: le_bytes_def)
next
  fix i assume "i < length (le_bytes k (le_word k bs :: 'a word))"
  then have i: "i < k" by (simp add: le_bytes_def)
  have "(ucast (drop_bit (i * 8) (le_word k bs :: 'a word)) :: byte) = bs ! i"
  proof (rule bit_word_eqI)
    fix n assume "n < LENGTH(8)"
    then have n: "n < 8" by simp
    then have "(i * 8 + n) div 8 = i" "(i * 8 + n) mod 8 = n" "i * 8 + n < LENGTH('a)"
      using i assms(1) by (auto simp: add.commute)
    with i n show "bit (ucast (drop_bit (i * 8) (le_word k bs :: 'a word)) :: byte) n = bit (bs ! i) n"
      by (simp add: bit_simps bit_le_word)
  qed
  with i show "le_bytes k (le_word k bs :: 'a word) ! i = take k bs ! i"
    by (simp add: le_bytes_def)
qed

lemma length_le_bytes [simp]: "length (le_bytes k v) = k"
  by (simp add: le_bytes_def)

lemma upt_2: "[0..<2] = [0, 1]"
  by (simp add: upt_rec)

lemma upt_4: "[0..<4] = [0, 1, 2, 3]"
  by (simp add: upt_rec)

lemma upt_8: "[0..<8] = [0, 1, 2, 3, 4, 5, 6, 7]"
  by (simp add: upt_rec)

section \<open>Lists\<close>

lemma drop_append_length [simp]: "length xs = n \<Longrightarrow> drop n (xs @ ys) = ys"
  by simp

lemma take_append_length [simp]: "length xs = n \<Longrightarrow> take n (xs @ ys) = xs"
  by simp

lemma strict_prefix_take:
  assumes "n < length xs"
  shows "strict_prefix (take n xs) xs"
  using assms by (metis length_take min.absorb4 nat_neq_iff strict_prefixI take_is_prefix)

lemma strict_prefix_cases_length: "strict_prefix ys xs \<Longrightarrow> length ys < length xs \<and> ys = take (length ys) xs"
  by (metis append_eq_conv_conj prefix_def prefix_length_less strict_prefix_def)

end
