(* ===== verification/Framing.thy ===== *)
theory Framing
  imports Capsid_Prelude
begin

text \<open>
  The interface of an incremental frame parser, shared by the two framed byte streams of the
  system: the Host-worker protocol (\<open>src/protocol.cc\<close>) and the WebSocket connections
  (\<open>src/host/ws_codec.cc\<close>). Both classes have the same two operations, \<open>append\<close> and
  \<open>next\<close>, and the same result type.

  \<open>frame_codec\<close> states what one encoded frame at the front of a byte list decodes to.
  \<open>stream_parser\<close> adds a parser object that buffers bytes. The lemmas of the second locale
  say that a stream of encoded frames, cut into chunks at any places, is received as exactly
  the frames that were sent, in order; they are proved once and reached by each codec through
  its interpretation.
\<close>

datatype 'f parse_result = kParseNeedMore | kParseFrame 'f | kParseError

datatype 'f decoded = More | Got 'f nat | Bad

section \<open>The receive loop\<close>

text \<open>
  The worker's input loop. \<open>process_frames\<close> calls \<open>next\<close> until it asks for more bytes and gives
  each frame to the handler, which may refuse it; the parser's and the handler's state are
  threaded through, the boolean is false when the frame or the byte stream was refused, and
  \<open>None\<close> is running out of fuel. \<open>read_input\<close> runs over the results of the consecutive
  \<open>read\<close> calls. A refusal requests the shutdown, which stops the polling but not a loop that
  is running: only an \<open>append\<close> that fails, a read that would block or a closed socket ends it.
\<close>

datatype read_result = Data "byte list" | Interrupted | WouldBlock | Closed

fun process_frames ::
  "('s \<Rightarrow> 'f parse_result \<times> 's) \<Rightarrow> ('f \<Rightarrow> 'h \<Rightarrow> 'h option) \<Rightarrow> nat \<Rightarrow> 's \<Rightarrow> 'h \<Rightarrow> (bool \<times> 's \<times> 'h) option" where
  "process_frames nxt handle 0 s h = None"
| "process_frames nxt handle (Suc fuel) s h =
     (case nxt s of
        (kParseNeedMore, s') \<Rightarrow> Some (True, s', h)
      | (kParseError, s') \<Rightarrow> Some (False, s', h)
      | (kParseFrame f, s') \<Rightarrow>
          (case handle f h of
             None \<Rightarrow> Some (False, s', h)
           | Some h' \<Rightarrow> process_frames nxt handle fuel s' h'))"

fun read_input ::
  "('s \<Rightarrow> span \<Rightarrow> bool \<times> 's) \<Rightarrow> ('s \<Rightarrow> 'f parse_result \<times> 's) \<Rightarrow> ('f \<Rightarrow> 'h \<Rightarrow> 'h option) \<Rightarrow> nat
     \<Rightarrow> bool \<Rightarrow> 's \<Rightarrow> 'h \<Rightarrow> read_result list \<Rightarrow> (bool \<times> 's \<times> 'h) option" where
  "read_input app nxt handle fuel shutting_down s h [] = Some (shutting_down, s, h)"
| "read_input app nxt handle fuel shutting_down s h (Data c # rs) =
     (case app s (Bytes c) of
        (False, s') \<Rightarrow> Some (True, s', h)
      | (True, s') \<Rightarrow>
          (case process_frames nxt handle fuel s' h of
             None \<Rightarrow> None
           | Some (ok, t, h') \<Rightarrow> read_input app nxt handle fuel (shutting_down \<or> \<not> ok) t h' rs))"
| "read_input app nxt handle fuel shutting_down s h (Interrupted # rs) =
     read_input app nxt handle fuel shutting_down s h rs"
| "read_input app nxt handle fuel shutting_down s h (WouldBlock # rs) = Some (shutting_down, s, h)"
| "read_input app nxt handle fuel shutting_down s h (Closed # rs) = Some (True, s, h)"

text \<open>The bytes of a run of reads that neither blocks nor ends, and the handler on a list of frames.\<close>

fun received :: "read_result list \<Rightarrow> byte list" where
  "received [] = []"
| "received (Data c # rs) = c @ received rs"
| "received (_ # rs) = received rs"

fun short_read :: "nat \<Rightarrow> read_result \<Rightarrow> bool" where
  "short_read limit (Data c) \<longleftrightarrow> length c \<le> limit"
| "short_read limit Interrupted \<longleftrightarrow> True"
| "short_read limit _ \<longleftrightarrow> False"

fun handle_all :: "('f \<Rightarrow> 'h \<Rightarrow> 'h option) \<Rightarrow> 'f list \<Rightarrow> 'h \<Rightarrow> 'h option" where
  "handle_all handle [] h = Some h"
| "handle_all handle (f # fs) h = Option.bind (handle f h) (handle_all handle fs)"

lemma handle_all_append:
  "handle_all handle (fs @ gs) h = Option.bind (handle_all handle fs h) (handle_all handle gs)"
  by (induction fs arbitrary: h) (simp_all, metis Option.bind_assoc)

section \<open>One frame at the front of a byte list\<close>

locale frame_codec =
  fixes enc :: "'e \<Rightarrow> byte list"
    and shown :: "'e \<Rightarrow> 'f"
    and ok :: "'e \<Rightarrow> bool"
    and dec :: "byte list \<Rightarrow> 'f decoded"
    and max_frame :: nat
  assumes dec_enc: "ok e \<Longrightarrow> dec (enc e @ rest) = Got (shown e) (length (enc e))"
    and dec_short: "ok e \<Longrightarrow> strict_prefix bs (enc e) \<Longrightarrow> dec bs = More"
    and enc_size: "ok e \<Longrightarrow> 0 < length (enc e) \<and> length (enc e) \<le> max_frame"
begin

definition stream :: "'e list \<Rightarrow> byte list" where
  "stream es = concat (map enc es)"

lemma stream_simps [simp]:
  "stream [] = []"
  "stream (e # es) = enc e @ stream es"
  "stream (es @ es') = stream es @ stream es'"
  by (simp_all add: stream_def)

text \<open>A prefix of a stream is the encodings of its first frames and a proper part of the next.\<close>

definition partial :: "byte list \<Rightarrow> 'e list \<Rightarrow> bool" where
  "partial p es \<longleftrightarrow> (case es of [] \<Rightarrow> p = [] | e # _ \<Rightarrow> strict_prefix p (enc e))"

lemma partial_short:
  assumes "partial p es" and "\<forall>e \<in> set es. ok e"
  shows "length p \<le> max_frame"
proof (cases es)
  case Nil
  with assms show ?thesis by (simp add: partial_def)
next
  case (Cons e es')
  with assms have "length p < length (enc e)" "length (enc e) \<le> max_frame"
    by (auto simp: partial_def dest: prefix_length_less enc_size)
  then show ?thesis by simp
qed

lemma partial_dec:
  assumes "partial p es" and "\<forall>e \<in> set es. ok e" and empty: "dec [] = More"
  shows "dec p = More"
  using assms by (cases es) (auto simp: partial_def intro: dec_short)

lemma prefix_stream_split:
  assumes "prefix bs (stream es)" and "\<forall>e \<in> set es. ok e"
  shows "\<exists>ds es' p. es = ds @ es' \<and> bs = stream ds @ p \<and> partial p es'"
  using assms
proof (induction es arbitrary: bs)
  case Nil
  then show ?case by (auto simp: partial_def)
next
  case (Cons e es)
  show ?case
  proof (cases "strict_prefix bs (enc e)")
    case True
    then show ?thesis
      by (intro exI [of _ "[]"] exI [of _ "e # es"] exI [of _ bs]) (simp add: partial_def)
  next
    case False
    from Cons.prems(1) have "prefix bs (enc e @ stream es)" by simp
    with False obtain bs' where bs: "bs = enc e @ bs'" and "prefix bs' (stream es)"
      by (auto simp: prefix_append strict_prefix_def)
    moreover have "\<forall>e \<in> set es. ok e" using Cons.prems(2) by simp
    ultimately obtain ds es' p where "es = ds @ es'" "bs' = stream ds @ p" "partial p es'"
      using Cons.IH by blast
    with bs show ?thesis
      by (intro exI [of _ "e # ds"] exI [of _ es'] exI [of _ p]) simp
  qed
qed

end

section \<open>A parser object that buffers bytes\<close>

locale stream_parser = frame_codec enc shown ok dec max_frame
  for enc :: "'e \<Rightarrow> byte list" and shown :: "'e \<Rightarrow> 'f" and ok and dec and max_frame +
  fixes inv :: "'s \<Rightarrow> bool"
    and pending :: "'s \<Rightarrow> byte list"
    and cap :: nat
    and append :: "'s \<Rightarrow> span \<Rightarrow> bool \<times> 's"
    and nxt :: "'s \<Rightarrow> 'f parse_result \<times> 's"
  assumes append_ok:
      "inv s \<Longrightarrow> length (pending s) + length d \<le> cap \<Longrightarrow>
       \<exists>s'. append s (Bytes d) = (True, s') \<and> inv s' \<and> pending s' = pending s @ d"
    and next_More:
      "inv s \<Longrightarrow> dec (pending s) = More \<Longrightarrow>
       \<exists>s'. nxt s = (kParseNeedMore, s') \<and> inv s' \<and> pending s' = pending s"
    and next_Got:
      "inv s \<Longrightarrow> dec (pending s) = Got f n \<Longrightarrow>
       \<exists>s'. nxt s = (kParseFrame f, s') \<and> inv s' \<and> pending s' = drop n (pending s)"
    and dec_Nil: "dec [] = More"
begin

lemma process_frames_stream:
  assumes "inv s" and "pending s = stream ds @ p" and "partial p es"
    and "\<forall>e \<in> set (ds @ es). ok e" and "length ds < fuel"
    and "handle_all handle (map shown ds) h = Some h'"
  shows "\<exists>t. process_frames nxt handle fuel s h = Some (True, t, h') \<and> inv t \<and> pending t = p"
  using assms
proof (induction ds arbitrary: s fuel h)
  case Nil
  then have "dec (pending s) = More" by (simp add: partial_dec dec_Nil)
  with next_More [OF Nil.prems(1)] obtain t where "nxt s = (kParseNeedMore, t)" "inv t" "pending t = pending s"
    by blast
  moreover from Nil.prems(5) obtain k where "fuel = Suc k" by (cases fuel) auto
  ultimately show ?case using Nil.prems(2,6) by simp
next
  case (Cons d ds)
  then have "dec (pending s) = Got (shown d) (length (enc d))"
    by (simp add: dec_enc)
  with next_Got [OF Cons.prems(1)] obtain t where t: "nxt s = (kParseFrame (shown d), t)" "inv t"
    "pending t = drop (length (enc d)) (pending s)" by blast
  then have "pending t = stream ds @ p" using Cons.prems(2) by simp
  moreover from Cons.prems(5) obtain k where k: "fuel = Suc k" "length ds < k" by (cases fuel) auto
  moreover have "\<forall>e \<in> set (ds @ es). ok e" using Cons.prems(4) by simp
  moreover from Cons.prems(6) obtain h1 where
    h1: "handle (shown d) h = Some h1" "handle_all handle (map shown ds) h1 = Some h'"
    by (cases "handle (shown d) h") auto
  ultimately obtain u where "process_frames nxt handle k t h1 = Some (True, u, h')" "inv u" "pending u = p"
    using Cons.IH [OF t(2) _ Cons.prems(3)] by blast
  with t(1) k(1) h1(1) show ?case by simp
qed

text \<open>
  Feeding the rest of a stream chunk by chunk: what was buffered is a proper part of the next
  frame, and after the last chunk the frames handled and the bytes still buffered make up
  what was fed.
\<close>

lemma read_input_stream:
  assumes "inv s" and "pending s = p" and "partial p es"
    and "prefix (p @ received rs) (stream es)" and "\<forall>e \<in> set es. ok e"
    and "\<forall>r \<in> set rs. short_read limit r" and "max_frame + limit \<le> cap" and "length es < fuel"
    and "handle_all handle (map shown es) h \<noteq> None"
  shows "\<exists>ds es' q t h'. es = ds @ es' \<and> handle_all handle (map shown ds) h = Some h'
    \<and> read_input append nxt handle fuel down s h rs = Some (down, t, h')
    \<and> inv t \<and> pending t = q \<and> partial q es' \<and> p @ received rs = stream ds @ q"
  using assms
proof (induction rs arbitrary: s p es h)
  case Nil
  then show ?case by (intro exI [of _ "[]"] exI [of _ es] exI [of _ p] exI [of _ s] exI [of _ h]) simp
next
  case (Cons r rs)
  consider c where "r = Data c" | "r = Interrupted"
    using Cons.prems(6) by (cases r) auto
  then show ?case
  proof cases
    case 2
    with Cons.IH [OF Cons.prems(1-3) _ Cons.prems(5) _ Cons.prems(7-9)] Cons.prems(4,6) show ?thesis by simp
  next
    case (1 c)
    have "length (pending s) + length c \<le> cap"
      using partial_short [OF Cons.prems(3,5)] Cons.prems(2,6,7) 1 by auto
    from append_ok [OF Cons.prems(1) this] obtain s' where
      s': "append s (Bytes c) = (True, s')" "inv s'" "pending s' = p @ c"
      using Cons.prems(2) by blast
    have fed: "p @ received (r # rs) = (p @ c) @ received rs" using 1 by simp
    have "prefix (p @ c) (stream es)"
      using Cons.prems(4) unfolding fed by (rule append_prefixD)
    from prefix_stream_split [OF this Cons.prems(5)] obtain ds es1 q
      where split: "es = ds @ es1" "p @ c = stream ds @ q" "partial q es1" by blast
    from Cons.prems(9) split(1) obtain h1 where
      h1: "handle_all handle (map shown ds) h = Some h1" "handle_all handle (map shown es1) h1 \<noteq> None"
      by (cases "handle_all handle (map shown ds) h") (auto simp: handle_all_append)
    have "length ds < fuel" using split(1) Cons.prems(8) by simp
    moreover have "pending s' = stream ds @ q" using s'(3) split(2) by simp
    moreover have "\<forall>e \<in> set (ds @ es1). ok e" using Cons.prems(5) split(1) by simp
    ultimately obtain t where
      t: "process_frames nxt handle fuel s' h = Some (True, t, h1)" "inv t" "pending t = q"
      using process_frames_stream [OF s'(2) _ split(3) _ _ h1(1)] by blast
    have "prefix (q @ received rs) (stream es1)"
      using Cons.prems(4) unfolding fed split(1,2) by simp
    moreover have "\<forall>e \<in> set es1. ok e" "\<forall>r \<in> set rs. short_read limit r" "length es1 < fuel"
      using Cons.prems(5,6,8) split(1) by auto
    ultimately obtain ds2 es2 q2 u h2 where
      u: "es1 = ds2 @ es2" "handle_all handle (map shown ds2) h1 = Some h2"
        "read_input append nxt handle fuel down t h1 rs = Some (down, u, h2)"
        "inv u" "pending u = q2" "partial q2 es2" "q @ received rs = stream ds2 @ q2"
      using Cons.IH [OF t(2,3) split(3) _ _ _ Cons.prems(7) _ h1(2)] by blast
    have "es = (ds @ ds2) @ es2" using split(1) u(1) by simp
    moreover have "handle_all handle (map shown (ds @ ds2)) h = Some h2"
      using h1(1) u(2) by (simp add: handle_all_append)
    moreover have "read_input append nxt handle fuel down s h (r # rs) = Some (down, u, h2)"
      using 1 s'(1) t(1) u(3) by simp
    moreover have "p @ received (r # rs) = stream (ds @ ds2) @ q2"
      unfolding fed split(2) using u(7) by simp
    ultimately show ?thesis using u(4-6) by blast
  qed
qed

theorem read_input_whole:
  assumes "inv s" and "pending s = []" and "received rs = stream es" and "\<forall>e \<in> set es. ok e"
    and "\<forall>r \<in> set rs. short_read limit r" and "max_frame + limit \<le> cap" and "length es < fuel"
    and "handle_all handle (map shown es) h = Some h'"
  shows "\<exists>t. read_input append nxt handle fuel down s h rs = Some (down, t, h') \<and> inv t \<and> pending t = []"
proof -
  have part: "partial [] es"
    using assms(4) by (cases es) (auto simp: partial_def strict_prefix_def dest: enc_size)
  from read_input_stream [OF assms(1,2) part _ assms(4-7), of handle h down] assms(3,8) obtain ds es' q t h1 where
    r: "es = ds @ es'" "handle_all handle (map shown ds) h = Some h1"
      "read_input append nxt handle fuel down s h rs = Some (down, t, h1)"
      "inv t" "pending t = q" "partial q es'" "received rs = stream ds @ q" by auto
  with assms(3) have q: "q = stream es'" by simp
  with r(6) assms(4) r(1) have "es' = []"
    by (cases es') (auto simp: partial_def dest: prefix_length_less)
  with r q assms(8) show ?thesis by simp
qed

end

end
