(* ===== verification/Protocol.thy ===== *)
theory Protocol
  imports Framing
begin

text \<open>
  The Host-worker wire protocol: \<open>src/protocol.h\<close> and \<open>src/protocol.cc\<close>.

  A frame is a 24-byte little-endian header and a payload of at most 64 KiB. The theory holds
  the integer readers and writers, the type and flag rules of protocol versions 3 and 4, the
  three encoders, and the incremental \<open>Parser\<close> with its version pinning. Its lemmas: each
  integer reads back as it was written, an encoded frame parses to itself whatever follows
  it, a parsed frame is exactly the bytes the encoder would have produced, the parser keeps
  its buffer bounds, its error is final, and (through the \<open>stream_parser\<close> interpretation)
  chunking is invisible.
\<close>

section \<open>Constants\<close>

abbreviation (input) kMagic :: u32 where "kMagic \<equiv> 0x43545257"
abbreviation (input) kVersion :: u16 where "kVersion \<equiv> 3"
abbreviation (input) kVersionV4 :: u16 where "kVersionV4 \<equiv> 4"
abbreviation (input) kVersionNegotiate :: u16 where "kVersionNegotiate \<equiv> 0"
abbreviation (input) kHeaderSize :: nat where "kHeaderSize \<equiv> 24"
abbreviation (input) kHelloLegacyFixedPayloadSize :: nat where "kHelloLegacyFixedPayloadSize \<equiv> 106"
abbreviation (input) kHelloFixedPayloadSize :: nat where "kHelloFixedPayloadSize \<equiv> 108"
abbreviation (input) kMaxPayloadSize :: nat where "kMaxPayloadSize \<equiv> 65536"
abbreviation (input) kMaxFixedBodySize :: u32 where "kMaxFixedBodySize \<equiv> 4096"
abbreviation (input) kMaxBufferedBytes :: nat where "kMaxBufferedBytes \<equiv> 4194304"
abbreviation (input) kFlagStart :: u32 where "kFlagStart \<equiv> 1"
abbreviation (input) kFlagEnd :: u32 where "kFlagEnd \<equiv> 2"
abbreviation (input) kFlagBundleName :: u32 where "kFlagBundleName \<equiv> 4"
abbreviation (input) kFlagTrustedBytecode :: u32 where "kFlagTrustedBytecode \<equiv> 8"
abbreviation (input) kFlagRequestEnd :: u32 where "kFlagRequestEnd \<equiv> 16"
abbreviation (input) kFlagResponseFixedBody :: u32 where "kFlagResponseFixedBody \<equiv> 1"
abbreviation (input) kFlagBindingLog :: u32 where "kFlagBindingLog \<equiv> 1"
abbreviation (input) kErrorFlagTimeout :: u32 where "kErrorFlagTimeout \<equiv> 1"
abbreviation (input) kReadySandboxFeatureMask :: u32 where "kReadySandboxFeatureMask \<equiv> 1023"
abbreviation (input) kFlagChanOutbound :: u32 where "kFlagChanOutbound \<equiv> 1"
abbreviation (input) kFlagChanText :: u32 where "kFlagChanText \<equiv> 4"
abbreviation (input) kFlagRequestUpgrade :: u32 where "kFlagRequestUpgrade \<equiv> 32"
abbreviation (input) kFlagResponseUpgrade :: u32 where "kFlagResponseUpgrade \<equiv> 32"
abbreviation (input) kHelloV4TailSize :: nat where "kHelloV4TailSize \<equiv> 8"
abbreviation (input) kCapabilitiesKnownMask :: u32 where "kCapabilitiesKnownMask \<equiv> 7"

abbreviation (input) kHello :: u16 where "kHello \<equiv> 1"
abbreviation (input) kLoadBundle :: u16 where "kLoadBundle \<equiv> 2"
abbreviation (input) kReady :: u16 where "kReady \<equiv> 3"
abbreviation (input) kRequestHead :: u16 where "kRequestHead \<equiv> 4"
abbreviation (input) kRequestBody :: u16 where "kRequestBody \<equiv> 5"
abbreviation (input) kRequestEnd :: u16 where "kRequestEnd \<equiv> 6"
abbreviation (input) kResponseHead :: u16 where "kResponseHead \<equiv> 7"
abbreviation (input) kResponseBody :: u16 where "kResponseBody \<equiv> 8"
abbreviation (input) kResponseEnd :: u16 where "kResponseEnd \<equiv> 9"
abbreviation (input) kWindowUpdate :: u16 where "kWindowUpdate \<equiv> 10"
abbreviation (input) kCancel :: u16 where "kCancel \<equiv> 11"
abbreviation (input) kLog :: u16 where "kLog \<equiv> 12"
abbreviation (input) kError :: u16 where "kError \<equiv> 13"
abbreviation (input) kShutdown :: u16 where "kShutdown \<equiv> 14"
abbreviation (input) kAudit :: u16 where "kAudit \<equiv> 15"
abbreviation (input) kMemoryMetricsRequest :: u16 where "kMemoryMetricsRequest \<equiv> 16"
abbreviation (input) kMemoryMetricsResponse :: u16 where "kMemoryMetricsResponse \<equiv> 17"
abbreviation (input) kLoadBinding :: u16 where "kLoadBinding \<equiv> 18"
abbreviation (input) kChannelOpen :: u16 where "kChannelOpen \<equiv> 19"
abbreviation (input) kChannelData :: u16 where "kChannelData \<equiv> 22"
abbreviation (input) kChannelCancel :: u16 where "kChannelCancel \<equiv> 26"

record frame =
  type :: u16
  flags :: u32
  request_id :: u64
  version :: u16
  payload :: "byte list"

record parser =
  buffer :: "byte list"
  offset :: nat
  error :: string
  expected_version :: u16

section \<open>Little-endian integers\<close>

definition load_u16 :: "byte list \<Rightarrow> u16" where
  "load_u16 input = ucast (input ! 0) OR push_bit 8 (ucast (input ! 1))"

definition load_u32 :: "byte list \<Rightarrow> u32" where
  "load_u32 input = ucast (input ! 0) OR push_bit 8 (ucast (input ! 1))
     OR push_bit 16 (ucast (input ! 2)) OR push_bit 24 (ucast (input ! 3))"

definition load_u64 :: "byte list \<Rightarrow> u64" where
  "load_u64 input = foldl (\<lambda>value i. value OR push_bit (i * 8) (ucast (input ! i))) 0 [0..<8]"

definition append_u16 :: "byte list \<Rightarrow> u16 \<Rightarrow> byte list" where
  "append_u16 output value = output @ [ucast value, ucast (drop_bit 8 value)]"

definition append_u32 :: "byte list \<Rightarrow> u32 \<Rightarrow> byte list" where
  "append_u32 output value = output @
     [ucast value, ucast (drop_bit 8 value), ucast (drop_bit 16 value), ucast (drop_bit 24 value)]"

definition append_u64 :: "byte list \<Rightarrow> u64 \<Rightarrow> byte list" where
  "append_u64 output value = output @ map (\<lambda>i. ucast (drop_bit (i * 8) value)) [0..<8]"

definition read_u16 :: "byte list \<Rightarrow> u16 reading" where
  "read_u16 cursor = (if length cursor < 2 then None else Some (load_u16 cursor, drop 2 cursor))"

definition read_u32 :: "byte list \<Rightarrow> u32 reading" where
  "read_u32 cursor = (if length cursor < 4 then None else Some (load_u32 cursor, drop 4 cursor))"

definition read_u64 :: "byte list \<Rightarrow> u64 reading" where
  "read_u64 cursor = (if length cursor < 8 then None else Some (load_u64 cursor, drop 8 cursor))"

section \<open>Types and flags\<close>

definition valid_type :: "u16 \<Rightarrow> bool" where
  "valid_type t \<longleftrightarrow> kHello \<le> t \<and> t \<le> kLoadBinding"

definition valid_type_versioned :: "u16 \<Rightarrow> u16 \<Rightarrow> bool" where
  "valid_type_versioned t v =
     (if v = kVersionV4 then kHello \<le> t \<and> t \<le> kChannelCancel else valid_type t)"

definition valid_hello_v4_payload :: "byte list \<Rightarrow> bool" where
  "valid_hello_v4_payload p =
     (if length p < kHelloFixedPayloadSize + kHelloV4TailSize then False
      else case read_u32 (drop (length p - kHelloV4TailSize) p) of
             None \<Rightarrow> False
           | Some (capabilities, cursor) \<Rightarrow>
               (case read_u32 cursor of
                  None \<Rightarrow> False
                | Some (reserved, _) \<Rightarrow>
                    capabilities AND NOT kCapabilitiesKnownMask = 0 \<and> reserved = 0))"

definition valid_flags :: "u16 \<Rightarrow> u32 \<Rightarrow> bool" where
  "valid_flags t fl =
     (if t = kLoadBundle then
        fl AND NOT (kFlagStart OR kFlagEnd OR kFlagBundleName OR kFlagTrustedBytecode) = 0
        \<and> (fl AND kFlagBundleName = 0 \<or> fl AND kFlagStart \<noteq> 0)
        \<and> (fl AND kFlagTrustedBytecode = 0 \<or> fl AND kFlagStart \<noteq> 0)
      else if t = kLoadBinding then fl AND NOT (kFlagStart OR kFlagEnd) = 0
      else if t = kRequestHead then fl AND NOT kFlagRequestEnd = 0
      else if t = kResponseHead then fl AND NOT kFlagResponseFixedBody = 0
      else if t = kError then fl AND NOT kErrorFlagTimeout = 0
      else if t = kReady then fl AND NOT kReadySandboxFeatureMask = 0
      else if t = kLog then fl AND NOT kFlagBindingLog = 0
      else fl = 0)"

definition valid_flags_versioned :: "u16 \<Rightarrow> u32 \<Rightarrow> u16 \<Rightarrow> bool" where
  "valid_flags_versioned t fl v =
     (if v \<noteq> kVersionV4 then valid_flags t fl
      else if t = kRequestHead then fl AND NOT (kFlagRequestEnd OR kFlagRequestUpgrade) = 0
      else if t = kResponseHead then fl AND NOT (kFlagResponseFixedBody OR kFlagResponseUpgrade) = 0
      else if t = kChannelOpen then fl AND NOT kFlagChanOutbound = 0
      else if t = kChannelData then fl AND NOT (kFlagStart OR kFlagEnd OR kFlagChanText) = 0
      else valid_flags t fl)"

section \<open>The parser\<close>

definition Parser :: "u16 \<Rightarrow> parser" where
  "Parser v = \<lparr>buffer = [], offset = 0, error = '''', expected_version = v\<rparr>"

definition Parser_append :: "parser \<Rightarrow> span \<Rightarrow> bool \<times> parser" where
  "Parser_append p data =
     (if error p \<noteq> '''' then (False, p)
      else if span_size data = 0 then (True, p)
      else if span_null data then (False, p\<lparr>error := ''invalid parser input''\<rparr>)
      else let buffered = sz_sub (length (buffer p)) (offset p) in
      if span_size data > sz_sub kMaxBufferedBytes buffered
      then (False, p\<lparr>error := ''frame buffer limit exceeded''\<rparr>)
      else let p = (if offset p \<noteq> 0 \<and>
                       (length (buffer p) + span_size data > kMaxBufferedBytes
                        \<or> offset p \<ge> length (buffer p) div 2)
                    then p\<lparr>buffer := drop (offset p) (buffer p), offset := 0\<rparr> else p)
      in (True, p\<lparr>buffer := buffer p @ span_bytes data\<rparr>))"

text \<open>
  \<open>next\<close> in two parts: the header and version check, and the rest of the function once the
  version is known (\<open>next_locked\<close>), which ends by consuming the frame.
\<close>

definition consume_frame :: "nat \<Rightarrow> parser \<Rightarrow> parser" where
  "consume_frame frame_size p =
     (let p = p\<lparr>offset := offset p + frame_size\<rparr> in
      if offset p = length (buffer p) then p\<lparr>buffer := [], offset := 0\<rparr> else p)"

definition next_locked :: "parser \<Rightarrow> nat \<Rightarrow> byte list \<Rightarrow> frame parse_result \<times> parser" where
  "next_locked p buffered header =
     (let t = load_u16 (drop 6 header); fl = load_u32 (drop 8 header);
          payload_size = unat (load_u32 (drop 20 header));
          frame_size = kHeaderSize + payload_size;
          body = take payload_size (drop kHeaderSize header) in
      if \<not> valid_type_versioned t (expected_version p)
      then (kParseError, p\<lparr>error := ''invalid frame type''\<rparr>)
      else if \<not> valid_flags_versioned t fl (expected_version p)
      then (kParseError, p\<lparr>error := ''invalid frame flags''\<rparr>)
      else if payload_size > kMaxPayloadSize
      then (kParseError, p\<lparr>error := ''frame payload limit exceeded''\<rparr>)
      else if buffered < frame_size then (kParseNeedMore, p)
      else if expected_version p = kVersionV4 \<and> t = kHello \<and> \<not> valid_hello_v4_payload body
      then (kParseError, p\<lparr>error := ''invalid hello capabilities''\<rparr>)
      else (kParseFrame \<lparr>type = t, flags = fl, request_id = load_u64 (drop 12 header),
                         version = expected_version p, payload = body\<rparr>,
            consume_frame frame_size p))"

definition Parser_next :: "parser \<Rightarrow> frame parse_result \<times> parser" where
  "Parser_next p =
     (if error p \<noteq> '''' then (kParseError, p)
      else let buffered = sz_sub (length (buffer p)) (offset p) in
      if buffered < kHeaderSize then (kParseNeedMore, p)
      else let header = drop (offset p) (buffer p) in
      if load_u32 header \<noteq> kMagic
      then (kParseError, p\<lparr>error := ''invalid frame magic''\<rparr>)
      else let wire_version = load_u16 (drop 4 header) in
      if (if expected_version p = kVersionNegotiate
          then wire_version \<noteq> kVersion \<and> wire_version \<noteq> kVersionV4
          else wire_version \<noteq> expected_version p)
      then (kParseError, p\<lparr>error := ''unsupported protocol version''\<rparr>)
      else next_locked (if expected_version p = kVersionNegotiate
                        then p\<lparr>expected_version := wire_version\<rparr> else p) buffered header)"

section \<open>The encoders\<close>

definition append_encoded :: "u16 \<Rightarrow> u32 \<Rightarrow> u64 \<Rightarrow> span \<Rightarrow> byte list \<Rightarrow> byte list option" where
  "append_encoded t fl rid data output =
     (if \<not> valid_type t \<or> \<not> valid_flags t fl \<or> span_size data > kMaxPayloadSize
         \<or> (span_size data \<noteq> 0 \<and> span_null data)
         \<or> length output > size_max - kHeaderSize - span_size data
      then None
      else Some (append_u32 (append_u64 (append_u32 (append_u16 (append_u16 (append_u32
             output kMagic) kVersion) t) fl) rid) (word_of_nat (span_size data))
             @ (if span_size data \<noteq> 0 then span_bytes data else [])))"

definition append_encoded_versioned ::
  "u16 \<Rightarrow> u16 \<Rightarrow> u32 \<Rightarrow> u64 \<Rightarrow> span \<Rightarrow> byte list \<Rightarrow> byte list option" where
  "append_encoded_versioned v t fl rid data output =
     (if (v \<noteq> kVersion \<and> v \<noteq> kVersionV4)
         \<or> \<not> valid_type_versioned t v \<or> \<not> valid_flags_versioned t fl v
         \<or> span_size data > kMaxPayloadSize
         \<or> (span_size data \<noteq> 0 \<and> span_null data)
         \<or> length output > size_max - kHeaderSize - span_size data
      then None
      else Some (append_u32 (append_u64 (append_u32 (append_u16 (append_u16 (append_u32
             output kMagic) v) t) fl) rid) (word_of_nat (span_size data))
             @ (if span_size data \<noteq> 0 then span_bytes data else [])))"

definition encode :: "frame \<Rightarrow> byte list option" where
  "encode f = append_encoded (type f) (flags f) (request_id f)
     (if payload f = [] then Null (length (payload f)) else Bytes (payload f)) []"

definition encode_versioned :: "u16 \<Rightarrow> frame \<Rightarrow> byte list option" where
  "encode_versioned v f =
     (if v \<noteq> kVersion \<and> v \<noteq> kVersionV4 then None
      else if \<not> valid_type_versioned (type f) v \<or> \<not> valid_flags_versioned (type f) (flags f) v then None
      else if length (payload f) > kMaxPayloadSize
              \<or> (length (payload f) \<noteq> 0 \<and> payload f = []) then None
      else Some (append_u32 (append_u64 (append_u32 (append_u16 (append_u16 (append_u32
             [] kMagic) v) (type f)) (flags f)) (request_id f))
             (word_of_nat (length (payload f)))
             @ (if payload f \<noteq> [] then payload f else [])))"

section \<open>Integers read back as written\<close>

lemma load_u16_le: "load_u16 bs = le_word 2 bs"
  unfolding load_u16_def le_word_def upt_2 by simp

lemma load_u32_le: "load_u32 bs = le_word 4 bs"
  unfolding load_u32_def le_word_def upt_4 by (simp add: or.assoc)

lemma load_u64_le: "load_u64 bs = le_word 8 bs"
  by (simp only: load_u64_def le_word_def)

lemma append_u16_le: "append_u16 output v = output @ le_bytes 2 v"
  unfolding append_u16_def le_bytes_def upt_2 by simp

lemma append_u32_le: "append_u32 output v = output @ le_bytes 4 v"
  unfolding append_u32_def le_bytes_def upt_4 by simp

lemma append_u64_le: "append_u64 output v = output @ le_bytes 8 v"
  by (simp only: append_u64_def le_bytes_def)

lemmas append_le = append_u16_le append_u32_le append_u64_le

lemma load_le_bytes [wire_simps]:
  "load_u16 (le_bytes 2 v @ rest) = v"
  "load_u32 (le_bytes 4 w @ rest) = w"
  "load_u64 (le_bytes 8 x @ rest) = x"
  by (simp_all add: load_u16_le load_u32_le load_u64_le le_word_bytes)

lemma le_bytes_load:
  "2 \<le> length bs \<Longrightarrow> le_bytes 2 (load_u16 bs) = take 2 bs"
  "4 \<le> length bs \<Longrightarrow> le_bytes 4 (load_u32 bs) = take 4 bs"
  "8 \<le> length bs \<Longrightarrow> le_bytes 8 (load_u64 bs) = take 8 bs"
  by (simp_all add: load_u16_le load_u32_le load_u64_le le_bytes_word)

lemma read_le_bytes [wire_simps]:
  "read_u16 (le_bytes 2 v @ rest) = Some (v, rest)"
  "read_u32 (le_bytes 4 w @ rest) = Some (w, rest)"
  "read_u64 (le_bytes 8 x @ rest) = Some (x, rest)"
  by (simp_all add: read_u16_def read_u32_def read_u64_def wire_simps)

lemma read_Some_le_bytes:
  "read_u16 cur = Some (v, rest) \<Longrightarrow> cur = le_bytes 2 v @ rest"
  "read_u32 cur = Some (w, rest) \<Longrightarrow> cur = le_bytes 4 w @ rest"
  "read_u64 cur = Some (x, rest) \<Longrightarrow> cur = le_bytes 8 x @ rest"
  by (auto simp: read_u16_def read_u32_def read_u64_def le_bytes_load split: if_splits)

section \<open>What a frame looks like on the wire\<close>

definition frame_header :: "u16 \<Rightarrow> frame \<Rightarrow> byte list" where
  "frame_header v f = le_bytes 4 kMagic @ le_bytes 2 v @ le_bytes 2 (type f) @ le_bytes 4 (flags f)
     @ le_bytes 8 (request_id f) @ le_bytes 4 (word_of_nat (length (payload f)) :: u32)"

definition encodable :: "u16 \<Rightarrow> frame \<Rightarrow> bool" where
  "encodable v f \<longleftrightarrow> (v = kVersion \<or> v = kVersionV4) \<and> valid_type_versioned (type f) v
     \<and> valid_flags_versioned (type f) (flags f) v \<and> length (payload f) \<le> kMaxPayloadSize"

definition hello_ok :: "u16 \<Rightarrow> frame \<Rightarrow> bool" where
  "hello_ok v f \<longleftrightarrow> (v = kVersionV4 \<and> type f = kHello \<longrightarrow> valid_hello_v4_payload (payload f))"

lemma length_frame_header [simp]: "length (frame_header v f) = kHeaderSize"
  by (simp add: frame_header_def)

lemma encode_versioned_eq:
  "encode_versioned v f = (if encodable v f then Some (frame_header v f @ payload f) else None)"
  by (auto simp: encode_versioned_def encodable_def frame_header_def append_le)

lemma append_encoded_versioned_eq:
  "append_encoded_versioned v t fl rid (Bytes d) output =
     (if encodable v \<lparr>type = t, flags = fl, request_id = rid, version = v, payload = d\<rparr>
         \<and> length output \<le> size_max - kHeaderSize - length d
      then Some (output @ frame_header v \<lparr>type = t, flags = fl, request_id = rid, version = v, payload = d\<rparr> @ d)
      else None)"
  by (auto simp: append_encoded_versioned_def encodable_def frame_header_def append_le)

lemma encode_eq_versioned: "encode f = encode_versioned kVersion f"
  by (auto simp: encode_def append_encoded_def encode_versioned_def valid_type_versioned_def
      valid_flags_versioned_def size_max_def append_le)

section \<open>The reference decoder\<close>

text \<open>The frame at the front of a byte list, at a fixed protocol version.\<close>

definition decode_frame :: "u16 \<Rightarrow> byte list \<Rightarrow> frame decoded" where
  "decode_frame v bs =
     (if length bs < kHeaderSize then More
      else let t = load_u16 (drop 6 bs); fl = load_u32 (drop 8 bs);
               n = unat (load_u32 (drop 20 bs)); body = take n (drop kHeaderSize bs) in
      if load_u32 bs \<noteq> kMagic \<or> load_u16 (drop 4 bs) \<noteq> v \<or> \<not> valid_type_versioned t v
         \<or> \<not> valid_flags_versioned t fl v \<or> n > kMaxPayloadSize then Bad
      else if length bs < kHeaderSize + n then More
      else if v = kVersionV4 \<and> t = kHello \<and> \<not> valid_hello_v4_payload body then Bad
      else Got \<lparr>type = t, flags = fl, request_id = load_u64 (drop 12 bs), version = v, payload = body\<rparr>
             (kHeaderSize + n))"

lemma frame_header_loads [wire_simps]:
  "load_u32 (frame_header v f @ t) = kMagic"
  "load_u16 (drop 4 (frame_header v f @ t)) = v"
  "load_u16 (drop 6 (frame_header v f @ t)) = type f"
  "load_u32 (drop 8 (frame_header v f @ t)) = flags f"
  "load_u64 (drop 12 (frame_header v f @ t)) = request_id f"
  "load_u32 (drop 20 (frame_header v f @ t)) = word_of_nat (length (payload f))"
  by (simp_all add: frame_header_def wire_simps)

lemma frame_rebuild:
  "\<lparr>type = type f, flags = flags f, request_id = request_id f, version = v, payload = p\<rparr>
   = f\<lparr>version := v, payload := p\<rparr>"
  by (cases f) simp

lemma payload_size_read:
  "length (payload f) \<le> kMaxPayloadSize \<Longrightarrow> unat (word_of_nat (length (payload f)) :: u32) = length (payload f)"
  by (simp add: unat_of_nat)

lemma decode_frame_header:
  assumes "encodable v f"
  shows "decode_frame v (frame_header v f @ t) =
    (if length t < length (payload f) then More
     else if v = kVersionV4 \<and> type f = kHello \<and> \<not> valid_hello_v4_payload (take (length (payload f)) t) then Bad
     else Got (f\<lparr>version := v, payload := take (length (payload f)) t\<rparr>) (kHeaderSize + length (payload f)))"
proof -
  define bs where "bs = frame_header v f @ t"
  have loads: "load_u32 bs = kMagic" "load_u16 (drop 4 bs) = v" "load_u16 (drop 6 bs) = type f"
    "load_u32 (drop 8 bs) = flags f" "load_u64 (drop 12 bs) = request_id f"
    "load_u32 (drop 20 bs) = word_of_nat (length (payload f))"
    unfolding bs_def by (fact frame_header_loads)+
  have bs: "drop kHeaderSize bs = t" "length bs = kHeaderSize + length t" by (simp_all add: bs_def)
  have "length (payload f) \<le> kMaxPayloadSize" using assms by (simp add: encodable_def)
  from payload_size_read [OF this] assms show ?thesis
    unfolding bs_def [symmetric] by (simp add: decode_frame_def encodable_def loads bs frame_rebuild Let_def)
qed

lemma decode_frame_encoded:
  assumes "encodable v f" and "hello_ok v f"
  shows "decode_frame v (frame_header v f @ payload f @ rest)
    = Got (f\<lparr>version := v\<rparr>) (length (frame_header v f @ payload f))"
  using assms by (simp add: decode_frame_header hello_ok_def)

lemma decode_frame_short:
  assumes "encodable v f" and "strict_prefix bs (frame_header v f @ payload f)"
  shows "decode_frame v bs = More"
proof (cases "length bs < kHeaderSize")
  case True
  then show ?thesis by (simp add: decode_frame_def)
next
  case False
  with strict_prefix_cases_length [OF assms(2)]
  have "bs = frame_header v f @ take (length bs - kHeaderSize) (payload f)"
    and "length bs - kHeaderSize < length (payload f)" by auto
  then show ?thesis using decode_frame_header [OF assms(1)] by (metis length_take min.absorb4)
qed

lemma header_of_bytes:
  assumes "kHeaderSize \<le> length bs"
  shows "take kHeaderSize bs = le_bytes 4 (load_u32 bs) @ le_bytes 2 (load_u16 (drop 4 bs))
    @ le_bytes 2 (load_u16 (drop 6 bs)) @ le_bytes 4 (load_u32 (drop 8 bs))
    @ le_bytes 8 (load_u64 (drop 12 bs)) @ le_bytes 4 (load_u32 (drop 20 bs))"
proof -
  have "take kHeaderSize bs = take (4 + (2 + (2 + (4 + (8 + 4))))) bs" by simp
  also have "\<dots> = take 4 bs @ take 2 (drop 4 bs) @ take 2 (drop 6 bs) @ take 4 (drop 8 bs)
    @ take 8 (drop 12 bs) @ take 4 (drop 20 bs)"
    by (simp only: take_add drop_drop) simp
  finally show ?thesis using assms by (simp add: le_bytes_load)
qed

text \<open>Whatever the decoder accepts is, byte for byte, what the encoder emits for that frame.\<close>

lemma decode_frame_sound:
  assumes "decode_frame v bs = Got f n" and "v = kVersion \<or> v = kVersionV4"
  shows "encodable v f" and "hello_ok v f" and "version f = v"
    and "take n bs = frame_header v f @ payload f" and "n = kHeaderSize + length (payload f)"
    and "n \<le> length bs"
proof -
  let ?n = "unat (load_u32 (drop 20 bs))"
  from assms(1) have len: "kHeaderSize \<le> length bs" "kHeaderSize + ?n \<le> length bs" "n = kHeaderSize + ?n"
    and f: "type f = load_u16 (drop 6 bs)" "flags f = load_u32 (drop 8 bs)"
      "request_id f = load_u64 (drop 12 bs)" "version f = v" "payload f = take ?n (drop kHeaderSize bs)"
    and m: "load_u32 bs = kMagic" "load_u16 (drop 4 bs) = v"
    by (auto simp: decode_frame_def Let_def split: if_splits)
  from assms show "encodable v f" "hello_ok v f"
    by (auto simp: decode_frame_def Let_def encodable_def hello_ok_def split: if_splits)
  show "version f = v" by (fact f(4))
  from len f(5) have lp: "length (payload f) = ?n" by simp
  with len show "n = kHeaderSize + length (payload f)" "n \<le> length bs" by simp_all
  have "frame_header v f = take kHeaderSize bs"
    using header_of_bytes [OF len(1)] f m lp by (simp add: frame_header_def)
  moreover have "take n bs = take kHeaderSize bs @ payload f"
    using len f(5) by (simp add: take_add)
  ultimately show "take n bs = frame_header v f @ payload f" by simp
qed

section \<open>The parser object\<close>

definition pending :: "parser \<Rightarrow> byte list" where
  "pending p = drop (offset p) (buffer p)"

definition parser_ok :: "parser \<Rightarrow> bool" where
  "parser_ok p \<longleftrightarrow> offset p \<le> length (buffer p) \<and> length (buffer p) \<le> kMaxBufferedBytes"

text \<open>A healthy parser that speaks, or will still negotiate, version \<open>v\<close>.\<close>

definition speaks :: "u16 \<Rightarrow> parser \<Rightarrow> bool" where
  "speaks v p \<longleftrightarrow> parser_ok p \<and> error p = ''''
     \<and> (expected_version p = v \<and> v \<noteq> kVersionNegotiate
        \<or> expected_version p = kVersionNegotiate \<and> (v = kVersion \<or> v = kVersionV4))"

lemma parser_ok_Parser [keeps]: "parser_ok (Parser v)"
  by (simp add: parser_ok_def Parser_def)

lemma length_pending: "length (pending p) = length (buffer p) - offset p"
  by (simp add: pending_def)

lemma Parser_append_ok [keeps]: "parser_ok p \<Longrightarrow> parser_ok (snd (Parser_append p d))"
  by (cases d) (auto simp: Parser_append_def parser_ok_def Let_def)

lemma Parser_append_Bytes:
  assumes "parser_ok p" and "error p = ''''" and "length (pending p) + length d \<le> kMaxBufferedBytes"
  shows "\<exists>p'. Parser_append p (Bytes d) = (True, p') \<and> pending p' = pending p @ d
    \<and> expected_version p' = expected_version p \<and> error p' = ''''"
  using assms by (auto simp: Parser_append_def parser_ok_def pending_def Let_def)



lemma parser_ok_updates [simp]:
  "parser_ok (p\<lparr>error := e\<rparr>) = parser_ok p" "parser_ok (p\<lparr>expected_version := w\<rparr>) = parser_ok p"
  by (simp_all add: parser_ok_def)

lemma pending_updates [simp]:
  "pending (p\<lparr>error := e\<rparr>) = pending p" "pending (p\<lparr>expected_version := w\<rparr>) = pending p"
  by (simp_all add: pending_def)

lemma consume_frame_fields [simp]:
  "error (consume_frame n p) = error p" "expected_version (consume_frame n p) = expected_version p"
  by (simp_all add: consume_frame_def Let_def)

lemma pending_consume_frame [simp]: "pending (consume_frame n p) = drop n (pending p)"
  by (simp add: consume_frame_def pending_def Let_def add.commute)

lemma parser_ok_consume_frame [keeps]:
  "parser_ok p \<Longrightarrow> n \<le> length (pending p) \<Longrightarrow> parser_ok (consume_frame n p)"
  by (auto simp: consume_frame_def pending_def parser_ok_def Let_def)

lemma next_locked_decode:
  assumes "kHeaderSize \<le> length bs" "load_u32 bs = kMagic" "load_u16 (drop 4 bs) = expected_version p"
  shows "case decode_frame (expected_version p) bs of
      More \<Rightarrow> next_locked p (length bs) bs = (kParseNeedMore, p)
    | Got f n \<Rightarrow> n \<le> length bs \<and> next_locked p (length bs) bs = (kParseFrame f, consume_frame n p)
    | Bad \<Rightarrow> (case next_locked p (length bs) bs of (r, q) \<Rightarrow> r = kParseError \<and> error q \<noteq> ''''
        \<and> parser_ok q = parser_ok p \<and> expected_version q = expected_version p)"
  using assms by (simp add: decode_frame_def next_locked_def Let_def)

lemma Parser_next_locked:
  assumes "parser_ok p"
  shows "Parser_next p =
     (if error p \<noteq> '''' then (kParseError, p)
      else if length (pending p) < kHeaderSize then (kParseNeedMore, p)
      else if load_u32 (pending p) \<noteq> kMagic
      then (kParseError, p\<lparr>error := ''invalid frame magic''\<rparr>)
      else if (if expected_version p = kVersionNegotiate
          then load_u16 (drop 4 (pending p)) \<notin> {kVersion, kVersionV4}
          else load_u16 (drop 4 (pending p)) \<noteq> expected_version p)
      then (kParseError, p\<lparr>error := ''unsupported protocol version''\<rparr>)
      else next_locked (p\<lparr>expected_version := load_u16 (drop 4 (pending p))\<rparr>)
             (length (pending p)) (pending p))"
  using assms by (simp add: Parser_next_def pending_def parser_ok_def)

lemma Parser_next_cases:
  assumes ok: "parser_ok p" and clean: "error p = ''''"
  obtains (Waiting) "Parser_next p = (kParseNeedMore, p)" "length (pending p) < kHeaderSize"
  | (Refused) e where "e \<noteq> ''''" "Parser_next p = (kParseError, p\<lparr>error := e\<rparr>)"
      "kHeaderSize \<le> length (pending p)"
      "\<And>v. speaks v p \<Longrightarrow> load_u32 (pending p) \<noteq> kMagic \<or> load_u16 (drop 4 (pending p)) \<noteq> v"
  | (Locked) w where "Parser_next p = next_locked (p\<lparr>expected_version := w\<rparr>) (length (pending p)) (pending p)"
      "kHeaderSize \<le> length (pending p)"  "load_u32 (pending p) = kMagic" "load_u16 (drop 4 (pending p)) = w"
      "w \<noteq> kVersionNegotiate"
      "expected_version p = w \<or> expected_version p = kVersionNegotiate \<and> (w = kVersion \<or> w = kVersionV4)"
proof -
  note next_p = Parser_next_locked [OF ok]
  consider "length (pending p) < kHeaderSize"
    | "kHeaderSize \<le> length (pending p)" "load_u32 (pending p) \<noteq> kMagic"
    | "kHeaderSize \<le> length (pending p)" "load_u32 (pending p) = kMagic"
    by linarith
  then show thesis
  proof cases
    case 1 then show thesis using Waiting next_p clean by simp
  next
    case 2 then show thesis using Refused [of "''invalid frame magic''"] next_p clean by simp
  next
    case 3
    then show thesis
      using Refused [of "''unsupported protocol version''"] Locked [of "load_u16 (drop 4 (pending p))"]
        next_p clean by (auto simp: speaks_def split: if_splits)
  qed
qed

lemma Parser_next_ok [keeps]:
  assumes ok: "parser_ok p"
  shows "parser_ok (snd (Parser_next p))"
proof (cases "error p = ''''")
  case True
  from ok True show ?thesis
  proof (cases rule: Parser_next_cases)
    case (Locked w)
    then show ?thesis
      using next_locked_decode [of "pending p" "p\<lparr>expected_version := w\<rparr>"] ok
      by (auto split: decoded.splits prod.splits intro: keeps)
  qed (use ok in simp_all)
qed (use ok in \<open>simp add: Parser_next_def\<close>)

text \<open>The parser implements the reference decoder on the bytes not yet consumed.\<close>

lemma Parser_next_decode:
  assumes "speaks v p"
  shows "case decode_frame v (pending p) of
      More \<Rightarrow> \<exists>p'. Parser_next p = (kParseNeedMore, p') \<and> speaks v p' \<and> pending p' = pending p
    | Got f n \<Rightarrow> \<exists>p'. Parser_next p = (kParseFrame f, p') \<and> speaks v p' \<and> pending p' = drop n (pending p)
        \<and> expected_version p' = v
    | Bad \<Rightarrow> expected_version p = v \<longrightarrow> fst (Parser_next p) = kParseError"
proof -
  from assms have "parser_ok p" "error p = ''''" by (auto simp: speaks_def)
  then show ?thesis
  proof (cases rule: Parser_next_cases)
    case Waiting
    then show ?thesis using assms by (simp add: decode_frame_def)
  next
    case (Refused e)
    then show ?thesis using assms by (auto simp: decode_frame_def Let_def)
  next
    case (Locked w)
    show ?thesis
    proof (cases "w = v")
      case True
      then have "speaks v (p\<lparr>expected_version := w\<rparr>)" using assms by (auto simp: speaks_def)
      then show ?thesis
        using next_locked_decode [of "pending p" "p\<lparr>expected_version := w\<rparr>"] Locked True
        by (auto simp: speaks_def split: decoded.splits prod.splits intro: keeps)
    next
      case False
      then have "decode_frame v (pending p) = Bad" using Locked by (simp add: decode_frame_def Let_def)
      then show ?thesis using False Locked assms by (auto simp: speaks_def)
    qed
  qed
qed

section \<open>The codec as a stream parser\<close>

text \<open>One interpretation per wire version: the encoder, the reference decoder and the parser object.\<close>

interpretation wire: stream_parser
  "\<lambda>f. the (encode_versioned v f)" "\<lambda>f. f\<lparr>version := v\<rparr>"
  "\<lambda>f. encodable v f \<and> hello_ok v f" "decode_frame v" "kHeaderSize + kMaxPayloadSize"
  "speaks v" pending kMaxBufferedBytes Parser_append Parser_next for v
proof (unfold_locales, goal_cases)
  case (1 f rest) then show ?case by (simp add: encode_versioned_eq decode_frame_encoded)
next
  case (2 f bs) then show ?case by (auto simp: encode_versioned_eq intro: decode_frame_short)
next
  case (3 f) then show ?case by (simp add: encode_versioned_eq encodable_def)
next
  case (4 p d)
  then have p: "parser_ok p" "error p = ''''" by (auto simp: speaks_def)
  from Parser_append_Bytes [OF p 4(2)] Parser_append_ok [OF p(1), of "Bytes d"] 4(1)
  show ?case by (auto simp: speaks_def)
next
  case (5 p) with Parser_next_decode [OF 5(1)] show ?case by simp
next
  case (6 p f n) with Parser_next_decode [OF 6(1)] show ?case by auto
next
  case 7 show ?case by (simp add: decode_frame_def)
qed

section \<open>Any sequence of calls\<close>

datatype parser_op = Append span | Next

fun parser_step :: "parser_op \<Rightarrow> parser \<Rightarrow> parser" where
  "parser_step (Append d) p = snd (Parser_append p d)"
| "parser_step Next p = snd (Parser_next p)"

definition parser_run :: "parser_op list \<Rightarrow> parser \<Rightarrow> parser" where
  "parser_run ops p = fold parser_step ops p"

lemma parser_step_ok [keeps]: "parser_ok p \<Longrightarrow> parser_ok (parser_step op p)"
  by (cases op) (simp_all add: keeps)

lemma parser_run_ok [keeps]: "parser_ok p \<Longrightarrow> parser_ok (parser_run ops p)"
  unfolding parser_run_def by (induction ops arbitrary: p) (simp_all add: keeps)

lemma parser_step_failed: "error p \<noteq> '''' \<Longrightarrow> parser_step op p = p"
  by (cases op) (simp_all add: Parser_append_def Parser_next_def)

lemma Parser_next_version:
  assumes "parser_ok p"
  shows "case Parser_next p of (r, q) \<Rightarrow>
    (expected_version q = expected_version p
       \<or> expected_version p = kVersionNegotiate \<and> expected_version q \<in> {kVersion, kVersionV4})
    \<and> (\<forall>f. r = kParseFrame f \<longrightarrow> version f = expected_version q \<and> error p = '''')"
proof (cases "error p = ''''")
  case True
  with assms show ?thesis
  proof (cases rule: Parser_next_cases)
    case (Locked w)
    then show ?thesis
      using next_locked_decode [of "pending p" "p\<lparr>expected_version := w\<rparr>"] True
      by (auto split: decoded.splits prod.splits simp: decode_frame_def Let_def split: if_splits)
  qed simp_all
qed (simp add: Parser_next_def)

lemma Parser_append_version [simp]: "expected_version (snd (Parser_append p d)) = expected_version p"
  by (cases d) (simp_all add: Parser_append_def Let_def)

lemma parser_step_version:
  assumes "parser_ok p"
  shows "expected_version (parser_step op p) = expected_version p
    \<or> expected_version p = kVersionNegotiate \<and> expected_version (parser_step op p) \<in> {kVersion, kVersionV4}"
  using Parser_next_version [OF assms] by (cases op) (auto split: prod.splits)

lemma parser_run_version:
  assumes "parser_ok p" "expected_version p \<noteq> kVersionNegotiate"
  shows "expected_version (parser_run ops p) = expected_version p"
  using assms unfolding parser_run_def
proof (induction ops arbitrary: p)
  case (Cons op ops)
  with parser_step_version [of p op] show ?case by (simp add: keeps)
qed simp

lemma parser_run_failed: "error p \<noteq> '''' \<Longrightarrow> parser_run ops p = p"
  unfolding parser_run_def by (induction ops) (simp_all add: parser_step_failed)

section \<open>Properties\<close>

text \<open>C1: However the byte stream of a sequence of encoded frames is cut into reads of at most
  64 KiB, with reads that a signal interrupted between them, the receive loop over a parser pinned
  to the sender's version, or over one that negotiates it, hands exactly those frames to the
  handler, in order: if the handler accepts them and ends in \<open>h'\<close>, the loop ends in \<open>h'\<close>, no
  shutdown is requested, and the parser has no bytes buffered and no error.\<close>

theorem frames_survive_chunking:
  assumes "v = kVersion \<or> v = kVersionV4" and "p = Parser v \<or> p = Parser kVersionNegotiate"
    and "\<forall>f \<in> set fs. encodable v f \<and> hello_ok v f"
    and "received reads = concat (map (\<lambda>f. the (encode_versioned v f)) fs)"
    and "\<forall>r \<in> set reads. short_read 65536 r" and "length fs < fuel"
    and "handle_all handle (map (\<lambda>f. f\<lparr>version := v\<rparr>) fs) h = Some h'"
  shows "\<exists>q. read_input Parser_append Parser_next handle fuel False p h reads = Some (False, q, h')
    \<and> error q = '''' \<and> pending q = [] \<and> parser_ok q"
proof -
  have "speaks v p" "pending p = []"
    using assms(1,2) by (auto simp: speaks_def Parser_def parser_ok_def pending_def)
  from wire.read_input_whole [OF this _ assms(3,5) _ assms(6,7)] assms(4) show ?thesis
    by (simp add: wire.stream_def speaks_def) blast
qed

theorem frames_survive_chunking_witness:
  "let f = \<lparr>type = kRequestEnd, flags = 0, request_id = 7, version = 0, payload = [1, 2]\<rparr>;
       w = the (encode_versioned kVersionV4 f)
   in \<exists>q. read_input Parser_append Parser_next (\<lambda>f h. Some (h @ [f])) 3 False (Parser kVersionNegotiate) []
          [Data (take 5 w), Interrupted, Data (drop 5 w @ take 1 w), Data (drop 1 w)]
        = Some (False, q, [f\<lparr>version := kVersionV4\<rparr>, f\<lparr>version := kVersionV4\<rparr>])"
proof -
  let ?f = "\<lparr>type = kRequestEnd, flags = 0, request_id = 7, version = 0, payload = [1, 2]\<rparr>"
  let ?w = "the (encode_versioned kVersionV4 ?f)"
  have ok: "encodable kVersionV4 ?f" "hello_ok kVersionV4 ?f"
    by (simp_all add: encodable_def hello_ok_def valid_type_versioned_def valid_flags_versioned_def valid_flags_def)
  have "length ?w = 26" using ok by (simp add: encode_versioned_eq)
  then show ?thesis
    using frames_survive_chunking [of kVersionV4 "Parser kVersionNegotiate" "[?f, ?f]"
        "[Data (take 5 ?w), Interrupted, Data (drop 5 ?w @ take 1 ?w), Data (drop 1 ?w)]" 3
        "\<lambda>f h. Some (h @ [f])" "[]"] ok
    by (auto simp: Let_def)
qed

text \<open>C31: Every frame the parser hands over is canonical: encoding it again at the version it
  carries gives exactly the bytes that were consumed, and from then on the parser is pinned to
  that version.\<close>

theorem frame_is_canonical:
  assumes "parser_ok p" and "expected_version p \<in> {kVersionNegotiate, kVersion, kVersionV4}"
    and "Parser_next p = (kParseFrame f, q)"
  shows "\<exists>w. encode_versioned (version f) f = Some w \<and> pending p = w @ pending q
    \<and> expected_version q = version f \<and> version f \<in> {kVersion, kVersionV4} \<and> hello_ok (version f) f"
proof -
  from Parser_next_version [OF assms(1)] assms(3)
  have clean: "error p = ''''" and q: "expected_version q = version f" by auto
  from assms(1) clean show ?thesis
  proof (cases rule: Parser_next_cases)
    case (Locked w)
    then have w: "w \<in> {kVersion, kVersionV4}" using assms(2) by (auto simp: assms(3))
    from Locked assms(3) next_locked_decode [of "pending p" "p\<lparr>expected_version := w\<rparr>"]
    obtain n where got: "decode_frame w (pending p) = Got f n"
      and rest: "q = consume_frame n (p\<lparr>expected_version := w\<rparr>)"
      by (auto split: decoded.splits prod.splits)
    from rest have "pending p = take n (pending p) @ pending q" by simp
    with decode_frame_sound [OF got] w q show ?thesis by (auto simp: encode_versioned_eq)
  qed (use assms(3) in simp_all)
qed

theorem frame_is_canonical_witness:
  "\<exists>w p q. Parser_next p = (kParseFrame \<lparr>type = kCancel, flags = 0, request_id = 1, version = kVersion, payload = []\<rparr>, q)
     \<and> pending p = w @ pending q \<and> length w = kHeaderSize"
proof -
  let ?f = "\<lparr>type = kCancel, flags = 0, request_id = 1, version = kVersion, payload = []\<rparr>"
  define p where "p = (Parser kVersion)\<lparr>buffer := frame_header kVersion ?f\<rparr>"
  have f: "encodable kVersion ?f" "hello_ok kVersion ?f"
    by (simp_all add: encodable_def hello_ok_def valid_type_versioned_def valid_type_def
        valid_flags_versioned_def valid_flags_def)
  have p: "speaks kVersion p" "pending p = frame_header kVersion ?f"
    by (simp_all add: p_def Parser_def speaks_def parser_ok_def pending_def)
  from Parser_next_decode [OF p(1)] decode_frame_encoded [OF f, of "[]"] p(2)
  obtain q where q: "Parser_next p = (kParseFrame ?f, q)" by auto
  from frame_is_canonical [OF _ _ q] p(1) obtain w where
    "encode_versioned kVersion ?f = Some w" "pending p = w @ pending q" by (auto simp: speaks_def)
  moreover from this(1) f have "length w = kHeaderSize" by (auto simp: encode_versioned_eq)
  ultimately show ?thesis using q by blast
qed

text \<open>C32: For any sequence of \<open>append\<close> and \<open>next\<close> calls on a fresh parser: the read position
  never passes the end of the buffer and the buffer never holds more than 4 MiB; a version that
  is pinned stays pinned; and an error is final, every later call reporting failure and leaving
  the parser as it is.\<close>

theorem parser_calls_bounded_and_final:
  "let p = parser_run ops (Parser v) in
   offset p \<le> length (buffer p) \<and> length (buffer p) \<le> kMaxBufferedBytes
   \<and> (expected_version p \<noteq> kVersionNegotiate \<longrightarrow> expected_version (parser_run later p) = expected_version p)
   \<and> (error p \<noteq> '''' \<longrightarrow>
        parser_run later p = p \<and> Parser_append p d = (False, p) \<and> Parser_next p = (kParseError, p))"
proof -
  have "parser_ok (parser_run ops (Parser v))" by (simp add: keeps)
  then show ?thesis
    by (simp add: Let_def parser_run_version parser_run_failed)
      (simp add: parser_ok_def Parser_append_def Parser_next_def)
qed

theorem parser_calls_bounded_and_final_witness:
  "let p = parser_run [Append (Bytes (replicate 24 0)), Next] (Parser kVersion) in
   length (buffer p) \<le> kMaxBufferedBytes \<and> expected_version (parser_run [Next] p) = kVersion
   \<and> Parser_append p (Bytes [1]) = (False, p)"
proof -
  let ?ops = "[Append (Bytes (replicate 24 0)), Next]"
  have "expected_version (parser_run ?ops (Parser kVersion)) = kVersion"
    "error (parser_run ?ops (Parser kVersion)) = ''invalid frame magic''" 
    by (simp_all add: parser_run_def Parser_def Parser_append_def Parser_next_def load_u32_def Let_def sz_sub_def)
  then show ?thesis
    using parser_calls_bounded_and_final [of ?ops kVersion "[Next]" "Bytes [1]"] by (simp add: Let_def)
qed

end
