(* ===== verification/Outbound_Buffer.thy ===== *)
theory Outbound_Buffer
  imports Protocol
begin

text \<open>
  The worker's outbound buffer (\<open>src/outbound_buffer.h\<close>) with its production writer, the IPC
  socket of \<open>src/worker_runtime.cc\<close>. Frames are appended whole and written to the socket in
  pieces of any size; the sent prefix is dropped lazily. \<open>unsent\<close> is the logical queue; the
  contract of a writer is the locale \<open>byte_writer\<close>, and the lemmas proved in it say that the
  bytes handed to the writer followed by the unsent ones are what was appended, in order.
\<close>

abbreviation (input) kCompactThreshold :: nat where "kCompactThreshold \<equiv> 65536"

record outbound =
  storage :: "byte list"
  write_offset :: nat
  frame_end :: nat
  frame_start :: nat

definition OutboundBuffer :: outbound where
  "OutboundBuffer = \<lparr>storage = [], write_offset = 0, frame_end = 0, frame_start = 0\<rparr>"

definition compact_if_needed :: "outbound \<Rightarrow> outbound" where
  "compact_if_needed b =
     (if frame_start b = 0 then b
      else if frame_start b \<ge> kCompactThreshold
      then b\<lparr>storage := drop (frame_start b) (storage b),
             write_offset := sz_sub (write_offset b) (frame_start b),
             frame_end := sz_sub (frame_end b) (frame_start b),
             frame_start := 0\<rparr>
      else b)"

definition OutboundBuffer_append ::
  "u16 \<Rightarrow> u32 \<Rightarrow> u64 \<Rightarrow> span \<Rightarrow> u16 \<Rightarrow> outbound \<Rightarrow> bool \<times> outbound" where
  "OutboundBuffer_append t fl rid data v b =
     (if span_size data > kMaxPayloadSize then (False, b)
      else let b = compact_if_needed b in
      case append_encoded_versioned v t fl rid data (storage b) of
        None \<Rightarrow> (False, b)
      | Some s \<Rightarrow> (True, b\<lparr>storage := s\<rparr>))"

definition next_frame_end :: "byte list \<Rightarrow> nat \<Rightarrow> nat" where
  "next_frame_end stored start =
     (if start + kHeaderSize > length stored then start
      else let header = drop start stored;
               payload_size = (ucast (header ! 20) OR push_bit 8 (ucast (header ! 21))
                 OR push_bit 16 (ucast (header ! 22)) OR push_bit 24 (ucast (header ! 23)) :: u32);
               frame_size = kHeaderSize + unat payload_size in
      if start + frame_size > length stored then start else start + frame_size)"

text \<open>The head of the loop in \<open>flush\<close>: at a frame boundary, find the next frame.\<close>

definition enter_frame :: "outbound \<Rightarrow> outbound" where
  "enter_frame b =
     (if write_offset b \<ge> frame_end b
      then b\<lparr>frame_start := write_offset b, frame_end := next_frame_end (storage b) (write_offset b)\<rparr>
      else b)"

lemma enter_frame_fields [simp]:
  "storage (enter_frame b) = storage b" "write_offset (enter_frame b) = write_offset b"
  by (simp_all add: enter_frame_def)

text \<open>The writer returns the count of bytes written, 0 to stall or a negative count for a failure.\<close>

function flush_loop :: "(byte list \<Rightarrow> 'o \<Rightarrow> int \<times> 'o) \<Rightarrow> outbound \<Rightarrow> 'o \<Rightarrow> bool \<times> outbound \<times> 'o" where
  "flush_loop writer b opaque =
     (if write_offset b < length (storage b)
      then let b' = enter_frame b in
        if frame_end b' \<le> write_offset b' then (True, b', opaque)
        else let remaining = frame_end b' - write_offset b' in
        case writer (take remaining (drop (write_offset b') (storage b'))) opaque of
          (count, opaque') \<Rightarrow>
            if count > 0 then flush_loop writer (b'\<lparr>write_offset := write_offset b' + nat count\<rparr>) opaque'
            else if count = 0 then (True, b', opaque')
            else (False, b', opaque')
      else (True, b, opaque))"
  by pat_completeness auto
termination
  by (relation "measure (\<lambda>(_, b, _). length (storage b) - write_offset b)") auto

declare flush_loop.simps [simp del]

definition OutboundBuffer_flush ::
  "(byte list \<Rightarrow> 'o \<Rightarrow> int \<times> 'o) \<Rightarrow> outbound \<Rightarrow> 'o \<Rightarrow> bool \<times> outbound \<times> 'o" where
  "OutboundBuffer_flush writer b opaque =
     (case flush_loop writer b opaque of
        (False, b, opaque) \<Rightarrow> (False, b, opaque)
      | (True, b, opaque) \<Rightarrow>
          if write_offset b = length (storage b) then (True, OutboundBuffer, opaque)
          else (True, b, opaque))"

definition logical_size :: "outbound \<Rightarrow> nat" where
  "logical_size b = sz_sub (length (storage b)) (write_offset b)"

definition storage_size :: "outbound \<Rightarrow> nat" where
  "storage_size b = length (storage b)"

definition drained :: "outbound \<Rightarrow> bool" where
  "drained b \<longleftrightarrow> write_offset b = length (storage b)"

section \<open>The production writer\<close>

text \<open>
  The socket, as what the kernel will answer to the next \<open>write\<close> calls and what it has taken so
  far; when the answers are used up it would block. \<open>Wrote n\<close> takes at most \<open>n\<close> bytes.
\<close>

datatype write_result = Wrote nat | Eintr | Eagain | Failed

record socket =
  answers :: "write_result list"
  taken :: "byte list"

fun write_socket :: "write_result list \<Rightarrow> byte list \<Rightarrow> byte list \<Rightarrow> int \<times> socket" where
  "write_socket [] tk data = (0, \<lparr>answers = [], taken = tk\<rparr>)"
| "write_socket (Wrote n # as) tk data =
     (int (min n (length data)), \<lparr>answers = as, taken = tk @ take n data\<rparr>)"
| "write_socket (Eintr # as) tk data = write_socket as tk data"
| "write_socket (Eagain # as) tk data = (0, \<lparr>answers = as, taken = tk\<rparr>)"
| "write_socket (Failed # as) tk data = (-1, \<lparr>answers = as, taken = tk\<rparr>)"

definition socket_writer :: "byte list \<Rightarrow> socket \<Rightarrow> int \<times> socket" where
  "socket_writer data s = write_socket (answers s) (taken s) data"

section \<open>Invariant\<close>

definition unsent :: "outbound \<Rightarrow> byte list" where
  "unsent b = drop (write_offset b) (storage b)"

text \<open>What is stored from the current frame on is a sequence of whole frames.\<close>

definition frame_size_at :: "byte list \<Rightarrow> nat" where
  "frame_size_at bs = kHeaderSize + unat (load_u32 (drop 20 bs))"

definition one_frame :: "byte list \<Rightarrow> bool" where
  "one_frame w \<longleftrightarrow> kHeaderSize \<le> length w \<and> frame_size_at w = length w \<and> length w \<le> kHeaderSize + kMaxPayloadSize"

definition whole_frames :: "byte list \<Rightarrow> bool" where
  "whole_frames bs \<longleftrightarrow> (\<exists>ws. bs = concat ws \<and> (\<forall>w \<in> set ws. one_frame w))"

definition outbound_ok :: "outbound \<Rightarrow> bool" where
  "outbound_ok b \<longleftrightarrow> frame_start b \<le> write_offset b \<and> write_offset b \<le> frame_end b
     \<and> frame_end b \<le> length (storage b) \<and> frame_end b - frame_start b \<le> kHeaderSize + kMaxPayloadSize
     \<and> whole_frames (drop (frame_end b) (storage b))"

lemma whole_frames_Nil [simp]: "whole_frames []"
  unfolding whole_frames_def by (intro exI [of _ "[]"]) simp

lemma whole_frames_append: "whole_frames a \<Longrightarrow> one_frame w \<Longrightarrow> whole_frames (a @ w)"
  unfolding whole_frames_def
proof (elim exE conjE)
  fix ws assume "a = concat ws" "\<forall>w \<in> set ws. one_frame w" "one_frame w"
  then show "\<exists>ws. a @ w = concat ws \<and> (\<forall>w \<in> set ws. one_frame w)"
    by (intro exI [of _ "ws @ [w]"]) auto
qed

lemma whole_frames_first:
  assumes "whole_frames bs" and "bs \<noteq> []"
  obtains w rest where "bs = w @ rest" "one_frame w" "whole_frames rest"
proof -
  from assms(1) obtain ws where ws: "bs = concat ws" "\<forall>w \<in> set ws. one_frame w"
    unfolding whole_frames_def by blast
  with assms(2) obtain w ws' where "ws = w # ws'" by (cases ws) auto
  with ws that [of w "concat ws'"] show thesis by (auto simp: whole_frames_def)
qed

lemma one_frame_pos: "one_frame w \<Longrightarrow> 0 < length w"
  by (auto simp: one_frame_def)

lemma frame_size_at_append: "kHeaderSize \<le> length w \<Longrightarrow> frame_size_at (w @ rest) = frame_size_at w"
  by (simp add: frame_size_at_def load_u32_def nth_append)

lemma next_frame_end_eq:
  "next_frame_end s n = (if n + kHeaderSize \<le> length s \<and> n + frame_size_at (drop n s) \<le> length s
     then n + frame_size_at (drop n s) else n)"
  by (auto simp: next_frame_end_def frame_size_at_def load_u32_def Let_def add.commute not_le)

lemma outbound_ok_new [keeps]: "outbound_ok OutboundBuffer"
  by (simp add: outbound_ok_def OutboundBuffer_def)

lemma new_fields [simp]: "unsent OutboundBuffer = []" "storage OutboundBuffer = []"
  by (simp_all add: unsent_def OutboundBuffer_def)

lemma compact_unsent [simp]: "outbound_ok b \<Longrightarrow> unsent (compact_if_needed b) = unsent b"
  by (auto simp: outbound_ok_def unsent_def compact_if_needed_def)

lemma compact_ok [keeps]: "outbound_ok b \<Longrightarrow> outbound_ok (compact_if_needed b)"
  by (auto simp: outbound_ok_def compact_if_needed_def)

lemma enter_frame_ok:
  assumes ok: "outbound_ok b" and "write_offset b < length (storage b)"
  shows "outbound_ok (enter_frame b)" and "write_offset b < frame_end (enter_frame b)"
proof -
  have "outbound_ok (enter_frame b) \<and> write_offset b < frame_end (enter_frame b)"
  proof (cases "frame_end b \<le> write_offset b")
    case True
    with ok have at_end: "write_offset b = frame_end b" by (simp add: outbound_ok_def)
    from ok have "whole_frames (drop (frame_end b) (storage b))" by (simp add: outbound_ok_def)
    moreover have "drop (frame_end b) (storage b) \<noteq> []" using assms(2) at_end by simp
    ultimately obtain w rest where
      w: "drop (frame_end b) (storage b) = w @ rest" "one_frame w" "whole_frames rest"
      by (rule whole_frames_first)
    have len: "length (storage b) = frame_end b + length w + length rest"
      using arg_cong [OF w(1), of length] assms(2) at_end by simp
    moreover have "drop (frame_end b + length w) (storage b) = rest"
      using arg_cong [OF w(1), of "drop (length w)"] by (simp add: add.commute)
    moreover have "next_frame_end (storage b) (write_offset b) = frame_end b + length w"
      using w(1,2) len by (simp add: next_frame_end_eq at_end frame_size_at_append one_frame_def)
    ultimately show ?thesis
      using True w at_end one_frame_pos [OF w(2)] by (simp add: enter_frame_def outbound_ok_def one_frame_def)
  qed (use ok in \<open>simp add: enter_frame_def outbound_ok_def\<close>)
  then show "outbound_ok (enter_frame b)" "write_offset b < frame_end (enter_frame b)" by simp_all
qed

lemma one_frame_encoded: "encodable v f \<Longrightarrow> one_frame (frame_header v f @ payload f)"
  using frame_header_loads(6) [of v f "payload f"]
  by (simp add: one_frame_def frame_size_at_def encodable_def payload_size_read)

definition framed :: "u16 \<Rightarrow> u16 \<Rightarrow> u32 \<Rightarrow> u64 \<Rightarrow> byte list \<Rightarrow> frame" where
  "framed v t fl rid d = \<lparr>type = t, flags = fl, request_id = rid, version = v, payload = d\<rparr>"

lemma append_behaviour:
  assumes "outbound_ok b" and "length (storage b) + kHeaderSize + length d \<le> size_max"
  shows "case OutboundBuffer_append t fl rid (Bytes d) v b of (ok, b') \<Rightarrow>
    outbound_ok b' \<and> ok = encodable v (framed v t fl rid d)
    \<and> unsent b' = unsent b @ (if ok then the (encode_versioned v (framed v t fl rid d)) else [])"
proof -
  let ?f = "framed v t fl rid d" and ?c = "compact_if_needed b"
  have c: "outbound_ok ?c" "unsent ?c = unsent b" using assms(1) by (simp_all add: keeps)
  have len: "length (storage ?c) \<le> size_max - kHeaderSize - length d"
    using assms(2) by (auto simp: compact_if_needed_def)
  show ?thesis
  proof (cases "encodable v ?f")
    case True
    let ?w = "frame_header v ?f @ payload ?f"
    have ap: "append_encoded_versioned v t fl rid (Bytes d) (storage ?c) = Some (storage ?c @ ?w)"
      using True len by (simp add: append_encoded_versioned_eq framed_def)
    from c(1) have "outbound_ok (?c\<lparr>storage := storage ?c @ ?w\<rparr>)"
      using whole_frames_append [OF _ one_frame_encoded [OF True]] by (simp add: outbound_ok_def)
    moreover have "unsent (?c\<lparr>storage := storage ?c @ ?w\<rparr>) = unsent ?c @ ?w"
      using c(1) by (simp add: unsent_def outbound_ok_def)
    ultimately show ?thesis
      using True ap c(2) unfolding OutboundBuffer_append_def
      by (simp add: encodable_def framed_def encode_versioned_eq Let_def)
  next
    case False
    then show ?thesis using assms(1) c
      by (simp add: OutboundBuffer_append_def append_encoded_versioned_eq framed_def)
  qed
qed

section \<open>Flushing through a writer\<close>

text \<open>The writer contract: a positive count is what was written, at most what was given.\<close>

locale byte_writer =
  fixes writer :: "byte list \<Rightarrow> 'o \<Rightarrow> int \<times> 'o"
    and sent :: "'o \<Rightarrow> byte list"
  assumes write_count: "writer data opaque = (n, opaque') \<Longrightarrow> n \<le> int (length data)"
    and write_sent: "writer data opaque = (n, opaque') \<Longrightarrow> sent opaque' = sent opaque @ take (nat n) data"
begin

lemma written:
  assumes ok: "outbound_ok b" and "write_offset b < frame_end b"
    and w: "writer (take (frame_end b - write_offset b) (drop (write_offset b) (storage b))) opaque = (n, opaque')"
  shows "outbound_ok (b\<lparr>write_offset := write_offset b + nat n\<rparr>)"
    and "sent opaque' @ unsent (b\<lparr>write_offset := write_offset b + nat n\<rparr>) = sent opaque @ unsent b"
proof -
  have "nat n \<le> frame_end b - write_offset b"
    using write_count [OF w] ok by (auto simp: outbound_ok_def)
  moreover from this have "take (nat n) (take (frame_end b - write_offset b) (drop (write_offset b) (storage b)))
      = take (nat n) (unsent b)" by (simp add: unsent_def min_def)
  moreover have "unsent (b\<lparr>write_offset := write_offset b + nat n\<rparr>) = drop (nat n) (unsent b)"
    by (simp add: unsent_def add.commute)
  ultimately show "outbound_ok (b\<lparr>write_offset := write_offset b + nat n\<rparr>)"
    and "sent opaque' @ unsent (b\<lparr>write_offset := write_offset b + nat n\<rparr>) = sent opaque @ unsent b"
    using ok assms(2) write_sent [OF w] by (auto simp: outbound_ok_def)
qed

lemma flush_loop_sent:
  assumes "outbound_ok b" and "flush_loop writer b opaque = (ok, b', opaque')"
  shows "outbound_ok b' \<and> sent opaque' @ unsent b' = sent opaque @ unsent b"
  using assms
proof (induction "length (storage b) - write_offset b" arbitrary: b opaque rule: less_induct)
  case less
  show ?case
  proof (cases "write_offset b < length (storage b)")
    case True
    let ?e = "enter_frame b"
    have e: "outbound_ok ?e" "write_offset ?e < frame_end ?e" "unsent ?e = unsent b"
      using enter_frame_ok [OF less.prems(1) True] by (simp_all add: unsent_def)
    obtain n o1 where
      w: "writer (take (frame_end ?e - write_offset ?e) (drop (write_offset ?e) (storage ?e))) opaque = (n, o1)"
      by fastforce
    let ?b1 = "?e\<lparr>write_offset := write_offset ?e + nat n\<rparr>"
    have b1: "outbound_ok ?b1" "sent o1 @ unsent ?b1 = sent opaque @ unsent b"
      using written [OF e(1,2) w] e(3) by simp_all
    show ?thesis
    proof (cases "0 < n")
      case True
      then have "flush_loop writer ?b1 o1 = (ok, b', opaque')"
        using less.prems(2) w e(2) \<open>write_offset b < _\<close>
        by (subst (asm) flush_loop.simps) (simp add: Let_def)
      moreover have "length (storage ?b1) - write_offset ?b1 < length (storage b) - write_offset b"
        using True \<open>write_offset b < _\<close> by simp
      ultimately show ?thesis using less.hyps [OF _ b1(1)] b1(2) by metis
    next
      case False
      then have "?b1 = ?e" by simp
      moreover have "b' = ?e" "opaque' = o1"
        using False less.prems(2) w e(2) \<open>write_offset b < _\<close>
        by (subst (asm) flush_loop.simps, simp add: Let_def split: if_splits)+
      ultimately show ?thesis using b1 by simp
    qed
  next
    case False
    then show ?thesis using less.prems by (subst (asm) flush_loop.simps) simp
  qed
qed

lemma flush_sent:
  assumes "outbound_ok b" and "OutboundBuffer_flush writer b opaque = (ok, b', opaque')"
  shows "outbound_ok b' \<and> sent opaque' @ unsent b' = sent opaque @ unsent b"
proof -
  obtain ok1 b1 o1 where l: "flush_loop writer b opaque = (ok1, b1, o1)" by (metis prod_cases3)
  from flush_loop_sent [OF assms(1) l] assms(2) l show ?thesis
    by (auto simp: OutboundBuffer_flush_def unsent_def OutboundBuffer_def keeps
        outbound_ok_new [unfolded OutboundBuffer_def] split: bool.splits if_splits)
qed

text \<open>The loop stops at the end of the buffer unless the writer stalls or fails.\<close>

lemma flush_loop_drains:
  assumes "outbound_ok b"
    and "\<And>data opaque. data \<noteq> [] \<Longrightarrow> 0 < fst (writer data opaque)"
  shows "case flush_loop writer b opaque of (ok, b', opaque') \<Rightarrow> ok \<and> write_offset b' = length (storage b')"
  using assms(1)
proof (induction "length (storage b) - write_offset b" arbitrary: b opaque rule: less_induct)
  case less
  show ?case
  proof (cases "write_offset b < length (storage b)")
    case True
    let ?e = "enter_frame b"
    let ?data = "take (frame_end ?e - write_offset ?e) (drop (write_offset ?e) (storage ?e))"
    have e: "outbound_ok ?e" "write_offset ?e < frame_end ?e"
      using enter_frame_ok [OF less.prems True] by simp_all
    obtain n o1 where w: "writer ?data opaque = (n, o1)" by fastforce
    have n: "0 < n" using assms(2) [of ?data opaque] w e(2) True by simp
    let ?b1 = "?e\<lparr>write_offset := write_offset ?e + nat n\<rparr>"
    have "flush_loop writer b opaque = flush_loop writer ?b1 o1"
      using w e(2) n True by (subst flush_loop.simps) (simp add: Let_def)
    moreover have "length (storage ?b1) - write_offset ?b1 < length (storage b) - write_offset b"
      using n True by simp
    ultimately show ?thesis
      using less.hyps [of ?b1 o1] written(1) [OF e w] by simp
  next
    case False
    then show ?thesis using less.prems by (subst flush_loop.simps) (simp add: outbound_ok_def)
  qed
qed

lemma flush_drains:
  assumes "outbound_ok b"
    and "\<And>data opaque. data \<noteq> [] \<Longrightarrow> 0 < fst (writer data opaque)"
  shows "\<exists>opaque'. OutboundBuffer_flush writer b opaque = (True, OutboundBuffer, opaque')
    \<and> sent opaque' = sent opaque @ unsent b"
proof -
  obtain ok1 b1 o1 where l: "flush_loop writer b opaque = (ok1, b1, o1)" by (metis prod_cases3)
  with flush_loop_drains [OF assms, where opaque = opaque] flush_loop_sent [OF assms(1) l] show ?thesis
    by (simp add: OutboundBuffer_flush_def unsent_def)
qed

end

interpretation ipc: byte_writer socket_writer taken
proof
  have "write_socket as tk data = (n, s) \<Longrightarrow> n \<le> int (length data) \<and> taken s = tk @ take (nat n) data"
    for as tk data n s
    by (induction as tk data rule: write_socket.induct) (auto simp: min_def)
  then show "socket_writer data opaque = (n, opaque') \<Longrightarrow> n \<le> int (length data)"
    and "socket_writer data opaque = (n, opaque') \<Longrightarrow> taken opaque' = taken opaque @ take (nat n) data"
    for data opaque n opaque' unfolding socket_writer_def by blast+
qed

section \<open>Any sequence of calls\<close>

text \<open>
  The queueing calls of the worker: \<open>queue_output_bytes\<close> checks the capacity of the wire queue
  first, and \<open>flush_output\<close> runs the buffer over the socket.
\<close>

definition has_output_capacity :: "nat \<Rightarrow> outbound \<Rightarrow> nat \<Rightarrow> bool" where
  "has_output_capacity limit b additional \<longleftrightarrow>
     (let queued = logical_size b in queued \<le> limit \<and> additional \<le> sz_sub limit queued)"

definition wire_payload_capacity :: "nat \<Rightarrow> outbound \<Rightarrow> nat" where
  "wire_payload_capacity limit b =
     (let queued = logical_size b in
      if queued > limit \<or> sz_sub limit queued < kHeaderSize then 0
      else sz_sub (sz_sub limit queued) kHeaderSize)"

definition error_payload_capacity :: "nat \<Rightarrow> nat" where
  "error_payload_capacity limit =
     min kMaxPayloadSize (if limit > kHeaderSize then sz_sub limit kHeaderSize else 0)"

definition queue_output_bytes ::
  "nat \<Rightarrow> u16 \<Rightarrow> u32 \<Rightarrow> u64 \<Rightarrow> span \<Rightarrow> u16 \<Rightarrow> outbound \<Rightarrow> bool \<times> outbound" where
  "queue_output_bytes limit t fl rid data v b =
     (if span_size data > kMaxPayloadSize then (False, b)
      else if \<not> has_output_capacity limit b (kHeaderSize + span_size data) then (False, b)
      else OutboundBuffer_append t fl rid data v b)"

datatype output_op = Queue u16 u32 u64 "byte list" u16 | Flush

fun output_step :: "nat \<Rightarrow> output_op \<Rightarrow> outbound \<times> socket \<times> frame list \<Rightarrow> outbound \<times> socket \<times> frame list" where
  "output_step limit (Queue t fl rid d v) (b, s, fs) =
     (case queue_output_bytes limit t fl rid (Bytes d) v b of
        (ok, b') \<Rightarrow> (b', s, if ok then fs @ [framed v t fl rid d] else fs))"
| "output_step limit Flush (b, s, fs) =
     (case OutboundBuffer_flush socket_writer b s of (_, b', s') \<Rightarrow> (b', s', fs))"

definition output_run :: "nat \<Rightarrow> output_op list \<Rightarrow> outbound \<times> socket \<times> frame list \<Rightarrow> outbound \<times> socket \<times> frame list" where
  "output_run limit ops st = fold (output_step limit) ops st"

text \<open>The bytes of the accepted frames, each encoded at the version it was queued with.\<close>

definition wire_bytes :: "frame list \<Rightarrow> byte list" where
  "wire_bytes fs = concat (map (\<lambda>f. the (encode_versioned (version f) f)) fs)"

lemma flush_loop_storage:
  "flush_loop writer b opaque = (ok, b', opaque') \<Longrightarrow> storage b' = storage b \<and> write_offset b \<le> write_offset b'"
proof (induction "length (storage b) - write_offset b" arbitrary: b opaque rule: less_induct)
  case less
  show ?case
  proof (cases "write_offset b < length (storage b) \<and> write_offset b < frame_end (enter_frame b)")
    case True
    let ?e = "enter_frame b"
    obtain n o1 where
      w: "writer (take (frame_end ?e - write_offset ?e) (drop (write_offset ?e) (storage ?e))) opaque = (n, o1)"
      by fastforce
    have "flush_loop writer b opaque =
      (if n > 0 then flush_loop writer (?e\<lparr>write_offset := write_offset ?e + nat n\<rparr>) o1
       else if n = 0 then (True, ?e, o1) else (False, ?e, o1))"
      using w True by (subst flush_loop.simps) (simp add: Let_def)
    with less.prems less.hyps [of "?e\<lparr>write_offset := write_offset ?e + nat n\<rparr>" o1] True show ?thesis
      by (auto split: if_splits dest!: meta_mp)
  next
    case False
    with less.prems show ?thesis by (subst (asm) flush_loop.simps) (auto simp: Let_def split: if_splits)
  qed
qed

lemma flush_storage:
  "OutboundBuffer_flush writer b opaque = (ok, b', opaque') \<Longrightarrow>
     length (storage b') \<le> length (storage b) \<and> length (unsent b') \<le> length (unsent b)"
  using flush_loop_storage [of writer b opaque]
  by (auto simp: OutboundBuffer_flush_def OutboundBuffer_def unsent_def split: bool.splits prod.splits if_splits)

text \<open>The invariant of a run, and each call keeps it.\<close>

definition physical_limit :: "nat \<Rightarrow> nat" where
  "physical_limit limit = (kCompactThreshold - 1) + (kHeaderSize + kMaxPayloadSize) + limit"

fun output_inv :: "nat \<Rightarrow> outbound \<times> socket \<times> frame list \<Rightarrow> bool" where
  "output_inv limit (b, s, fs) \<longleftrightarrow> outbound_ok b \<and> length (unsent b) \<le> limit
     \<and> length (storage b) \<le> physical_limit limit \<and> (\<forall>f \<in> set fs. encodable (version f) f)
     \<and> taken s @ unsent b = wire_bytes fs"

lemma logical_size_unsent: "outbound_ok b \<Longrightarrow> logical_size b = length (unsent b)"
  by (simp add: logical_size_def unsent_def outbound_ok_def)

lemma compact_storage:
  "outbound_ok b \<Longrightarrow> length (storage (compact_if_needed b))
     \<le> (kCompactThreshold - 1) + (kHeaderSize + kMaxPayloadSize) + length (unsent b)"
  by (auto simp: compact_if_needed_def outbound_ok_def unsent_def)

lemma append_storage:
  assumes "OutboundBuffer_append t fl rid (Bytes d) v b = (ok, b')"
  shows "length (storage b') = length (storage (compact_if_needed b)) + (if ok then kHeaderSize + length d else 0)
    \<or> b' = b"
  using assms by (auto simp: OutboundBuffer_append_def append_encoded_versioned_eq Let_def split: option.splits if_splits)

lemma wire_bytes_snoc [simp]:
  "wire_bytes (fs @ [f]) = wire_bytes fs @ the (encode_versioned (version f) f)"
  by (simp add: wire_bytes_def)

lemma queue_keeps [keeps]:
  assumes inv: "output_inv limit (b, s, fs)" and "limit \<le> size_max div 2"
  shows "output_inv limit (output_step limit (Queue t fl rid d v) (b, s, fs))"
proof (cases "length d \<le> kMaxPayloadSize \<and> has_output_capacity limit b (kHeaderSize + length d)")
  case True
  from inv have b: "outbound_ok b" "length (unsent b) \<le> limit" "length (storage b) \<le> physical_limit limit"
    by simp_all
  obtain ok b' where ap: "OutboundBuffer_append t fl rid (Bytes d) v b = (ok, b')" by fastforce
  have room: "length (unsent b) + (kHeaderSize + length d) \<le> limit"
    using True b(1,2) by (simp add: has_output_capacity_def logical_size_unsent) linarith
  have "length (storage b) + kHeaderSize + length d \<le> size_max"
    using b(3) True assms(2) by (simp add: physical_limit_def size_max_def)
  from append_behaviour [OF b(1) this, where t = t and fl = fl and rid = rid and v = v] ap
  have b': "outbound_ok b'" "ok = encodable v (framed v t fl rid d)"
    "unsent b' = unsent b @ (if ok then the (encode_versioned v (framed v t fl rid d)) else [])" by simp_all
  have "length (storage b') \<le> physical_limit limit"
    using append_storage [OF ap] compact_storage [OF b(1)] b(3) room by (auto simp: physical_limit_def)
  moreover have "length (unsent b') \<le> limit"
    using b'(2,3) room b(2) by (auto simp: encode_versioned_eq framed_def)
  ultimately show ?thesis
    using True ap b' inv by (auto simp: queue_output_bytes_def framed_def)
qed (use inv in \<open>auto simp: queue_output_bytes_def\<close>)

lemma flush_keeps [keeps]:
  assumes inv: "output_inv limit (b, s, fs)"
  shows "output_inv limit (output_step limit Flush (b, s, fs))"
proof -
  obtain ok b' s' where fl: "OutboundBuffer_flush socket_writer b s = (ok, b', s')" by (metis prod_cases3)
  from inv have ok: "outbound_ok b" by simp
  from ipc.flush_sent [OF ok fl] inv fl flush_storage [OF fl] show ?thesis by simp
qed

lemma output_run_keeps [keeps]:
  assumes "output_inv limit st" and "limit \<le> size_max div 2"
  shows "output_inv limit (output_run limit ops st)"
  using assms(1) unfolding output_run_def
proof (induction ops arbitrary: st)
  case (Cons op ops)
  obtain b s fs where "st = (b, s, fs)" by (metis prod_cases3)
  with Cons queue_keeps [OF _ assms(2)] flush_keeps show ?case by (cases op) (auto simp del: output_step.simps output_inv.simps)
qed simp

section \<open>Properties\<close>

text \<open>C4: For any sequence of queueing and flushing calls over any answers of the socket (short
  writes, interruptions, stalls and failures included), what the socket has taken followed by what
  is still unsent is exactly the encodings of the accepted frames in the order they were queued,
  the unsent bytes never exceed the configured limit, and the buffer never holds more than the
  limit plus one frame plus the compaction threshold.\<close>

theorem output_is_fifo_and_bounded:
  assumes "limit \<le> size_max div 2"
    and "output_run limit ops (OutboundBuffer, \<lparr>answers = as, taken = []\<rparr>, []) = (b, s, fs)"
  shows "taken s @ unsent b = wire_bytes fs \<and> (\<forall>f \<in> set fs. encodable (version f) f)
    \<and> logical_size b \<le> limit
    \<and> storage_size b \<le> limit + (kHeaderSize + kMaxPayloadSize) + (kCompactThreshold - 1)"
proof -
  have "output_inv limit (OutboundBuffer, \<lparr>answers = as, taken = []\<rparr>, [])"
    by (simp add: keeps wire_bytes_def physical_limit_def)
  from output_run_keeps [OF this assms(1), of ops] assms(2) show ?thesis
    by (simp add: logical_size_unsent storage_size_def physical_limit_def)
qed

theorem output_is_fifo_and_bounded_witness:
  "case output_run 100 [Queue kLog 0 1 [5] kVersion, Flush, Queue kCancel 0 1 [] kVersion, Flush]
     (OutboundBuffer, \<lparr>answers = [Wrote 10, Eintr, Eagain, Wrote 99], taken = []\<rparr>, []) of
   (b, s, fs) \<Rightarrow> taken s @ unsent b = wire_bytes fs \<and> logical_size b \<le> 100"
  using output_is_fifo_and_bounded [of 100
      "[Queue kLog 0 1 [5] kVersion, Flush, Queue kCancel 0 1 [] kVersion, Flush]"
      "[Wrote 10, Eintr, Eagain, Wrote 99]"]
  by (auto simp: size_max_def split: prod.splits)



end
