(* ===== verification/Capacity_Ledger.thy ===== *)
theory Capacity_Ledger
  imports Capsid_Prelude
begin

text \<open>
  The weighted capacity ledger (\<open>src/host/worker_capacity_ledger.cc\<close>) that counts the worker
  processes of every application as serving (steady) or overlapping (surge), and the calls the
  coordinator makes on it (\<open>src/host/managed_host.cc\<close>). The counters are 64-bit words and wrap.
\<close>

record entry =
  steady :: u64
  surge :: u64

record ledger =
  entries :: "string \<rightharpoonup> entry"
  steady_used :: u64
  surge_used :: u64
  workers_total :: u64
  surge_workers :: u64

definition WorkerCapacityLedger :: "u64 \<Rightarrow> u64 \<Rightarrow> ledger" where
  "WorkerCapacityLedger tot activation_surge =
     \<lparr>entries = Map.empty, steady_used = 0, surge_used = 0, workers_total = tot, surge_workers = activation_surge\<rparr>"

text \<open>\<open>entries_[application]\<close>: the entry, created with both counts zero when it is missing.\<close>

definition entry_of :: "ledger \<Rightarrow> string \<Rightarrow> entry" where
  "entry_of l app = (case entries l app of Some e \<Rightarrow> e | None \<Rightarrow> \<lparr>steady = 0, surge = 0\<rparr>)"

definition steady_of :: "ledger \<Rightarrow> string \<Rightarrow> u64" where
  "steady_of l app = (case entries l app of None \<Rightarrow> 0 | Some e \<Rightarrow> steady e)"

definition surge_of :: "ledger \<Rightarrow> string \<Rightarrow> u64" where
  "surge_of l app = (case entries l app of None \<Rightarrow> 0 | Some e \<Rightarrow> surge e)"

definition holds :: "ledger \<Rightarrow> string \<Rightarrow> bool" where
  "holds l app = (case entries l app of None \<Rightarrow> False | Some e \<Rightarrow> steady e > 0)"

definition reserve_fresh :: "string \<Rightarrow> u64 \<Rightarrow> ledger \<Rightarrow> bool \<times> ledger" where
  "reserve_fresh app pool_size l =
     (if steady_used l + pool_size > workers_total l then (False, l)
      else let e = entry_of l app in
        (True, l\<lparr>entries := (entries l)(app \<mapsto> e\<lparr>steady := steady e + pool_size\<rparr>),
                 steady_used := steady_used l + pool_size\<rparr>))"

definition reserve_replace :: "string \<Rightarrow> u64 \<Rightarrow> ledger \<Rightarrow> bool \<times> ledger" where
  "reserve_replace app new_pool_size l =
     (case entries l app of
        None \<Rightarrow> (False, l)
      | Some e \<Rightarrow>
          if steady e = 0 then (False, l)
          else let old_pool_size = steady e in
          if steady_used l - old_pool_size + new_pool_size > workers_total l then (False, l)
          else let overlap_peak = max new_pool_size old_pool_size in
          if surge_used l + overlap_peak > surge_workers l then (False, l)
          else (True, l\<lparr>entries := (entries l)(app \<mapsto> e\<lparr>surge := surge e + new_pool_size\<rparr>),
                        surge_used := surge_used l + new_pool_size\<rparr>))"

definition commit_fresh :: "string \<Rightarrow> ledger \<Rightarrow> ledger" where
  "commit_fresh app l = l"

definition commit_replace :: "string \<Rightarrow> u64 \<Rightarrow> u64 \<Rightarrow> ledger \<Rightarrow> ledger" where
  "commit_replace app new_pool_size old_pool_size l =
     (let e = entry_of l app in
      l\<lparr>entries := (entries l)(app \<mapsto>
          e\<lparr>steady := new_pool_size, surge := surge e - new_pool_size + old_pool_size\<rparr>),
        steady_used := steady_used l - old_pool_size + new_pool_size,
        surge_used := surge_used l - new_pool_size + old_pool_size\<rparr>)"

text \<open>The entry goes when both of its counts are zero.\<close>

definition settle_entry :: "string \<Rightarrow> entry \<Rightarrow> ledger \<Rightarrow> ledger" where
  "settle_entry app e l =
     (if steady e = 0 \<and> surge e = 0 then l\<lparr>entries := (entries l)(app := None)\<rparr>
      else l\<lparr>entries := (entries l)(app \<mapsto> e)\<rparr>)"

definition abort_reserve :: "string \<Rightarrow> u64 \<Rightarrow> bool \<Rightarrow> ledger \<Rightarrow> ledger" where
  "abort_reserve app pool_size replacement l =
     (case entries l app of
        None \<Rightarrow> l
      | Some e \<Rightarrow>
          if replacement
          then settle_entry app (e\<lparr>surge := surge e - pool_size\<rparr>) (l\<lparr>surge_used := surge_used l - pool_size\<rparr>)
          else settle_entry app (e\<lparr>steady := steady e - pool_size\<rparr>) (l\<lparr>steady_used := steady_used l - pool_size\<rparr>))"

definition begin_retire :: "string \<Rightarrow> u64 \<Rightarrow> ledger \<Rightarrow> ledger" where
  "begin_retire app pool_size l =
     (let e = entry_of l app in
      l\<lparr>entries := (entries l)(app \<mapsto> e\<lparr>steady := steady e - pool_size, surge := surge e + pool_size\<rparr>),
        steady_used := steady_used l - pool_size, surge_used := surge_used l + pool_size\<rparr>)"

definition release_drained :: "string \<Rightarrow> u64 \<Rightarrow> ledger \<Rightarrow> ledger" where
  "release_drained app drained l =
     (case entries l app of
        None \<Rightarrow> l
      | Some e \<Rightarrow>
          settle_entry app (e\<lparr>surge := surge e - drained\<rparr>) (l\<lparr>surge_used := surge_used l - drained\<rparr>))"

section \<open>The coordinator's calls\<close>

text \<open>
  A deployment reserves as a replacement when the application holds a serving pool; it settles by
  a commit, which reads the old pool's size from the ledger, or by an abort. A retirement moves
  the whole serving pool.
\<close>

datatype ledger_op = Reserve string u64 | Commit string u64 bool | Abort string u64 bool
  | Retire string | Drained string u64

definition reserve :: "string \<Rightarrow> u64 \<Rightarrow> ledger \<Rightarrow> bool \<times> ledger" where
  "reserve app n l = (if holds l app then reserve_replace app n l else reserve_fresh app n l)"

fun ledger_step :: "ledger_op \<Rightarrow> ledger \<Rightarrow> ledger" where
  "ledger_step (Reserve app n) l = snd (reserve app n l)"
| "ledger_step (Commit app n replacement) l =
     (if replacement then commit_replace app n (steady_of l app) l else commit_fresh app l)"
| "ledger_step (Abort app n replacement) l = abort_reserve app n replacement l"
| "ledger_step (Retire app) l = begin_retire app (steady_of l app) l"
| "ledger_step (Drained app n) l = release_drained app n l"

definition ledger_run :: "ledger_op list \<Rightarrow> ledger \<Rightarrow> ledger" where
  "ledger_run ops l = fold ledger_step ops l"

section \<open>The totals\<close>

definition ledger_ok :: "ledger \<Rightarrow> bool" where
  "ledger_ok l \<longleftrightarrow> finite (dom (entries l))
     \<and> steady_used l = (\<Sum>app \<in> dom (entries l). steady_of l app)
     \<and> surge_used l = (\<Sum>app \<in> dom (entries l). surge_of l app)"

lemma ledger_ok_new [keeps]: "ledger_ok (WorkerCapacityLedger t s)"
  by (simp add: ledger_ok_def WorkerCapacityLedger_def)

text \<open>A change of one entry that moves the totals by as much keeps them right, at any wrap-around.\<close>

lemma sum_entry:
  fixes g :: "'k \<Rightarrow> u64"
  assumes "finite A" and "\<And>x. x \<notin> A \<Longrightarrow> g x = 0"
  shows "(\<Sum>x \<in> A. g x) = (\<Sum>x \<in> A - {k}. g x) + g k"
  using assms by (cases "k \<in> A") (simp_all add: sum_diff1 add.commute)

lemma ledger_ok_put:
  assumes ok: "ledger_ok l"
    and "st = steady_used l - steady_of l app + steady e"
    and "su = surge_used l - surge_of l app + surge e"
  shows "ledger_ok (l\<lparr>entries := (entries l)(app \<mapsto> e), steady_used := st, surge_used := su\<rparr>)"
proof -
  let ?D = "dom (entries l)"
  from ok have fin: "finite ?D" by (simp add: ledger_ok_def)
  have rest: "(\<Sum>x \<in> ?D - {app}. f (entries l x)) = (\<Sum>x \<in> ?D - {app}. f (((entries l)(app \<mapsto> e)) x))"
    for f :: "entry option \<Rightarrow> u64" by (rule sum.cong) auto
  have "(\<Sum>x \<in> insert app ?D. f (((entries l)(app \<mapsto> e)) x))
      = (\<Sum>x \<in> ?D - {app}. f (entries l x)) + f (Some e)" for f :: "entry option \<Rightarrow> u64"
    using fin rest [of f] by (simp add: sum.insert_remove add.commute)
  note new = this [of "\<lambda>x. case x of None \<Rightarrow> 0 | Some e \<Rightarrow> steady e"]
    this [of "\<lambda>x. case x of None \<Rightarrow> 0 | Some e \<Rightarrow> surge e"]
  have "(\<Sum>x \<in> ?D. steady_of l x) = (\<Sum>x \<in> ?D - {app}. steady_of l x) + steady_of l app"
    "(\<Sum>x \<in> ?D. surge_of l x) = (\<Sum>x \<in> ?D - {app}. surge_of l x) + surge_of l app"
    using sum_entry [OF fin, of "steady_of l" app] sum_entry [OF fin, of "surge_of l" app]
    by (simp_all add: steady_of_def surge_of_def domIff)
  with new ok assms(2,3) show ?thesis
    by (simp add: ledger_ok_def steady_of_def surge_of_def)
qed

lemma ledger_ok_erase:
  assumes ok: "ledger_ok l" and "steady_of l app = 0" and "surge_of l app = 0"
  shows "ledger_ok (l\<lparr>entries := (entries l)(app := None)\<rparr>)"
proof -
  let ?D = "dom (entries l)"
  from ok have fin: "finite ?D" by (simp add: ledger_ok_def)
  have "(\<Sum>x \<in> ?D. steady_of l x) = (\<Sum>x \<in> ?D - {app}. steady_of l x)"
    "(\<Sum>x \<in> ?D. surge_of l x) = (\<Sum>x \<in> ?D - {app}. surge_of l x)"
    using sum_entry [OF fin, of "steady_of l" app] sum_entry [OF fin, of "surge_of l" app] assms(2,3)
    by (simp_all add: steady_of_def surge_of_def domIff)
  moreover have "(\<Sum>x \<in> ?D - {app}. f (((entries l)(app := None)) x)) = (\<Sum>x \<in> ?D - {app}. f (entries l x))"
    for f :: "entry option \<Rightarrow> u64" by (rule sum.cong) auto
  note this [of "\<lambda>x. case x of None \<Rightarrow> 0 | Some e \<Rightarrow> steady e"] this [of "\<lambda>x. case x of None \<Rightarrow> 0 | Some e \<Rightarrow> surge e"]
  ultimately show ?thesis using ok by (simp add: ledger_ok_def steady_of_def surge_of_def)
qed

lemma ledger_ok_settle:
  assumes "ledger_ok l"
    and "st = steady_used l - steady_of l app + steady e"
    and "su = surge_used l - surge_of l app + surge e"
  shows "ledger_ok (settle_entry app e (l\<lparr>steady_used := st, surge_used := su\<rparr>))"
proof -
  let ?m = "l\<lparr>entries := (entries l)(app \<mapsto> e), steady_used := st, surge_used := su\<rparr>"
  have m: "ledger_ok ?m" by (rule ledger_ok_put [OF assms])
  show ?thesis
  proof (cases "steady e = 0 \<and> surge e = 0")
    case True
    with ledger_ok_erase [OF m, of app] show ?thesis
      by (simp add: settle_entry_def steady_of_def surge_of_def)
  next
    case False
    have "l\<lparr>steady_used := st, surge_used := su, entries := (entries l)(app \<mapsto> e)\<rparr> = ?m" by simp
    then have "settle_entry app e (l\<lparr>steady_used := st, surge_used := su\<rparr>) = ?m"
      unfolding settle_entry_def if_not_P [OF False] by simp
    with m show ?thesis by (simp only:)
  qed
qed

lemma ledger_step_ok [keeps]:
  assumes ok: "ledger_ok l"
  shows "ledger_ok (ledger_step op l)"
proof (cases op)
  case (Reserve app n)
  have "ledger_ok (snd (reserve_replace app n l))"
    using ledger_ok_put [OF ok, where app = app and st = "steady_used l" and su = "surge_used l + n"
        and e = "(entry_of l app)\<lparr>surge := surge (entry_of l app) + n\<rparr>"] ok
    by (auto simp: reserve_replace_def Let_def steady_of_def surge_of_def entry_of_def split: option.splits)
  moreover have "ledger_ok (snd (reserve_fresh app n l))"
    using ledger_ok_put [OF ok, where app = app and st = "steady_used l + n" and su = "surge_used l"
        and e = "(entry_of l app)\<lparr>steady := steady (entry_of l app) + n\<rparr>"] ok
    by (auto simp: reserve_fresh_def Let_def steady_of_def surge_of_def entry_of_def split: option.splits)
  ultimately show ?thesis using Reserve by (simp add: reserve_def)
next
  case (Commit app n replacement)
  have "ledger_ok (commit_replace app n (steady_of l app) l)"
    using ledger_ok_put [OF ok, where app = app
        and st = "steady_used l - steady_of l app + n" and su = "surge_used l - n + steady_of l app"
        and e = "(entry_of l app)\<lparr>steady := n, surge := surge_of l app - n + steady_of l app\<rparr>"]
    by (simp add: commit_replace_def Let_def steady_of_def surge_of_def entry_of_def split: option.splits)
  then show ?thesis using Commit ok by (simp add: commit_fresh_def)
next
  case (Abort app n replacement)
  show ?thesis
  proof (cases "entries l app")
    case (Some e)
    then show ?thesis
      using Abort ledger_ok_settle [OF ok, where app = app and st = "steady_used l" and su = "surge_used l - n"
          and e = "e\<lparr>surge := surge e - n\<rparr>"]
        ledger_ok_settle [OF ok, where app = app and st = "steady_used l - n" and su = "surge_used l"
          and e = "e\<lparr>steady := steady e - n\<rparr>"]
      by (simp add: abort_reserve_def steady_of_def surge_of_def)
  qed (use Abort ok in \<open>simp add: abort_reserve_def\<close>)
next
  case (Retire app)
  have "ledger_ok (begin_retire app (steady_of l app) l)"
    using ledger_ok_put [OF ok, where app = app
        and st = "steady_used l - steady_of l app" and su = "surge_used l + steady_of l app"
        and e = "(entry_of l app)\<lparr>steady := 0, surge := surge_of l app + steady_of l app\<rparr>"]
    by (simp add: begin_retire_def Let_def steady_of_def surge_of_def entry_of_def split: option.splits)
  then show ?thesis using Retire by simp
next
  case (Drained app n)
  show ?thesis
  proof (cases "entries l app")
    case (Some e)
    then show ?thesis
      using Drained ledger_ok_settle [OF ok, where app = app and st = "steady_used l" and su = "surge_used l - n"
          and e = "e\<lparr>surge := surge e - n\<rparr>"]
      by (simp add: release_drained_def steady_of_def surge_of_def)
  qed (use Drained ok in \<open>simp add: release_drained_def\<close>)
qed

lemma ledger_run_ok [keeps]: "ledger_ok l \<Longrightarrow> ledger_ok (ledger_run ops l)"
  unfolding ledger_run_def by (induction ops arbitrary: l) (simp_all add: keeps)

section \<open>One deployment after the other\<close>

text \<open>
  The ledger calls of one deployment (\<open>managed_deploy\<close>): reserve before any worker is spawned;
  then commit when the pool is warm and the state is persisted, abort otherwise.
\<close>

definition deploy :: "string \<Rightarrow> u64 \<Rightarrow> bool \<Rightarrow> ledger \<Rightarrow> ledger" where
  "deploy app n succeeds l =
     (let replacement = holds l app in
      case reserve app n l of
        (False, l') \<Rightarrow> l'
      | (True, l') \<Rightarrow>
          if succeeds then ledger_step (Commit app n replacement) l'
          else ledger_step (Abort app n replacement) l')"

datatype coordinator_op = Deploy string u64 bool | Withdraw string | Reaped string u64

fun coordinator_step :: "coordinator_op \<Rightarrow> ledger \<Rightarrow> ledger" where
  "coordinator_step (Deploy app n succeeds) l = deploy app n succeeds l"
| "coordinator_step (Withdraw app) l = ledger_step (Retire app) l"
| "coordinator_step (Reaped app n) l = ledger_step (Drained app n) l"

fun pool_sizes :: "coordinator_op \<Rightarrow> nat" where
  "pool_sizes (Deploy _ n _) = unat n"
| "pool_sizes _ = 0"

definition steady_sum :: "ledger \<Rightarrow> nat" where
  "steady_sum l = (\<Sum>app \<in> dom (entries l). unat (steady_of l app))"

text \<open>The serving workers, counted without wrap-around, are within the budget.\<close>

definition within_budget :: "ledger \<Rightarrow> bool" where
  "within_budget l \<longleftrightarrow> finite (dom (entries l)) \<and> steady_sum l = unat (steady_used l)
     \<and> steady_used l \<le> workers_total l \<and> unat (workers_total l) < 2 ^ 62"

lemma steady_sum_put:
  assumes "finite (dom (entries l))"
  shows "steady_sum (l\<lparr>entries := (entries l)(app \<mapsto> e), steady_used := st, surge_used := su\<rparr>)
      + unat (steady_of l app) = steady_sum l + unat (steady e)"
proof -
  let ?D = "dom (entries l)" and ?f = "\<lambda>x. case x of None \<Rightarrow> 0 | Some e \<Rightarrow> unat (steady e)"
  have f: "unat (steady_of l x) = ?f (entries l x)" for l x by (simp add: steady_of_def split: option.splits)
  have rest: "(\<Sum>x \<in> ?D - {app}. ?f (entries l x)) = (\<Sum>x \<in> ?D - {app}. ?f (((entries l)(app \<mapsto> e)) x))"
    by (rule sum.cong) auto
  have "(\<Sum>x \<in> ?D. ?f (entries l x)) = (\<Sum>x \<in> ?D - {app}. ?f (entries l x)) + ?f (entries l app)"
    using assms by (cases "app \<in> ?D") (auto simp: sum.remove domIff)
  moreover have "(\<Sum>x \<in> insert app ?D. ?f (((entries l)(app \<mapsto> e)) x)) =
      (\<Sum>x \<in> ?D - {app}. ?f (entries l x)) + ?f (Some e)"
    unfolding rest using assms by (simp add: sum.insert_remove add.commute)
  ultimately show ?thesis unfolding steady_sum_def f by simp
qed

lemma steady_sum_used [simp]:
  "steady_sum (l\<lparr>surge_used := su\<rparr>) = steady_sum l" "steady_sum (l\<lparr>steady_used := st\<rparr>) = steady_sum l"
  by (simp_all add: steady_sum_def steady_of_def)

lemma steady_of_le: "finite (dom (entries l)) \<Longrightarrow> unat (steady_of l app) \<le> steady_sum l"
  using member_le_sum [of app "dom (entries l)" "\<lambda>a. unat (steady_of l a)"]
  by (cases "app \<in> dom (entries l)") (simp_all add: steady_sum_def steady_of_def domIff)

lemma word_move:
  fixes a b c t :: u64
  assumes "b \<le> a" and "unat a - unat b + unat c \<le> unat t" and "unat t < 2 ^ 62"
  shows "unat (a - b + c) = unat a - unat b + unat c" and "a - b + c \<le> t"
proof -
  have "unat (a - b) = unat a - unat b" using assms(1) by (rule unat_sub)
  moreover have "unat (a - b) + unat c < 2 ^ LENGTH(64)" using assms calculation by simp
  ultimately show u: "unat (a - b + c) = unat a - unat b + unat c"
    by (simp add: unat_add_lem [THEN iffD1])
  then show "a - b + c \<le> t" using assms(2) by (simp add: word_le_nat_alt)
qed

lemma word_gate:
  fixes a b c t :: u64
  assumes "b \<le> a" and "a \<le> t" and "unat t < 2 ^ 62" and "unat c < 2 ^ 62" and "a - b + c \<le> t"
  shows "unat a - unat b + unat c \<le> unat t"
proof -
  have s: "unat (a - b) = unat a - unat b" using assms(1) by (rule unat_sub)
  have "unat a \<le> unat t" using assms(2) by (simp add: word_le_nat_alt)
  then have "unat (a - b) + unat c < 2 ^ LENGTH(64)" using assms(3,4) s by simp
  then have "unat (a - b + c) = unat (a - b) + unat c" by (simp add: unat_add_lem [THEN iffD1])
  then show ?thesis using assms(5) s by (simp add: word_le_nat_alt)
qed

lemma within_budget_put:
  assumes "within_budget l" and "st = steady_used l - steady_of l app + steady e"
    and "unat (steady_used l) - unat (steady_of l app) + unat (steady e) \<le> unat (workers_total l)"
  shows "within_budget (l\<lparr>entries := (entries l)(app \<mapsto> e), steady_used := st, surge_used := su\<rparr>)"
proof -
  from assms(1) have l: "finite (dom (entries l))" "steady_sum l = unat (steady_used l)"
    "unat (workers_total l) < 2 ^ 62" by (simp_all add: within_budget_def)
  have le: "steady_of l app \<le> steady_used l" using steady_of_le [OF l(1), of app] l(2) by (simp add: word_le_nat_alt)
  from steady_sum_put [OF l(1), where app = app and e = e and st = st and su = su] word_move [OF le assms(3) l(3)] steady_of_le [OF l(1), of app] l assms(2)
  show ?thesis by (simp add: within_budget_def)
qed

lemma within_budget_erase:
  assumes "within_budget l" and "steady_of l app = 0"
  shows "within_budget (l\<lparr>entries := (entries l)(app := None)\<rparr>)"
proof -
  have "steady_sum (l\<lparr>entries := (entries l)(app := None)\<rparr>) = steady_sum l"
    using assms unfolding within_budget_def steady_sum_def
    by (intro sum.mono_neutral_cong_left) (auto simp: steady_of_def split: option.splits)
  with assms(1) show ?thesis by (simp add: within_budget_def)
qed

lemma within_budget_settle:
  assumes "within_budget l" and "st = steady_used l - steady_of l app + steady e"
    and "unat (steady_used l) - unat (steady_of l app) + unat (steady e) \<le> unat (workers_total l)"
  shows "within_budget (settle_entry app e (l\<lparr>steady_used := st, surge_used := su\<rparr>))"
proof -
  let ?m = "l\<lparr>entries := (entries l)(app \<mapsto> e), steady_used := st, surge_used := su\<rparr>"
  have m: "within_budget ?m" by (rule within_budget_put [OF assms])
  have "settle_entry app e (l\<lparr>steady_used := st, surge_used := su\<rparr>)
      = (if steady e = 0 \<and> surge e = 0 then ?m\<lparr>entries := (entries ?m)(app := None)\<rparr> else ?m)"
    by (simp add: settle_entry_def)
  with m within_budget_erase [OF m, of app] show ?thesis by (simp add: steady_of_def)
qed

lemma within_budget_reserve:
  assumes l: "within_budget l" and "unat n < 2 ^ 62"
  shows "within_budget (snd (reserve app n l))"
proof -
  have "within_budget (snd (reserve_fresh app n l))"
  proof (cases "steady_used l + n > workers_total l")
    case False
    from l have used: "steady_used l \<le> workers_total l" "unat (workers_total l) < 2 ^ 62"
      and le: "unat (steady_of l app) \<le> unat (steady_used l)"
      using steady_of_le [of l app] by (simp_all add: within_budget_def)
    have "unat (steady_used l) + unat n \<le> unat (workers_total l)"
      using word_gate [of 0 "steady_used l", OF _ used assms(2)] False by simp
    moreover have "unat (steady_of l app + n) = unat (steady_of l app) + unat n"
      using word_move(1) [of 0 "steady_of l app" n "workers_total l"] le used(2) calculation by simp
    ultimately show ?thesis
      using within_budget_put [OF l, where app = app and su = "surge_used l" and st = "steady_used l + n"
          and e = "(entry_of l app)\<lparr>steady := steady (entry_of l app) + n\<rparr>"] False le
      by (auto simp: reserve_fresh_def Let_def steady_of_def entry_of_def split: option.splits)
  qed (simp add: reserve_fresh_def l)
  moreover have "within_budget (snd (reserve_replace app n l))"
  proof (cases "entries l app")
    case (Some e)
    have "unat (steady_used l) - unat (steady_of l app) + unat (steady_of l app) \<le> unat (workers_total l)"
      using l steady_of_le [of l app] by (simp add: within_budget_def word_le_nat_alt)
    then show ?thesis
      using within_budget_put [OF l, where app = app and su = "surge_used l + n" and st = "steady_used l"
          and e = "e\<lparr>surge := surge e + n\<rparr>"] Some l
      by (auto simp: reserve_replace_def Let_def steady_of_def)
  qed (simp add: reserve_replace_def l)
  ultimately show ?thesis by (simp add: reserve_def)
qed

lemma within_budget_room:
  assumes "within_budget l"
  shows "unat (steady_of l app) \<le> unat (steady_used l)"
    and "unat (steady_used l) \<le> unat (workers_total l)" and "unat (workers_total l) < 2 ^ 62"
  using assms steady_of_le [of l app] by (simp_all add: within_budget_def word_le_nat_alt)

lemma within_budget_commit:
  assumes l: "within_budget l" and "unat n < 2 ^ 62" and "reserve_replace app n l = (True, l')"
  shows "within_budget (commit_replace app n (steady_of l' app) l')"
proof -
  from assms(3) obtain e where e: "entries l app = Some e"
    and gate: "steady_used l - steady e + n \<le> workers_total l"
    and l': "l' = l\<lparr>entries := (entries l)(app \<mapsto> e\<lparr>surge := surge e + n\<rparr>), surge_used := surge_used l + n\<rparr>"
    by (auto simp: reserve_replace_def Let_def split: option.splits if_splits)
  have b': "within_budget l'"
    using within_budget_reserve [OF l assms(2), of app] assms(3) e
    by (auto simp: reserve_def holds_def reserve_replace_def word_gt_0 split: if_splits)
  have same: "steady_used l' = steady_used l" "workers_total l' = workers_total l" "steady_of l' app = steady e"
    by (simp_all add: l' steady_of_def)
  have "unat (steady_used l) - unat (steady e) + unat n \<le> unat (workers_total l)"
    using word_gate [OF _ _ _ assms(2) gate] within_budget_room(1) [OF l, of app] within_budget_room(2,3) [OF l] e
    by (simp add: steady_of_def word_le_nat_alt)
  with within_budget_put [OF b', where app = app and e = "(entry_of l' app)\<lparr>steady := n,
      surge := surge (entry_of l' app) - n + steady_of l' app\<rparr>"
      and st = "steady_used l' - steady_of l' app + n" and su = "surge_used l' - n + steady_of l' app"]
  show ?thesis by (simp add: commit_replace_def same Let_def)
qed

lemma within_budget_lower:
  assumes l: "within_budget l" and "entries l app = Some e" and "n \<le> steady e"
  shows "within_budget (settle_entry app (e\<lparr>steady := steady e - n\<rparr>) (l\<lparr>steady_used := steady_used l - n\<rparr>))"
proof -
  have "unat (steady e - n) = unat (steady e) - unat n" "unat n \<le> unat (steady e)"
    using assms(3) by (simp_all add: unat_sub word_le_nat_alt)
  with within_budget_settle [OF l, where app = app and e = "e\<lparr>steady := steady e - n\<rparr>"
      and st = "steady_used l - n" and su = "surge_used l"] within_budget_room(1) [OF l, of app] within_budget_room(2,3) [OF l] assms(2)
  show ?thesis by (simp add: steady_of_def)
qed

lemma within_budget_surge:
  assumes l: "within_budget l" and "entries l app = Some e"
  shows "within_budget (settle_entry app (e\<lparr>surge := x\<rparr>) (l\<lparr>surge_used := su\<rparr>))"
  using within_budget_settle [OF l, where app = app and e = "e\<lparr>surge := x\<rparr>"
      and st = "steady_used l" and su = su] within_budget_room(1) [OF l, of app] within_budget_room(2,3) [OF l] assms(2)
  by (simp add: steady_of_def)

lemma within_budget_abort:
  assumes l: "within_budget l" and "unat n < 2 ^ 62" and r: "reserve app n l = (True, l')"
  shows "within_budget (abort_reserve app n (holds l app) l')"
proof -
  have b': "within_budget l'" using within_budget_reserve [OF l assms(2), of app] r by simp
  show ?thesis
  proof (cases "holds l app")
    case True
    then show ?thesis using within_budget_surge [OF b'] b' by (auto simp: abort_reserve_def split: option.splits)
  next
    case False
    then have e: "entries l' app = Some ((entry_of l app)\<lparr>steady := steady (entry_of l app) + n\<rparr>)"
      and f: "\<not> steady_used l + n > workers_total l"
      using r by (auto simp: reserve_def reserve_fresh_def Let_def split: if_splits)
    have "steady (entry_of l app) = 0"
      using False by (auto simp: holds_def entry_of_def word_gt_0 split: option.splits)
    with within_budget_lower [OF b' e, of n] False e show ?thesis by (simp add: abort_reserve_def)
  qed
qed

lemma coordinator_step_budget [keeps]:
  assumes l: "within_budget l" and n: "pool_sizes op < 2 ^ 62"
  shows "within_budget (coordinator_step op l)"
proof (cases op)
  case (Deploy app n succeeds)
  with n have n62: "unat n < 2 ^ 62" by simp
  obtain ok l' where r: "reserve app n l = (ok, l')" by fastforce
  have b': "within_budget l'" using within_budget_reserve [OF l n62, of app] r by simp
  show ?thesis
  proof (cases "ok \<and> succeeds \<and> holds l app")
    case True
    then have "reserve_replace app n l = (True, l')" using r by (simp add: reserve_def)
    from within_budget_commit [OF l n62 this] True r Deploy show ?thesis by (simp add: deploy_def Let_def)
  next
    case False
    then show ?thesis
      using within_budget_abort [OF l n62, of app] b' r Deploy
      by (cases ok) (auto simp: deploy_def Let_def commit_fresh_def)
  qed
next
  case (Withdraw app)
  have "within_budget (begin_retire app (steady_of l app) l)"
    using within_budget_put [OF l, where app = app and e = "(entry_of l app)\<lparr>steady := 0,
      surge := surge (entry_of l app) + steady_of l app\<rparr>" and st = "steady_used l - steady_of l app"
      and su = "surge_used l + steady_of l app"] within_budget_room(1) [OF l, of app] within_budget_room(2,3) [OF l]
    by (simp add: begin_retire_def Let_def steady_of_def entry_of_def split: option.splits)
  with Withdraw show ?thesis by simp
next
  case (Reaped app n)
  with within_budget_surge [OF l] l show ?thesis by (auto simp: release_drained_def split: option.splits)
qed

lemma coordinator_step_total: "workers_total (coordinator_step op l) = workers_total l"
  by (cases op) (auto simp: deploy_def reserve_def reserve_fresh_def reserve_replace_def commit_replace_def
      commit_fresh_def abort_reserve_def settle_entry_def begin_retire_def release_drained_def Let_def
      split: option.splits)

lemma coordinator_run_budget:
  assumes "within_budget l" and "\<forall>op \<in> set ops. pool_sizes op < 2 ^ 62"
  shows "within_budget (fold coordinator_step ops l) \<and> workers_total (fold coordinator_step ops l) = workers_total l"
  using assms by (induction ops arbitrary: l) (simp_all add: keeps coordinator_step_total)

section \<open>Properties\<close>

text \<open>C6: After any interleaving of the coordinator's reserve, commit, abort, retire and release
  calls, the two totals of the ledger are the sums of the per-application counts, at any
  wrap-around of the 64-bit counters.\<close>

theorem ledger_totals_are_sums:
  "let l = ledger_run ops (WorkerCapacityLedger total_workers activation_surge) in
   finite (dom (entries l))
   \<and> steady_used l = (\<Sum>app \<in> dom (entries l). steady_of l app)
   \<and> surge_used l = (\<Sum>app \<in> dom (entries l). surge_of l app)"
  using ledger_run_ok [OF ledger_ok_new, of ops total_workers activation_surge]
  by (simp add: Let_def ledger_ok_def)

text \<open>C34: When deployments run one after the other (each settles its reserve before the next one
  begins), with any retirements and drains between them, the serving workers never exceed the
  configured total, for budgets and pool sizes below 2^62.\<close>

theorem serving_workers_within_total:
  assumes "unat total_workers < 2 ^ 62" and "\<forall>op \<in> set ops. pool_sizes op < 2 ^ 62"
    and "l = fold coordinator_step ops (WorkerCapacityLedger total_workers activation_surge)"
  shows "(\<Sum>app \<in> dom (entries l). unat (steady_of l app)) \<le> unat total_workers"
proof -
  let ?l0 = "WorkerCapacityLedger total_workers activation_surge"
  have "within_budget ?l0" using assms(1) by (simp add: within_budget_def WorkerCapacityLedger_def steady_sum_def)
  from coordinator_run_budget [OF this assms(2)] assms(3)
  have "within_budget l" "workers_total l = total_workers" by (simp_all add: WorkerCapacityLedger_def)
  then show ?thesis by (simp add: within_budget_def word_le_nat_alt flip: steady_sum_def)
qed

theorem serving_workers_within_total_witness:
  "let l = fold coordinator_step [Deploy ''a'' 2 True, Deploy ''b'' 3 True, Deploy ''a'' 1 True, Deploy ''b'' 9 True]
       (WorkerCapacityLedger 5 4)
   in steady_of l ''a'' = 1 \<and> steady_of l ''b'' = 3
      \<and> (\<Sum>app \<in> dom (entries l). unat (steady_of l app)) \<le> 5"
proof -
  let ?ops = "[Deploy ''a'' 2 True, Deploy ''b'' 3 True, Deploy ''a'' 1 True, Deploy ''b'' 9 True]"
  have "steady_of (fold coordinator_step ?ops (WorkerCapacityLedger 5 4)) ''a'' = 1"
    "steady_of (fold coordinator_step ?ops (WorkerCapacityLedger 5 4)) ''b'' = 3"
    by (simp_all add: deploy_def reserve_def reserve_fresh_def reserve_replace_def commit_replace_def commit_fresh_def
        holds_def steady_of_def entry_of_def WorkerCapacityLedger_def max_def Let_def)
  with serving_workers_within_total [of 5 ?ops] show ?thesis by (simp add: Let_def)
qed

text \<open>C36: The documented ceiling of \<open>workers_total + activation_surge_workers\<close> processes is not
  kept: a retirement moves workers into the surge count without a gate and frees their share of
  the steady budget at once, so that a fresh deployment while they drain holds 8 workers against
  a ceiling of 4; and a fresh reservation between the reserve and the commit of a replacement
  lets the commit raise the serving workers to 14 of 10.\<close>

theorem ledger_ceiling_is_exceeded:
  "(let l = ledger_run [Reserve ''a'' 4, Commit ''a'' 4 False, Retire ''a'', Reserve ''b'' 4] (WorkerCapacityLedger 4 0)
    in workers_total l + surge_workers l = 4 \<and> steady_used l + surge_used l = 8)
   \<and> (let l = ledger_run [Reserve ''a'' 2, Commit ''a'' 2 False, Reserve ''a'' 6, Reserve ''b'' 8, Commit ''a'' 6 True]
              (WorkerCapacityLedger 10 6)
      in workers_total l = 10 \<and> steady_used l = 14)"
  by (simp add: ledger_run_def reserve_def reserve_fresh_def reserve_replace_def commit_replace_def commit_fresh_def
      begin_retire_def holds_def steady_of_def entry_of_def WorkerCapacityLedger_def max_def Let_def)
end
