(* ===== verification/Host_Routing.thy ===== *)
theory Host_Routing
  imports Capsid_Prelude "HOL-Library.List_Lexorder"
begin

text \<open>
  How the Host finds the pool for a request: the immutable routing snapshot and the table that
  publishes it (\<open>src/host/routing_snapshot.cc\<close>), the lookup of the public listener
  (\<open>src/host/managed_listener.cc\<close>) and the activation and retirement transactions that rebuild
  and publish snapshots (\<open>src/host/main.cc\<close>). Pools are of any type \<open>'p\<close>: the code only copies
  pointers to them.
\<close>

section \<open>Snapshots\<close>

record 'p snapshot =
  routes :: "string \<rightharpoonup> 'p"
  tombstones :: "string set"

text \<open>
  \<open>emplace(std::move(route.first), \<dots>)\<close> leaves \<open>route.first\<close> in a valid but unspecified state
  before \<open>tombstones_.erase(route.first)\<close> reads it: \<open>moved\<close> is what a moved-from name reads as.
\<close>

fun collect_tombstones :: "(string \<times> 'p option) list \<Rightarrow> string set" where
  "collect_tombstones [] = {}"
| "collect_tombstones ((name, pool) # rs) =
     (if pool = None \<and> name \<noteq> '''' then insert name (collect_tombstones rs) else collect_tombstones rs)"

fun add_routes :: "(string \<Rightarrow> string) \<Rightarrow> (string \<times> 'p option) list \<Rightarrow> 'p snapshot \<Rightarrow> 'p snapshot" where
  "add_routes moved [] s = s"
| "add_routes moved ((name, None) # rs) s = add_routes moved rs s"
| "add_routes moved ((name, Some pool) # rs) s =
     (if routes s name \<noteq> None then add_routes moved rs s
      else add_routes moved rs
        (s\<lparr>routes := (routes s)(name \<mapsto> pool), tombstones := tombstones s - {moved name}\<rparr>))"

definition RoutingSnapshot_build :: "(string \<Rightarrow> string) \<Rightarrow> (string \<times> 'p option) list \<Rightarrow> 'p snapshot" where
  "RoutingSnapshot_build moved rs =
     add_routes moved rs \<lparr>routes = Map.empty, tombstones = collect_tombstones rs\<rparr>"

definition RoutingSnapshot_find :: "'p snapshot \<Rightarrow> string \<Rightarrow> 'p option" where
  "RoutingSnapshot_find s app = routes s app"

definition RoutingSnapshot_retired :: "'p snapshot \<Rightarrow> string \<Rightarrow> bool" where
  "RoutingSnapshot_retired s app \<longleftrightarrow> app \<in> tombstones s"

record 'p routing_table =
  published :: "'p snapshot option"
  generation :: u64

definition RoutingTable_publish :: "'p snapshot \<Rightarrow> 'p routing_table \<Rightarrow> 'p routing_table" where
  "RoutingTable_publish s t = t\<lparr>published := Some s, generation := generation t + 1\<rparr>"

text \<open>The listener: a retired name answers 404, a name without a live pool 503.\<close>

datatype 'p route_answer = AppRetired | AppNotFound | Serve 'p

definition route_request :: "'p routing_table \<Rightarrow> string \<Rightarrow> 'p route_answer" where
  "route_request t app =
     (let retired = (case published t of None \<Rightarrow> False | Some s \<Rightarrow> RoutingSnapshot_retired s app);
          pool = (case published t of None \<Rightarrow> None | Some s \<Rightarrow> RoutingSnapshot_find s app) in
      if retired then AppRetired
      else case pool of None \<Rightarrow> AppNotFound | Some p \<Rightarrow> Serve p)"

section \<open>Transactions\<close>

record 'p view =
  active_pools :: "string \<rightharpoonup> 'p"
  retired_apps :: "string set"
  draining_pools :: "'p list"
  drain_requested :: "'p list"
  routing :: "'p routing_table"

record 'p activation_plan =
  application :: string
  new_pool :: 'p
  new_snapshot :: "'p snapshot"
  old_pool :: "'p option"

record 'p retire_plan =
  retire_application :: string
  pool :: "'p option"
  retire_snapshot :: "'p snapshot"
  view_mutated :: bool

definition build_snapshot :: "(string \<Rightarrow> string) \<Rightarrow> 'p view \<Rightarrow> 'p snapshot" where
  "build_snapshot moved w = RoutingSnapshot_build moved
     (map (\<lambda>app. (app, active_pools w app)) (sorted_list_of_set (dom (active_pools w)))
      @ map (\<lambda>app. (app, None)) (sorted_list_of_set (retired_apps w)))"

definition prepare_activation ::
  "(string \<Rightarrow> string) \<Rightarrow> string \<Rightarrow> 'p option \<Rightarrow> 'p view \<Rightarrow> ('p activation_plan \<times> 'p view) option" where
  "prepare_activation moved app adopted w =
     (case adopted of
        None \<Rightarrow> None
      | Some p \<Rightarrow>
          let existing = active_pools w app;
              w = (case existing of Some q \<Rightarrow> w\<lparr>draining_pools := draining_pools w @ [q]\<rparr> | None \<Rightarrow> w);
              w = w\<lparr>active_pools := (active_pools w)(app \<mapsto> p), retired_apps := retired_apps w - {app}\<rparr>
          in Some (\<lparr>application = app, new_pool = p, new_snapshot = build_snapshot moved w, old_pool = existing\<rparr>, w))"

definition commit_activation :: "'p activation_plan \<Rightarrow> 'p view \<Rightarrow> 'p view" where
  "commit_activation pl w =
     (let w = (case old_pool pl of Some q \<Rightarrow> w\<lparr>drain_requested := drain_requested w @ [q]\<rparr> | None \<Rightarrow> w);
          w = (if active_pools w (application pl) \<noteq> None
               then w\<lparr>active_pools := (active_pools w)(application pl \<mapsto> new_pool pl)\<rparr> else w)
      in w\<lparr>retired_apps := retired_apps w - {application pl},
           routing := RoutingTable_publish (new_snapshot pl) (routing w)\<rparr>)"

definition abort_activation :: "'p activation_plan \<Rightarrow> 'p view \<Rightarrow> 'p view" where
  "abort_activation pl w =
     (if active_pools w (application pl) = Some (new_pool pl)
      then (case old_pool pl of
              Some q \<Rightarrow> w\<lparr>active_pools := (active_pools w)(application pl \<mapsto> q)\<rparr>
            | None \<Rightarrow> w\<lparr>active_pools := (active_pools w)(application pl := None)\<rparr>)
      else w)"

definition prepare_retire :: "(string \<Rightarrow> string) \<Rightarrow> string \<Rightarrow> 'p view \<Rightarrow> 'p retire_plan \<times> 'p view" where
  "prepare_retire moved app w =
     (let existing = active_pools w app;
          (mutated, w) =
            (case existing of
               Some q \<Rightarrow> (True, w\<lparr>active_pools := (active_pools w)(app := None),
                                 retired_apps := insert app (retired_apps w),
                                 draining_pools := draining_pools w @ [q]\<rparr>)
             | None \<Rightarrow> if app \<notin> retired_apps w then (True, w\<lparr>retired_apps := insert app (retired_apps w)\<rparr>)
                       else (False, w))
      in (\<lparr>retire_application = app, pool = existing, retire_snapshot = build_snapshot moved w,
           view_mutated = mutated\<rparr>, w))"

definition commit_retire :: "'p retire_plan \<Rightarrow> 'p view \<Rightarrow> 'p view" where
  "commit_retire pl w =
     (let w = (case pool pl of Some q \<Rightarrow> w\<lparr>drain_requested := drain_requested w @ [q]\<rparr> | None \<Rightarrow> w)
      in w\<lparr>routing := RoutingTable_publish (retire_snapshot pl) (routing w)\<rparr>)"

definition abort_retire :: "'p retire_plan \<Rightarrow> 'p view \<Rightarrow> 'p view" where
  "abort_retire pl w =
     (if \<not> view_mutated pl then w
      else case pool pl of
             Some q \<Rightarrow> w\<lparr>active_pools := (active_pools w)(retire_application pl \<mapsto> q),
                        retired_apps := retired_apps w - {retire_application pl}\<rparr>
           | None \<Rightarrow> w\<lparr>retired_apps := retired_apps w - {retire_application pl}\<rparr>)"

text \<open>Startup recovery: an application with recovered workers, or one that is durably retired.\<close>

definition recover_app :: "(string \<Rightarrow> string) \<Rightarrow> string \<Rightarrow> 'p option \<Rightarrow> 'p view \<Rightarrow> 'p view" where
  "recover_app moved app recovered w =
     (let w = (case recovered of
                 Some p \<Rightarrow> w\<lparr>active_pools := (active_pools w)(app \<mapsto> p)\<rparr>
               | None \<Rightarrow> w\<lparr>retired_apps := insert app (retired_apps w)\<rparr>)
      in w\<lparr>routing := RoutingTable_publish (build_snapshot moved w) (routing w)\<rparr>)"

section \<open>What a snapshot answers\<close>

definition leaves_behind :: "(string \<Rightarrow> string) \<Rightarrow> bool" where
  "leaves_behind moved \<longleftrightarrow> (\<forall>s. moved s = s \<or> moved s = '''')"

lemma collect_tombstones_eq: "collect_tombstones rs = {name. (name, None) \<in> set rs \<and> name \<noteq> ''''}"
  by (induction rs rule: collect_tombstones.induct) auto

lemma add_routes_eq:
  assumes "distinct (map fst rs)" and "\<forall>name \<in> fst ` set rs. routes s name = None"
  shows "add_routes moved rs s =
    s\<lparr>routes := (\<lambda>app. case map_of rs app of Some (Some p) \<Rightarrow> Some p | _ \<Rightarrow> routes s app),
      tombstones := tombstones s - moved ` {name. \<exists>p. (name, Some p) \<in> set rs}\<rparr>"
  using assms
proof (induction moved rs s rule: add_routes.induct)
  case (1 moved s)
  then show ?case by simp
next
  case (2 moved name rs s)
  have "map_of rs name = None" using 2(2) by (simp add: map_of_eq_None_iff)
  then have "(\<lambda>app. case map_of rs app of Some (Some p) \<Rightarrow> Some p | _ \<Rightarrow> routes s app)
      = (\<lambda>app. case ((map_of rs)(name \<mapsto> None)) app of Some (Some p) \<Rightarrow> Some p | _ \<Rightarrow> routes s app)" by auto
  with 2 show ?case by simp
next
  case (3 moved name p rs s)
  let ?s = "s\<lparr>routes := (routes s)(name \<mapsto> p), tombstones := tombstones s - {moved name}\<rparr>"
  have free: "routes s name = None" using 3(4) by simp
  have none: "map_of rs name = None" using 3(3) by (simp add: map_of_eq_None_iff)
  have "distinct (map fst rs)" "\<forall>n \<in> fst ` set rs. routes ?s n = None" using 3(3,4) by auto
  from 3(2) [OF _ this] free have
    "add_routes moved ((name, Some p) # rs) s =
      ?s\<lparr>routes := (\<lambda>app. case map_of rs app of Some (Some p) \<Rightarrow> Some p | _ \<Rightarrow> routes ?s app),
         tombstones := tombstones ?s - moved ` {name. \<exists>p. (name, Some p) \<in> set rs}\<rparr>" by simp
  moreover have "(\<lambda>app. case map_of rs app of Some (Some p) \<Rightarrow> Some p | _ \<Rightarrow> routes ?s app)
      = (\<lambda>app. case map_of ((name, Some p) # rs) app of Some (Some p) \<Rightarrow> Some p | _ \<Rightarrow> routes s app)"
    using none by (intro ext) (auto split: option.splits)
  moreover have "tombstones ?s - moved ` {name. \<exists>p. (name, Some p) \<in> set rs}
      = tombstones s - moved ` {n. \<exists>q. (n, Some q) \<in> set ((name, Some p) # rs)}" by auto
  ultimately show ?case by simp
qed

lemma build_eq:
  assumes "distinct (map fst rs)" and "'''' \<notin> fst ` set rs" and "leaves_behind moved"
  shows "RoutingSnapshot_build moved rs =
    \<lparr>routes = (\<lambda>app. case map_of rs app of Some (Some p) \<Rightarrow> Some p | _ \<Rightarrow> None),
     tombstones = {app. map_of rs app = Some None}\<rparr>"
proof -
  have "{name. (name, None) \<in> set rs \<and> name \<noteq> ''''} - moved ` {name. \<exists>p. (name, Some p) \<in> set rs}
      = {app. map_of rs app = Some None}" (is "?A - ?B = _")
  proof -
    have "?A = {app. map_of rs app = Some None}" using assms(1,2) by force
    moreover have "?A \<inter> ?B = {}"
    proof (safe, goal_cases)
      case (1 name n p)
      from assms(3) have "moved n = n \<or> moved n = ''''" by (simp add: leaves_behind_def)
      with 1 assms(1) show ?case by (metis map_of_eq_Some_iff option.distinct(1) option.inject)
    qed
    ultimately show ?thesis by blast
  qed
  with assms(1) show ?thesis
    by (simp add: RoutingSnapshot_build_def add_routes_eq collect_tombstones_eq)
      (intro ext, simp split: option.splits)
qed

section \<open>The view and what is published\<close>

definition view_ok :: "'p view \<Rightarrow> bool" where
  "view_ok w \<longleftrightarrow> finite (dom (active_pools w)) \<and> finite (retired_apps w)
     \<and> (\<forall>app \<in> retired_apps w. active_pools w app = None) \<and> '''' \<notin> dom (active_pools w) \<union> retired_apps w"

text \<open>The answer the view stands for.\<close>

definition answer :: "'p view \<Rightarrow> string \<Rightarrow> 'p route_answer" where
  "answer w app = (if app \<in> retired_apps w then AppRetired
     else case active_pools w app of None \<Rightarrow> AppNotFound | Some p \<Rightarrow> Serve p)"

definition current :: "'p view \<Rightarrow> bool" where
  "current w \<longleftrightarrow> view_ok w \<and> (\<forall>app. route_request (routing w) app = answer w app)"

lemma map_of_graph: "map_of (map (\<lambda>x. (x, f x)) xs) a = (if a \<in> set xs then Some (f a) else None)"
  by (induction xs) auto

lemma build_snapshot_eq:
  assumes "view_ok w" and "leaves_behind moved"
  shows "build_snapshot moved w = \<lparr>routes = active_pools w, tombstones = retired_apps w\<rparr>"
proof -
  let ?as = "sorted_list_of_set (dom (active_pools w))" and ?ts = "sorted_list_of_set (retired_apps w)"
  define rs where "rs = map (\<lambda>app. (app, active_pools w app)) ?as @ map (\<lambda>app. (app, None)) ?ts"
  have sets: "set ?as = dom (active_pools w)" "set ?ts = retired_apps w"
    using assms(1) by (simp_all add: view_ok_def)
  have lookup: "map_of rs app = (if app \<in> retired_apps w then Some None
      else if app \<in> dom (active_pools w) then Some (active_pools w app) else None)" for app
    using assms(1) sets by (auto simp: rs_def map_add_def map_of_graph view_ok_def)
  have "distinct (map fst rs)"
    using assms(1) by (auto simp: rs_def view_ok_def comp_def)
  moreover have "[] \<notin> fst ` set rs"
    using assms(1) sets by (auto simp: rs_def view_ok_def image_iff)
  ultimately have "build_snapshot moved w =
      \<lparr>routes = (\<lambda>app. case map_of rs app of Some (Some p) \<Rightarrow> Some p | _ \<Rightarrow> None),
       tombstones = {app. map_of rs app = Some None}\<rparr>"
    unfolding build_snapshot_def rs_def [symmetric] by (rule build_eq [OF _ _ assms(2)])
  moreover have "(\<lambda>app. case map_of rs app of Some (Some p) \<Rightarrow> Some p | _ \<Rightarrow> None) = active_pools w"
    using assms(1) by (intro ext) (auto simp: lookup view_ok_def split: option.splits)
  moreover have "{app. map_of rs app = Some None} = retired_apps w" by (auto simp: lookup domIff)
  ultimately show ?thesis by simp
qed

lemma published_answer:
  assumes "view_ok w" and "leaves_behind moved"
  shows "route_request (RoutingTable_publish (build_snapshot moved w) t) app = answer w app"
  by (simp add: build_snapshot_eq [OF assms] RoutingTable_publish_def route_request_def answer_def
      RoutingSnapshot_find_def RoutingSnapshot_retired_def Let_def)

lemma answer_updates [simp]:
  "answer (w\<lparr>draining_pools := d\<rparr>) = answer w" "answer (w\<lparr>drain_requested := r\<rparr>) = answer w"
  "answer (w\<lparr>routing := t\<rparr>) = answer w"
  by (simp_all add: fun_eq_iff answer_def)

lemma view_ok_updates [simp]:
  "view_ok (w\<lparr>draining_pools := d\<rparr>) = view_ok w" "view_ok (w\<lparr>drain_requested := r\<rparr>) = view_ok w"
  "view_ok (w\<lparr>routing := t\<rparr>) = view_ok w"
  by (simp_all add: view_ok_def)

section \<open>Whole transactions\<close>

text \<open>
  The coordinator prepares, writes the durable state and then commits or, when the write failed,
  aborts. An activation whose workers could not be adopted stops at the prepare.
\<close>

datatype 'p transaction = Activate string "'p option" bool | RetireApp string bool | Recover string "'p option"

fun transact :: "(string \<Rightarrow> string) \<Rightarrow> 'p transaction \<Rightarrow> 'p view \<Rightarrow> 'p view" where
  "transact moved (Activate app adopted persisted) w =
     (case prepare_activation moved app adopted w of
        None \<Rightarrow> w
      | Some (pl, w') \<Rightarrow> if persisted then commit_activation pl w' else abort_activation pl w')"
| "transact moved (RetireApp app persisted) w =
     (case prepare_retire moved app w of
        (pl, w') \<Rightarrow> if persisted then commit_retire pl w' else abort_retire pl w')"
| "transact moved (Recover app recovered) w = recover_app moved app recovered w"

fun tx_app :: "'p transaction \<Rightarrow> string" where
  "tx_app (Activate app _ _) = app"
| "tx_app (RetireApp app _) = app"
| "tx_app (Recover app _) = app"

text \<open>
  The transactions whose abort restores the view: all of them but the failed activation of a
  retired application. Recovery is for an application that is in neither set yet.
\<close>

fun restores :: "'p view \<Rightarrow> 'p transaction \<Rightarrow> bool" where
  "restores w (Activate app _ persisted) \<longleftrightarrow> persisted \<or> app \<notin> retired_apps w"
| "restores w (RetireApp app _) \<longleftrightarrow> True"
| "restores w (Recover app _) \<longleftrightarrow> app \<notin> retired_apps w \<and> app \<notin> dom (active_pools w)"

fun orderly :: "(string \<Rightarrow> string) \<Rightarrow> 'p transaction list \<Rightarrow> 'p view \<Rightarrow> bool" where
  "orderly moved [] w \<longleftrightarrow> True"
| "orderly moved (tx # txs) w \<longleftrightarrow> tx_app tx \<noteq> '''' \<and> restores w tx \<and> orderly moved txs (transact moved tx w)"

lemma current_publish:
  assumes "view_ok w" and "leaves_behind moved" and "route_request (routing w') = route_request (RoutingTable_publish (build_snapshot moved w) t)"
    and "view_ok w' = view_ok w" and "answer w' = answer w"
  shows "current w'"
  using assms published_answer [OF assms(1,2), of t] by (simp add: current_def)

lemma prepare_activation_ok:
  assumes "view_ok w" and "app \<noteq> ''''" and "prepare_activation moved app adopted w = Some (pl, w')"
  shows "view_ok w'" and "new_snapshot pl = build_snapshot moved w'" and "routing w' = routing w"
    and "application pl = app" and "active_pools w' app = Some (new_pool pl)"
    and "active_pools w = (active_pools w')(app := old_pool pl)" and "retired_apps w' = retired_apps w - {app}"
  using assms
  by (auto simp: prepare_activation_def view_ok_def Let_def split: option.splits)

lemma commit_activation_current:
  assumes "view_ok w" and "leaves_behind moved" and "app \<noteq> ''''"
    and "prepare_activation moved app adopted w = Some (pl, w')"
  shows "current (commit_activation pl w')"
proof -
  note p = prepare_activation_ok [OF assms(1,3,4)]
  have "view_ok (commit_activation pl w') = view_ok w'" "answer (commit_activation pl w') = answer w'"
    using p(4,5,7) by (auto simp: commit_activation_def view_ok_def answer_def fun_eq_iff Let_def split: option.splits)
  moreover have "routing (commit_activation pl w') = RoutingTable_publish (build_snapshot moved w') (routing w')"
    using p(2) by (simp add: commit_activation_def Let_def split: option.splits)
  ultimately show ?thesis using current_publish [OF p(1) assms(2)] by simp
qed

lemma abort_activation_current:
  assumes "current w" and "app \<noteq> ''''" and "app \<notin> retired_apps w"
    and "prepare_activation moved app adopted w = Some (pl, w')"
  shows "current (abort_activation pl w')"
proof -
  from assms(1) have "view_ok w" by (simp add: current_def)
  note p = prepare_activation_ok [OF this assms(2,4)]
  have "active_pools (abort_activation pl w') = active_pools w" "retired_apps (abort_activation pl w') = retired_apps w"
    "routing (abort_activation pl w') = routing w"
    using p(3-7) assms(3) by (auto simp: abort_activation_def split: option.splits)
  then show ?thesis using assms(1) by (simp add: current_def view_ok_def answer_def)
qed

lemma prepare_retire_ok:
  assumes "view_ok w" and "app \<noteq> ''''" and "prepare_retire moved app w = (pl, w')"
  shows "view_ok w'" and "retire_snapshot pl = build_snapshot moved w'" and "routing w' = routing w"
    and "app \<in> retired_apps w'" and "active_pools (abort_retire pl w') = active_pools w"
    and "retired_apps (abort_retire pl w') = retired_apps w" and "routing (abort_retire pl w') = routing w"
  using assms
  by (auto simp: prepare_retire_def abort_retire_def view_ok_def Let_def split: option.splits if_splits)

lemma commit_retire_current:
  assumes "view_ok w" and "leaves_behind moved" and "app \<noteq> ''''" and "prepare_retire moved app w = (pl, w')"
  shows "current (commit_retire pl w')"
proof -
  note p = prepare_retire_ok [OF assms(1,3,4)]
  have "view_ok (commit_retire pl w') = view_ok w'" "answer (commit_retire pl w') = answer w'"
    "routing (commit_retire pl w') = RoutingTable_publish (build_snapshot moved w') (routing w')"
    using p(2) by (simp_all add: commit_retire_def Let_def split: option.splits)
  then show ?thesis using current_publish [OF p(1) assms(2)] by simp
qed

lemma abort_retire_current:
  assumes "current w" and "app \<noteq> ''''" and "prepare_retire moved app w = (pl, w')"
  shows "current (abort_retire pl w')"
proof -
  from assms(1) have "view_ok w" by (simp add: current_def)
  from prepare_retire_ok(5-7) [OF this assms(2,3)] assms(1) show ?thesis
    by (simp add: current_def view_ok_def answer_def)
qed

lemma recover_current:
  assumes "view_ok w" and "leaves_behind moved" and "app \<noteq> ''''"
    and "app \<notin> retired_apps w" and "app \<notin> dom (active_pools w)"
  shows "current (recover_app moved app recovered w)"
proof -
  let ?w = "case recovered of Some p \<Rightarrow> w\<lparr>active_pools := (active_pools w)(app \<mapsto> p)\<rparr>
    | None \<Rightarrow> w\<lparr>retired_apps := insert app (retired_apps w)\<rparr>"
  have "view_ok ?w" using assms by (auto simp: view_ok_def split: option.splits)
  from current_publish [OF this assms(2)] show ?thesis by (simp add: recover_app_def Let_def)
qed

lemma transact_current [keeps]:
  assumes cur: "current w" and "leaves_behind moved" and "tx_app tx \<noteq> ''''" and "restores w tx"
  shows "current (transact moved tx w)"
proof -
  have ok: "view_ok w" using cur by (simp add: current_def)
  show ?thesis
  proof (cases tx)
    case (Activate app adopted persisted)
    with assms ok show ?thesis
      by (auto split: option.splits intro: commit_activation_current abort_activation_current)
  next
    case (RetireApp app persisted)
    obtain pl w' where "prepare_retire moved app w = (pl, w')" by fastforce
    with RetireApp assms ok show ?thesis
      by (auto intro: commit_retire_current abort_retire_current)
  next
    case (Recover app recovered)
    with assms ok show ?thesis by (auto intro: recover_current)
  qed
qed

lemma transactions_current:
  assumes "current w" and "leaves_behind moved" and "orderly moved txs w"
  shows "current (fold (transact moved) txs w)"
  using assms by (induction txs arbitrary: w) (auto simp: keeps)

definition empty_view :: "'p view" where
  "empty_view = \<lparr>active_pools = Map.empty, retired_apps = {}, draining_pools = [], drain_requested = [],
     routing = \<lparr>published = None, generation = 0\<rparr>\<rparr>"

lemma current_empty [keeps]: "current empty_view"
  by (simp add: current_def view_ok_def empty_view_def answer_def route_request_def)

section \<open>Properties\<close>



text \<open>Aborting a retirement restores the pools and the retired names exactly as they were
  before the prepare, and so does aborting an activation of an application that was not retired;
  in both cases nothing was published.\<close>

theorem abort_restores_view:
  assumes "view_ok w" and "app \<noteq> ''''"
    and "prepare_retire moved app w = (rp, wr)" and "prepare_activation moved app (Some p) w = Some (ap, wa)"
    and "app \<notin> retired_apps w"
  shows "active_pools (abort_retire rp wr) = active_pools w \<and> retired_apps (abort_retire rp wr) = retired_apps w
    \<and> routing (abort_retire rp wr) = routing w
    \<and> active_pools (abort_activation ap wa) = active_pools w
    \<and> retired_apps (abort_activation ap wa) = retired_apps w \<and> routing (abort_activation ap wa) = routing w"
  using prepare_retire_ok(5-7) [OF assms(1-3)] prepare_activation_ok(3-7) [OF assms(1,2,4)] assms(5)
  by (auto simp: abort_activation_def split: option.splits)

theorem abort_restores_view_witness:
  "let w = transact (\<lambda>_. '''') (Activate ''a'' (Some (1::nat)) True) empty_view in
   active_pools (case prepare_retire (\<lambda>_. '''') ''a'' w of (pl, w') \<Rightarrow> abort_retire pl w') = [''a'' \<mapsto> 1]"
proof -
  let ?w = "transact (\<lambda>_. '''') (Activate ''a'' (Some (1::nat)) True) empty_view"
  have w: "view_ok ?w" "active_pools ?w = [''a'' \<mapsto> 1]" "retired_apps ?w = {}"
    by (simp_all add: empty_view_def prepare_activation_def commit_activation_def view_ok_def Let_def)
  obtain rp wr where r: "prepare_retire (\<lambda>_. '''') ''a'' ?w = (rp, wr)" by fastforce
  obtain ap wa where a: "prepare_activation (\<lambda>_. '''') ''a'' (Some 2) ?w = Some (ap, wa)"
    by (simp add: prepare_activation_def Let_def)
  from abort_restores_view [OF w(1) _ r a] w(2,3) r show ?thesis by (simp add: Let_def)
qed

text \<open>C37: A failed activation of a retired application loses its tombstone: the name answers 404
  before it, and 503 as soon as any other application is deployed after it.\<close>

theorem failed_redeploy_loses_tombstone:
  "let w = fold (transact (\<lambda>_. '''')) [Activate ''a'' (Some (1::nat)) True, RetireApp ''a'' True] empty_view;
       w' = fold (transact (\<lambda>_. '''')) [Activate ''a'' (Some 2) False, Activate ''b'' (Some 3) True] w
   in route_request (routing w) ''a'' = AppRetired \<and> route_request (routing w') ''a'' = AppNotFound"
  by (simp add: empty_view_def prepare_activation_def commit_activation_def prepare_retire_def commit_retire_def
      abort_activation_def build_snapshot_def RoutingSnapshot_build_def RoutingTable_publish_def route_request_def
      RoutingSnapshot_find_def RoutingSnapshot_retired_def Let_def)

text \<open>Where a moved-from name reads as the empty string, a snapshot built from both a live
  route and a tombstone of one name keeps the tombstone, and the router refuses the live pool,
  whichever of the two comes first.\<close>

theorem live_route_loses_to_tombstone:
  "let s = RoutingSnapshot_build (\<lambda>_. '''') [(''a'', Some (1::nat)), (''a'', None)];
       t = RoutingSnapshot_build (\<lambda>_. '''') [(''a'', None), (''a'', Some (1::nat))]
   in RoutingSnapshot_find s ''a'' = Some 1 \<and> RoutingSnapshot_retired s ''a''
      \<and> route_request \<lparr>published = Some s, generation = 1\<rparr> ''a'' = AppRetired \<and> t = s"
  by (simp add: RoutingSnapshot_build_def RoutingSnapshot_find_def RoutingSnapshot_retired_def route_request_def)

end
