(* ===== verification/Host_Pools.thy ===== *)
theory Host_Pools
  imports Capsid_Prelude
begin

text \<open>
  Three small pieces of the Host's data plane: the fixed pool of starting workers
  (\<open>src/host/static_pool.cc\<close>), the coalescing of queued response bodies
  (\<open>src/host/response_body_batch.h\<close>) and the two clamps of configured limits
  (\<open>src/host/credit_limits.h\<close>, \<open>src/host/poll_limits.h\<close>).
\<close>

section \<open>The fixed pool\<close>

record pool_worker =
  shard :: u32
  ready :: bool

record static_pool =
  target_workers :: u32
  workers :: "u32 \<rightharpoonup> pool_worker"
  ready_count :: nat
  active :: bool

definition StaticPoolState :: "u32 \<Rightarrow> static_pool" where
  "StaticPoolState n = \<lparr>target_workers = n, workers = Map.empty, ready_count = 0, active = False\<rparr>"

definition registered_workers :: "static_pool \<Rightarrow> nat" where
  "registered_workers s = card (dom (workers s))"

definition register_starting :: "u32 \<Rightarrow> u32 \<Rightarrow> static_pool \<Rightarrow> bool \<times> static_pool" where
  "register_starting wid sh s =
     (if registered_workers s \<ge> unat (target_workers s) then (False, s)
      else if workers s wid \<noteq> None then (False, s)
      else (True, s\<lparr>workers := (workers s)(wid \<mapsto> \<lparr>shard = sh, ready = False\<rparr>)\<rparr>))"

definition mark_ready :: "u32 \<Rightarrow> static_pool \<Rightarrow> bool \<times> static_pool" where
  "mark_ready wid s =
     (case workers s wid of
        None \<Rightarrow> (False, s)
      | Some w \<Rightarrow>
          if ready w then (False, s)
          else (True, s\<lparr>workers := (workers s)(wid \<mapsto> w\<lparr>ready := True\<rparr>), ready_count := ready_count s + 1\<rparr>))"

definition owner_shard :: "static_pool \<Rightarrow> u32 \<Rightarrow> u32 option" where
  "owner_shard s wid = (case workers s wid of None \<Rightarrow> None | Some w \<Rightarrow> Some (shard w))"

definition ready_workers_for_shard :: "static_pool \<Rightarrow> u32 \<Rightarrow> u32 list" where
  "ready_workers_for_shard s sh =
     filter (\<lambda>wid. case workers s wid of None \<Rightarrow> False | Some w \<Rightarrow> ready w \<and> shard w = sh)
       (sorted_list_of_set (dom (workers s)))"

definition can_activate :: "static_pool \<Rightarrow> bool" where
  "can_activate s \<longleftrightarrow> target_workers s > 0 \<and> \<not> active s
     \<and> registered_workers s = unat (target_workers s) \<and> ready_count s = unat (target_workers s)"

definition activate :: "static_pool \<Rightarrow> bool \<times> static_pool" where
  "activate s = (if \<not> can_activate s then (False, s) else (True, s\<lparr>active := True\<rparr>))"

datatype pool_op = Register u32 u32 | MarkReady u32 | Activate

fun pool_step :: "pool_op \<Rightarrow> static_pool \<Rightarrow> static_pool" where
  "pool_step (Register wid sh) s = snd (register_starting wid sh s)"
| "pool_step (MarkReady wid) s = snd (mark_ready wid s)"
| "pool_step Activate s = snd (activate s)"

definition ready_ids :: "static_pool \<Rightarrow> u32 set" where
  "ready_ids s = {wid. \<exists>w. workers s wid = Some w \<and> ready w}"

definition pool_ok :: "static_pool \<Rightarrow> bool" where
  "pool_ok s \<longleftrightarrow> card (dom (workers s)) \<le> unat (target_workers s) \<and> ready_count s = card (ready_ids s)
     \<and> (active s \<longrightarrow> 0 < target_workers s \<and> card (ready_ids s) = unat (target_workers s))"

lemma finite_ids: "finite (A :: u32 set)"
  by (rule finite_subset [OF subset_UNIV]) simp

lemma pool_ok_new [keeps]: "pool_ok (StaticPoolState n)"
  by (simp add: pool_ok_def StaticPoolState_def ready_ids_def)

lemma register_ok [keeps]: "pool_ok s \<Longrightarrow> pool_ok (snd (register_starting wid sh s))"
proof (cases "registered_workers s \<ge> unat (target_workers s) \<or> workers s wid \<noteq> None")
  case False
  assume ok: "pool_ok s"
  let ?s = "s\<lparr>workers := (workers s)(wid \<mapsto> \<lparr>shard = sh, ready = False\<rparr>)\<rparr>"
  have "ready_ids ?s = ready_ids s" using False by (auto simp: ready_ids_def)
  moreover have "card (dom (workers ?s)) = Suc (card (dom (workers s)))"
    using False by (auto simp: finite_ids domIff)
  ultimately show ?thesis using ok False
    by (simp add: pool_ok_def register_starting_def registered_workers_def)
qed (auto simp: register_starting_def)

lemma mark_ready_ok [keeps]: "pool_ok s \<Longrightarrow> pool_ok (snd (mark_ready wid s))"
proof (cases "\<exists>w. workers s wid = Some w \<and> \<not> ready w")
  case True
  assume ok: "pool_ok s"
  from True obtain w where w: "workers s wid = Some w" "\<not> ready w" by blast
  let ?s = "s\<lparr>workers := (workers s)(wid \<mapsto> w\<lparr>ready := True\<rparr>), ready_count := ready_count s + 1\<rparr>"
  have "ready_ids ?s = insert wid (ready_ids s)" by (auto simp: ready_ids_def)
  moreover have "wid \<notin> ready_ids s" using w by (simp add: ready_ids_def)
  ultimately have c: "card (ready_ids ?s) = Suc (card (ready_ids s))" by (simp add: finite_ids)
  have d: "dom (workers ?s) = dom (workers s)" using w(1) by auto
  have "ready_ids ?s \<subseteq> dom (workers s)" using w(1) by (auto simp: ready_ids_def)
  from card_mono [OF finite_ids this] ok c d w show ?thesis
    by (auto simp: pool_ok_def mark_ready_def)
qed (auto simp: mark_ready_def split: option.splits)

lemma activate_ok [keeps]: "pool_ok s \<Longrightarrow> pool_ok (snd (activate s))"
  by (auto simp: pool_ok_def activate_def can_activate_def ready_ids_def)

lemma pool_step_ok [keeps]: "pool_ok s \<Longrightarrow> pool_ok (pool_step op s)"
  by (cases op) (simp_all add: keeps)

lemma pool_run_ok [keeps]: "pool_ok s \<Longrightarrow> pool_ok (fold pool_step ops s)"
  by (induction ops arbitrary: s) (simp_all add: keeps)

lemma pool_step_owner: "owner_shard s wid = Some sh \<Longrightarrow> owner_shard (pool_step op s) wid = Some sh"
  by (cases op) (auto simp: owner_shard_def register_starting_def mark_ready_def activate_def split: option.splits)

lemma pool_run_owner: "owner_shard s wid = Some sh \<Longrightarrow> owner_shard (fold pool_step ops s) wid = Some sh"
  by (induction ops arbitrary: s) (simp_all add: pool_step_owner)

lemma pool_step_target: "target_workers (pool_step op s) = target_workers s"
  by (cases op) (auto simp: register_starting_def mark_ready_def activate_def split: option.splits)

lemma pool_run_target: "target_workers (fold pool_step ops s) = target_workers s"
  by (induction ops arbitrary: s) (simp_all add: pool_step_target)

section \<open>Coalescing response bodies\<close>

record queued_body =
  bytes :: "byte list"
  credit_returned_early :: bool

fun combine_count :: "nat \<Rightarrow> bool \<Rightarrow> nat \<Rightarrow> queued_body list \<Rightarrow> nat" where
  "combine_count limit early combined_size [] = 0"
| "combine_count limit early combined_size (b # bs) =
     (if credit_returned_early b \<noteq> early \<or> combined_size > limit
         \<or> length (bytes b) > sz_sub limit combined_size then 0
      else Suc (combine_count limit early (combined_size + length (bytes b)) bs))"

text \<open>The queue is not empty; \<open>None\<close> is the assertion on the byte count failing.\<close>

fun take_coalesced_response_body ::
  "queued_body list \<Rightarrow> nat \<Rightarrow> nat \<Rightarrow> (queued_body \<times> queued_body list \<times> nat) option" where
  "take_coalesced_response_body [] queued_bytes limit = None"
| "take_coalesced_response_body (r # queue) queued_bytes limit =
     (let n = combine_count limit (credit_returned_early r) (length (bytes r)) queue;
          taken = r # take n queue in
      if queued_bytes < (\<Sum>b \<leftarrow> taken. length (bytes b)) then None
      else Some (r\<lparr>bytes := concat (map bytes taken)\<rparr>, drop n queue,
                 queued_bytes - (\<Sum>b \<leftarrow> taken. length (bytes b))))"

lemma combine_count_spec:
  assumes "n = combine_count limit early sz q"
  shows "n \<le> length q" and "\<forall>b \<in> set (take n q). credit_returned_early b = early"
    and "sz + (\<Sum>b \<leftarrow> take n q. length (bytes b)) \<le> max sz limit"
    and "n < length q \<Longrightarrow> credit_returned_early (q ! n) \<noteq> early
      \<or> sz + (\<Sum>b \<leftarrow> take n q. length (bytes b)) + length (bytes (q ! n)) > limit"
proof -
  have "n \<le> length q \<and> (\<forall>b \<in> set (take n q). credit_returned_early b = early)
    \<and> sz + (\<Sum>b \<leftarrow> take n q. length (bytes b)) \<le> max sz limit
    \<and> (n < length q \<longrightarrow> credit_returned_early (q ! n) \<noteq> early
      \<or> sz + (\<Sum>b \<leftarrow> take n q. length (bytes b)) + length (bytes (q ! n)) > limit)"
    using assms
  proof (induction q arbitrary: sz n)
    case (Cons b q)
    show ?case
    proof (cases "credit_returned_early b \<noteq> early \<or> sz > limit \<or> length (bytes b) > sz_sub limit sz")
      case True
      with Cons.prems show ?thesis by (auto simp: not_le)
    next
      case False
      let ?k = "combine_count limit early (sz + length (bytes b)) q"
      from False Cons.prems have "n = Suc ?k" by auto
      with Cons.IH [OF refl, of "sz + length (bytes b)"] False show ?thesis by (auto simp: add.assoc)
    qed
  qed simp
  then show "n \<le> length q" "\<forall>b \<in> set (take n q). credit_returned_early b = early"
    "sz + (\<Sum>b \<leftarrow> take n q. length (bytes b)) \<le> max sz limit"
    "n < length q \<Longrightarrow> credit_returned_early (q ! n) \<noteq> early
      \<or> sz + (\<Sum>b \<leftarrow> take n q. length (bytes b)) + length (bytes (q ! n)) > limit" by simp_all
qed

section \<open>Clamps\<close>

definition clamp_credit_grant_threshold :: "u64 \<Rightarrow> u32 \<Rightarrow> u32" where
  "clamp_credit_grant_threshold requested window =
     (if requested = 0 then 0 else let cap = window div 4 in ucast (min requested (ucast cap)))"

definition poll_timeout_ms :: "u64 \<Rightarrow> 32 word" where
  "poll_timeout_ms timeout_ms = (if timeout_ms \<ge> 2147483647 then 2147483647 else ucast timeout_ms)"

lemma clamp_unat:
  "requested \<noteq> 0 \<Longrightarrow> unat (clamp_credit_grant_threshold requested window) = min (unat requested) (unat window div 4)"
proof -
  assume "requested \<noteq> 0"
  have "unat window < 2 ^ LENGTH(32)" by (rule unsigned_less)
  then have lt: "unat window div 4 < 2 ^ 32" by simp
  then have w: "unat (ucast (window div 4) :: u64) = unat window div 4"
    by (simp add: unat_div unsigned_ucast_eq take_bit_nat_eq_self)
  have "unat (min requested (ucast (window div 4))) = min (unat requested) (unat window div 4)"
    by (simp add: min_def word_le_nat_alt w)
  with lt \<open>requested \<noteq> 0\<close> show ?thesis
    by (simp add: clamp_credit_grant_threshold_def Let_def unsigned_ucast_eq take_bit_nat_eq_self min_def)
qed

section \<open>Properties\<close>

text \<open>For any sequence of registrations, READY transitions and activations of a fixed pool:
  it never has more than its target of workers; the READY count is the number of READY workers; a
  worker keeps the shard it was registered under; and the pool is active only with a positive
  target, all of whose workers are registered and READY.\<close>

theorem fixed_pool_invariant:
  assumes "s = fold pool_step ops (StaticPoolState n)"
  shows "registered_workers s \<le> unat n \<and> ready_count s = card {wid. \<exists>w. workers s wid = Some w \<and> ready w}
    \<and> (active s \<longrightarrow> 0 < n \<and> registered_workers s = unat n \<and> ready_count s = unat n)
    \<and> (owner_shard s wid = Some sh \<longrightarrow> owner_shard (fold pool_step later s) wid = Some sh)"
proof -
  have ok: "pool_ok s" and t: "target_workers s = n"
    by (simp_all add: assms keeps pool_run_target) (simp add: StaticPoolState_def)
  have "card (ready_ids s) \<le> card (dom (workers s))"
    by (rule card_mono [OF finite_ids]) (auto simp: ready_ids_def)
  with ok t pool_run_owner [of s wid sh later] show ?thesis
    by (auto simp: pool_ok_def registered_workers_def ready_ids_def)
qed

theorem fixed_pool_invariant_witness:
  "let s = fold pool_step [Register 7 1, MarkReady 7, Activate] (StaticPoolState 1) in
   active s \<and> ready_count s = 1 \<and> owner_shard (fold pool_step [Register 7 2] s) 7 = Some 1"
proof -
  let ?s = "fold pool_step [Register 7 1, MarkReady 7, Activate] (StaticPoolState 1)"
  have "active ?s" "owner_shard ?s 7 = Some 1"
    by (simp_all add: StaticPoolState_def register_starting_def registered_workers_def mark_ready_def activate_def
        can_activate_def owner_shard_def)
  with fixed_pool_invariant [OF refl, where ops = "[Register 7 1, MarkReady 7, Activate]" and n = 1
      and wid = 7 and sh = 1 and later = "[Register 7 2]"] show ?thesis by (simp add: Let_def)
qed

text \<open>The READY workers of a shard are listed in increasing order of their ids, exactly those
  registered under that shard, so that no worker is listed for two shards.\<close>

theorem shards_partition_ready_workers:
  "sorted (ready_workers_for_shard s sh) \<and> distinct (ready_workers_for_shard s sh)
   \<and> set (ready_workers_for_shard s sh)
       = {wid. owner_shard s wid = Some sh \<and> (\<exists>w. workers s wid = Some w \<and> ready w)}"
  by (auto simp: ready_workers_for_shard_def owner_shard_def finite_ids sorted_wrt_filter split: option.splits)

text \<open>Coalescing takes a non-empty prefix of the queue whose bodies agree on whether their
  credit was returned early, joins their bytes in order, never exceeds the limit unless the first
  body alone does, stops only where the next body differs or would not fit, and keeps the count of
  the bytes still queued right.\<close>

theorem coalescing_keeps_the_stream:
  assumes "queue \<noteq> []" and "queued_bytes = (\<Sum>b \<leftarrow> queue. length (bytes b))"
  shows "\<exists>r rest left. take_coalesced_response_body queue queued_bytes limit = Some (r, rest, left)
    \<and> bytes r @ concat (map bytes rest) = concat (map bytes queue)
    \<and> length rest < length queue \<and> suffix rest queue
    \<and> (\<forall>b \<in> set (take (length queue - length rest) queue). credit_returned_early b = credit_returned_early r)
    \<and> length (bytes r) \<le> max (length (bytes (hd queue))) limit
    \<and> left = (\<Sum>b \<leftarrow> rest. length (bytes b))
    \<and> (rest \<noteq> [] \<longrightarrow> credit_returned_early (hd rest) \<noteq> credit_returned_early r
        \<or> length (bytes r) + length (bytes (hd rest)) > limit)"
proof -
  from assms(1) obtain r0 q where queue: "queue = r0 # q" by (cases queue) auto
  define n where "n = combine_count limit (credit_returned_early r0) (length (bytes r0)) q"
  note c = combine_count_spec [OF n_def]
  have split_q: "q = take n q @ drop n q" by simp
  have sum: "(\<Sum>b \<leftarrow> q. length (bytes b)) = (\<Sum>b \<leftarrow> take n q. length (bytes b)) + (\<Sum>b \<leftarrow> drop n q. length (bytes b))"
    by (subst split_q) (simp only: map_append sum_list_append)
  have cat: "concat (map bytes q) = concat (map bytes (take n q)) @ concat (map bytes (drop n q))"
    by (subst split_q) (simp only: map_append concat_append)
  have len: "length (concat (map bytes (take n q))) = (\<Sum>b \<leftarrow> take n q. length (bytes b))"
    by (simp add: length_concat comp_def)
  let ?r = "r0\<lparr>bytes := bytes r0 @ concat (map bytes (take n q))\<rparr>"
  have res: "take_coalesced_response_body queue queued_bytes limit
      = Some (?r, drop n q, \<Sum>b \<leftarrow> drop n q. length (bytes b))"
    using assms(2) sum by (simp add: queue n_def [symmetric] Let_def)
  moreover have "suffix (drop n q) queue" by (simp add: queue suffix_ConsI suffix_drop)
  moreover have "rest \<noteq> [] \<Longrightarrow> drop n q = rest \<Longrightarrow> n < length q \<and> hd rest = q ! n" for rest
    by (metis drop_all hd_drop_conv_nth not_le)
  ultimately show ?thesis
    using c cat len c(4) by (intro exI [of _ ?r] exI [of _ "drop n q"] exI conjI) (auto simp: queue take_Cons' Suc_diff_le)
qed

theorem coalescing_keeps_the_stream_witness:
  "let q = [\<lparr>bytes = [1, 2], credit_returned_early = False\<rparr>, \<lparr>bytes = [3], credit_returned_early = False\<rparr>,
            \<lparr>bytes = [4], credit_returned_early = True\<rparr>]
   in \<exists>r rest left. take_coalesced_response_body q 4 8 = Some (r, rest, left)
     \<and> bytes r @ concat (map bytes rest) = [1, 2, 3, 4] \<and> length rest < 3"
  using coalescing_keeps_the_stream [of "[\<lparr>bytes = [1, 2], credit_returned_early = False\<rparr>,
      \<lparr>bytes = [3], credit_returned_early = False\<rparr>, \<lparr>bytes = [4], credit_returned_early = True\<rparr>]" 4 8]
  by (simp only: Let_def) (fastforce simp: eval_nat_numeral)

text \<open>The aggregation threshold is at most a quarter of the response window, so that pending
  credit always reaches it before the window is used up, and is the requested value below that;
  zero stays zero. A poll timeout is the requested one, saturated at the largest signed value, and
  never negative (which would wait forever).\<close>

theorem clamps_are_safe:
  "4 * unat (clamp_credit_grant_threshold requested window) \<le> unat window
   \<and> clamp_credit_grant_threshold 0 window = 0
   \<and> (4 * unat requested \<le> unat window \<longrightarrow> unat (clamp_credit_grant_threshold requested window) = unat requested)
   \<and> sint (poll_timeout_ms ms) = min (uint ms) 2147483647 \<and> 0 \<le> sint (poll_timeout_ms ms)"
proof -
  have "sint (poll_timeout_ms ms) = min (uint ms) 2147483647"
  proof (cases "2147483647 \<le> ms")
    case True
    then show ?thesis by (simp add: poll_timeout_ms_def word_le_def)
  next
    case False
    then have "uint ms < 2147483647" by (simp add: word_le_def not_le)
    then have "uint (ucast ms :: 32 word) = uint ms"
      by (simp add: unsigned_ucast_eq take_bit_int_eq_self)
    moreover have "- (2 ^ 31) \<le> uint ms" by (rule order_trans [OF _ uint_ge_0]) simp
    then have "signed_take_bit 31 (uint ms) = uint ms"
      using \<open>uint ms < _\<close> by (intro signed_take_bit_int_eq_self) simp_all
    ultimately show ?thesis using False \<open>uint ms < _\<close>
      by (simp add: poll_timeout_ms_def sint_uint)
  qed
  moreover have "4 * min (unat requested) (unat window div 4) \<le> unat window" by linarith
  ultimately show ?thesis
    by (cases "requested = 0") (simp_all add: clamp_unat, simp_all add: clamp_credit_grant_threshold_def min_def)
qed

theorem clamps_are_safe_witness:
  "unat (clamp_credit_grant_threshold 1000 65536) = 1000 \<and> sint (poll_timeout_ms 4294967295) = 2147483647"
  using clamps_are_safe [of 1000 65536 4294967295] by simp

end
