(* ===== verification/Ws_Codec.thy ===== *)
theory Ws_Codec
  imports Framing
begin

text \<open>
  The WebSocket framing of the Host (\<open>src/host/ws_codec.cc\<close>): the frame encoder with the masking
  of RFC 6455, the incremental parser, and the handshake key with its SHA-1 and base64. The parser
  is the second interpretation of \<open>stream_parser\<close>, once for a server that reads a client's frames
  and once for a client that reads a server's.
\<close>

abbreviation (input) kContinuation :: byte where "kContinuation \<equiv> 0"
abbreviation (input) kText :: byte where "kText \<equiv> 1"
abbreviation (input) kBinary :: byte where "kBinary \<equiv> 2"
abbreviation (input) kClose :: byte where "kClose \<equiv> 8"
abbreviation (input) kPing :: byte where "kPing \<equiv> 9"
abbreviation (input) kPong :: byte where "kPong \<equiv> 10"
abbreviation (input) kWsLimit :: nat where "kWsLimit \<equiv> 67108864"

datatype role = kServer | kClient

record ws_frame =
  fin :: bool
  opcode :: byte
  body :: "byte list"

record ws_parser =
  role :: role
  ws_buffer :: "byte list"
  ws_offset :: nat
  ws_error :: string

section \<open>Encoder\<close>

definition is_control :: "byte \<Rightarrow> bool" where
  "is_control oc \<longleftrightarrow> oc \<ge> 8"

definition valid_opcode :: "byte \<Rightarrow> bool" where
  "valid_opcode oc \<longleftrightarrow> oc = kContinuation \<or> oc = kText \<or> oc = kBinary \<or> oc = kClose \<or> oc = kPing \<or> oc = kPong"

definition append_u16_be :: "byte list \<Rightarrow> u16 \<Rightarrow> byte list" where
  "append_u16_be out v = out @ [ucast (drop_bit 8 v), ucast v]"

definition append_u64_be :: "byte list \<Rightarrow> u64 \<Rightarrow> byte list" where
  "append_u64_be out v = out @ map (\<lambda>i. ucast (drop_bit (i * 8) v)) (rev [0..<8])"

definition mask_bytes :: "u32 \<Rightarrow> byte list" where
  "mask_bytes msk = map (\<lambda>k. ucast (drop_bit (24 - k * 8) msk)) [0..<4]"

definition apply_mask :: "byte list \<Rightarrow> byte list \<Rightarrow> byte list" where
  "apply_mask m bs = map (\<lambda>i. bs ! i XOR m ! (i mod 4)) [0..<length bs]"

definition ws_encode :: "ws_frame \<Rightarrow> role \<Rightarrow> u32 \<Rightarrow> byte list option" where
  "ws_encode f r msk =
     (if \<not> valid_opcode (opcode f) then None
      else if is_control (opcode f) \<and> \<not> fin f then None
      else if is_control (opcode f) \<and> length (body f) > 125 then None
      else if r = kClient \<and> msk = 0 then None
      else if r = kServer \<and> msk \<noteq> 0 then None
      else let head0 = (if fin f then 0x80 else 0) OR (opcode f AND 0x0F);
               masked = (r = kClient);
               head1 = (if masked then 0x80 else 0 :: byte);
               n = length (body f);
               out = (if n \<le> 125 then [head0, head1 OR word_of_nat n]
                      else if n \<le> 0xFFFF then append_u16_be [head0, head1 OR 126] (word_of_nat n)
                      else append_u64_be [head0, head1 OR 127] (word_of_nat n))
           in Some (if masked then out @ mask_bytes msk @ apply_mask (mask_bytes msk) (body f)
                    else out @ body f))"

section \<open>Parser\<close>

definition WsParser :: "role \<Rightarrow> ws_parser" where
  "WsParser r = \<lparr>role = r, ws_buffer = [], ws_offset = 0, ws_error = ''''\<rparr>"

definition ws_append :: "ws_parser \<Rightarrow> span \<Rightarrow> bool \<times> ws_parser" where
  "ws_append p data =
     (if ws_error p \<noteq> '''' then (False, p)
      else if span_size data = 0 then (True, p)
      else if span_null data then (False, p\<lparr>ws_error := ''invalid parser input''\<rparr>)
      else let p = p\<lparr>ws_buffer := ws_buffer p @ span_bytes data\<rparr> in
      if sz_sub (length (ws_buffer p)) (ws_offset p) > kWsLimit
      then (False, p\<lparr>ws_error := ''frame buffer limit exceeded''\<rparr>)
      else (True, p))"

text \<open>\<open>next\<close> reads the two header bytes, the length field and then the frame.\<close>

definition head_error :: "role \<Rightarrow> byte list \<Rightarrow> string option" where
  "head_error r header =
     (let oc = header ! 0 AND 0x0F; final = (header ! 0 AND 0x80 \<noteq> 0); masked = (header ! 1 AND 0x80 \<noteq> 0) in
      if header ! 0 AND 0x70 \<noteq> 0 then Some ''reserved bits set''
      else if \<not> valid_opcode oc then Some ''reserved opcode''
      else if is_control oc \<and> \<not> final then Some ''fragmented control frame''
      else if r = kServer \<and> \<not> masked then Some ''client frame not masked''
      else if r = kClient \<and> masked then Some ''server frame must not be masked''
      else None)"

text \<open>The payload length and the size of the header, or \<open>None\<close> when the field is not complete.\<close>

definition frame_length :: "nat \<Rightarrow> byte list \<Rightarrow> (u64 \<times> nat) option" where
  "frame_length buffered header =
     (let n = ucast (header ! 1 AND 0x7F) in
      if n = 126 then
        (if buffered < 4 then None
         else Some (push_bit 8 (ucast (header ! 2)) OR ucast (header ! 3), 4))
      else if n = 127 then
        (if buffered < 10 then None
         else Some (foldl (\<lambda>l i. push_bit 8 l OR ucast (header ! i)) 0 [2..<10], 10))
      else Some (n, 2))"

definition take_frame :: "ws_parser \<Rightarrow> byte list \<Rightarrow> nat \<Rightarrow> nat \<Rightarrow> nat \<Rightarrow> ws_frame \<times> ws_parser" where
  "take_frame p header header_size mask_size n =
     (let frame_size = header_size + mask_size + n;
          raw = take n (drop (header_size + mask_size) header);
          p = p\<lparr>ws_offset := ws_offset p + frame_size\<rparr> in
      (\<lparr>fin = (header ! 0 AND 0x80 \<noteq> 0), opcode = header ! 0 AND 0x0F,
        body = (if mask_size = 0 then raw else apply_mask (drop header_size header) raw)\<rparr>,
       if ws_offset p = length (ws_buffer p) then p\<lparr>ws_buffer := [], ws_offset := 0\<rparr> else p))"

definition ws_next :: "ws_parser \<Rightarrow> ws_frame parse_result \<times> ws_parser" where
  "ws_next p =
     (if ws_error p \<noteq> '''' then (kParseError, p)
      else let buffered = sz_sub (length (ws_buffer p)) (ws_offset p) in
      if buffered < 2 then (kParseNeedMore, p)
      else let header = drop (ws_offset p) (ws_buffer p) in
      case head_error (role p) header of
        Some e \<Rightarrow> (kParseError, p\<lparr>ws_error := e\<rparr>)
      | None \<Rightarrow>
          (case frame_length buffered header of
             None \<Rightarrow> (kParseNeedMore, p)
           | Some (n, header_size) \<Rightarrow>
               if is_control (header ! 0 AND 0x0F) \<and> n > 125
               then (kParseError, p\<lparr>ws_error := ''control frame payload limit''\<rparr>)
               else if n > 67108864 then (kParseError, p\<lparr>ws_error := ''frame payload limit exceeded''\<rparr>)
               else let mask_size = (if header ! 1 AND 0x80 \<noteq> 0 then 4 else 0) in
               if buffered < header_size + mask_size + unat n then (kParseNeedMore, p)
               else case take_frame p header header_size mask_size (unat n) of
                      (f, p') \<Rightarrow> (kParseFrame f, p')))"

section \<open>Reference decoder\<close>

definition ws_decode :: "role \<Rightarrow> byte list \<Rightarrow> ws_frame decoded" where
  "ws_decode r bs =
     (if length bs < 2 then More
      else if head_error r bs \<noteq> None then Bad
      else case frame_length (length bs) bs of
             None \<Rightarrow> More
           | Some (n, h) \<Rightarrow>
               let ms = (if r = kServer then 4 else 0); raw = take (unat n) (drop (h + ms) bs) in
               if is_control (bs ! 0 AND 0x0F) \<and> n > 125 \<or> n > 67108864 then Bad
               else if length bs < h + ms + unat n then More
               else Got \<lparr>fin = (bs ! 0 AND 0x80 \<noteq> 0), opcode = bs ! 0 AND 0x0F,
                         body = (if r = kServer then apply_mask (drop h bs) raw else raw)\<rparr> (h + ms + unat n))"

definition ws_pending :: "ws_parser \<Rightarrow> byte list" where
  "ws_pending p = drop (ws_offset p) (ws_buffer p)"

definition ws_ok :: "role \<Rightarrow> ws_parser \<Rightarrow> bool" where
  "ws_ok r p \<longleftrightarrow> role p = r \<and> ws_error p = '''' \<and> ws_offset p \<le> length (ws_buffer p)"

lemma head_masked:
  "head_error r h = None \<Longrightarrow> (h ! 1 AND 0x80 \<noteq> 0) = (r = kServer)"
  by (cases r) (auto simp: head_error_def Let_def split: if_splits)

lemma ws_next_decode:
  assumes ok: "ws_ok r p"
  shows "case ws_decode r (ws_pending p) of
      More \<Rightarrow> ws_next p = (kParseNeedMore, p)
    | Got f n \<Rightarrow> \<exists>p'. ws_next p = (kParseFrame f, p') \<and> ws_ok r p' \<and> ws_pending p' = drop n (ws_pending p)
        \<and> n \<le> length (ws_pending p)
    | Bad \<Rightarrow> fst (ws_next p) = kParseError"
proof -
  let ?bs = "ws_pending p"
  have len: "sz_sub (length (ws_buffer p)) (ws_offset p) = length ?bs" "drop (ws_offset p) (ws_buffer p) = ?bs"
    and p: "ws_error p = ''''" "role p = r" "ws_offset p \<le> length (ws_buffer p)"
    using ok by (simp_all add: ws_ok_def ws_pending_def)
  show ?thesis
  proof (cases "length ?bs < 2 \<or> head_error r ?bs \<noteq> None")
    case True
    then show ?thesis by (auto simp: ws_decode_def ws_next_def len p)
  next
    case False
    then have two: "\<not> length ?bs < 2" and good: "head_error r ?bs = None" by simp_all
    show ?thesis
    proof (cases "frame_length (length ?bs) ?bs")
      case None
      with two good show ?thesis by (simp add: ws_decode_def ws_next_def len p)
    next
      case (Some a)
      obtain n h where a: "a = (n, h)" by fastforce
      let ?ms = "if r = kServer then 4 else (0 :: nat)"
      have ms: "(if ?bs ! 1 AND 0x80 \<noteq> 0 then 4 else 0) = ?ms" using head_masked [OF good] by simp
      have next_p: "ws_next p =
        (if is_control (?bs ! 0 AND 0x0F) \<and> n > 125
         then (kParseError, p\<lparr>ws_error := ''control frame payload limit''\<rparr>)
         else if n > 67108864 then (kParseError, p\<lparr>ws_error := ''frame payload limit exceeded''\<rparr>)
         else if length ?bs < h + ?ms + unat n then (kParseNeedMore, p)
         else case take_frame p ?bs h ?ms (unat n) of (f, p') \<Rightarrow> (kParseFrame f, p'))"
        unfolding ws_next_def Let_def len p using two good Some a ms by simp
      let ?p' = "snd (take_frame p ?bs h ?ms (unat n))"
      have "h + ?ms + unat n \<le> length ?bs \<Longrightarrow> ws_ok r ?p' \<and> ws_pending ?p' = drop (h + ?ms + unat n) ?bs"
        using p by (auto simp: take_frame_def ws_ok_def ws_pending_def Let_def ac_simps)
      then show ?thesis
        unfolding ws_decode_def next_p using two good Some a
        by (auto simp: Let_def take_frame_def split: prod.splits)
    qed
  qed
qed

section \<open>Bits of the header\<close>

lemma low7:
  fixes w :: byte
  assumes "unat w < 128"
  shows "(0x80 OR w) AND 0x7F = w" "(0x80 OR w) AND 0x80 \<noteq> 0" "w AND 0x7F = w" "w AND 0x80 = 0"
proof -
  have "w = take_bit 7 w"
    using assms by (simp add: word_unat_eq_iff unsigned_take_bit_eq take_bit_nat_eq_self)
  then have hi: "bit w n \<Longrightarrow> n < 7" for n by (metis bit_take_bit_iff)
  have b80: "bit (0x80 :: byte) n \<longleftrightarrow> n = 7" for n
    using bit_exp_iff [where 'a = "8 word", of 7 n] by auto
  have b7f: "bit (0x7F :: byte) n \<longleftrightarrow> n < 7" for n
    using bit_mask_iff [where 'a = "8 word", of 7 n] by (auto simp: mask_eq_exp_minus_1)
  show "(0x80 OR w) AND 0x7F = w"
    by (rule bit_word_eqI) (use hi in \<open>auto simp only: bit_or_iff bit_and_iff b80 b7f\<close>)
  show "w AND 0x7F = w"
    by (rule bit_word_eqI) (use hi in \<open>auto simp only: bit_and_iff b7f\<close>)
  show "w AND 0x80 = 0"
    by (rule bit_word_eqI) (use hi in \<open>force simp only: bit_and_iff b80 bit_0_eq bot_apply bot_bool_def\<close>)
  have "bit ((0x80 OR w) AND 0x80) 7" by (simp add: bit_or_iff bit_and_iff b80)
  then show "(0x80 OR w) AND 0x80 \<noteq> 0" by auto
qed

lemma head0_bits:
  assumes "valid_opcode oc"
  shows "((if f then 0x80 else 0) OR (oc AND 0x0F)) AND 0x0F = oc"
    "(((if f then 0x80 else 0) OR (oc AND 0x0F)) AND 0x80 \<noteq> 0) = f"
    "((if f then 0x80 else 0) OR (oc AND 0x0F)) AND 0x70 = 0"
  using assms by (auto simp: valid_opcode_def)

lemma be_u16: "push_bit 8 (ucast (ucast (drop_bit 8 v) :: byte)) OR ucast (ucast v :: byte) = (ucast (v :: u16) :: u64)"
  by (rule bit_word_eqI) (auto simp: bit_simps dest: bit_imp_le_length)

lemma be_u64:
  assumes "length header \<ge> 10" and "map ((!) header) [2..<10] = rev (le_bytes 8 (v :: u64))"
  shows "foldl (\<lambda>l i. push_bit 8 l OR ucast (header ! i)) 0 [2..<10] = v"
proof -
  have "foldl (\<lambda>l i. push_bit 8 l OR ucast (header ! i)) (0 :: u64) [2..<10] =
    foldl (\<lambda>l b. push_bit 8 l OR ucast b) 0 (map ((!) header) [2..<10])" by (simp add: foldl_map)
  also have "\<dots> = foldr (\<lambda>b l. push_bit 8 l OR ucast b) (le_bytes 8 v) 0"
    unfolding assms(2) by (simp add: foldl_conv_foldr)
  also have "\<dots> = le_word 8 (le_bytes 8 v)"
    unfolding le_word_def le_bytes_def upt_8
    by (simp add: push_bit_or or.assoc or.commute or.left_commute)
  also have "\<dots> = v" using le_word_bytes [of 8 v "[]"] by simp
  finally show ?thesis .
qed

section \<open>Round trip\<close>

definition peer :: "role \<Rightarrow> role" where
  "peer r = (case r of kServer \<Rightarrow> kClient | kClient \<Rightarrow> kServer)"

text \<open>The bytes before the mask, for a frame that goes to a receiver in role \<open>r\<close>.\<close>

definition ws_head :: "role \<Rightarrow> ws_frame \<Rightarrow> byte list" where
  "ws_head r f =
     (let head0 = (if fin f then 0x80 else 0) OR (opcode f AND 0x0F);
          head1 = (if r = kServer then 0x80 else 0 :: byte); n = length (body f) in
      if n \<le> 125 then [head0, head1 OR word_of_nat n]
      else if n \<le> 0xFFFF then [head0, head1 OR 126] @ rev (le_bytes 2 (word_of_nat n :: u16))
      else [head0, head1 OR 127] @ rev (le_bytes 8 (word_of_nat n :: u64)))"

definition ws_rest :: "role \<Rightarrow> u32 \<Rightarrow> ws_frame \<Rightarrow> byte list" where
  "ws_rest r msk f = (if r = kServer then mask_bytes msk @ apply_mask (mask_bytes msk) (body f) else body f)"

text \<open>A frame its sender may encode and its receiver can buffer.\<close>

definition ws_sendable :: "role \<Rightarrow> ws_frame \<times> u32 \<Rightarrow> bool" where
  "ws_sendable r e \<longleftrightarrow> (case e of (f, msk) \<Rightarrow> valid_opcode (opcode f)
     \<and> (is_control (opcode f) \<longrightarrow> fin f \<and> length (body f) \<le> 125)
     \<and> (r = kServer) = (msk \<noteq> 0) \<and> length (body f) \<le> kWsLimit - 65536 - 14)"

lemma append_be: "append_u16_be out v = out @ rev (le_bytes 2 v)" "append_u64_be out w = out @ rev (le_bytes 8 w)"
  by (simp_all add: append_u16_be_def append_u64_be_def le_bytes_def rev_map upt_2)

lemma ws_encode_eq:
  "ws_sendable r (f, msk) \<Longrightarrow> ws_encode f (peer r) msk = Some (ws_head r f @ ws_rest r msk f)"
  by (cases r) (auto simp: ws_sendable_def ws_encode_def peer_def ws_head_def ws_rest_def append_be Let_def)

lemma length_apply_mask [simp]: "length (apply_mask m bs) = length bs"
  by (simp add: apply_mask_def)

lemma length_mask_bytes [simp]: "length (mask_bytes msk) = 4"
  by (simp add: mask_bytes_def)

lemma apply_mask_twice:
  assumes "\<And>i. i < 4 \<Longrightarrow> m' ! i = m ! i"
  shows "apply_mask m' (apply_mask m bs) = bs"
  by (rule nth_equalityI) (auto simp: apply_mask_def assms xor.assoc)

lemma ws_head_bytes:
  "ws_head r f ! 0 = (if fin f then 0x80 else 0) OR (opcode f AND 0x0F)" "2 \<le> length (ws_head r f)"
  by (auto simp: ws_head_def Let_def nth_append)

lemma ws_head_byte1:
  "ws_head r f ! 1 = (if r = kServer then 0x80 else 0) OR
     (if length (body f) \<le> 125 then word_of_nat (length (body f)) else if length (body f) \<le> 0xFFFF then 126 else 127)"
  by (auto simp: ws_head_def Let_def nth_append)

lemma byte1_low:
  assumes "b = (if r = kServer then 0x80 else 0) OR (w :: byte)" and "unat w < 128"
  shows "b AND 0x7F = w" and "(b AND 0x80 \<noteq> 0) = (r = kServer)"
  using low7 [OF assms(2)] assms(1) by (auto split: if_splits)

lemma head_error_encoded:
  assumes "ws_sendable r (f, msk)" and "take 2 bs = take 2 (ws_head r f)" and "2 \<le> length bs"
  shows "head_error r bs = None" and "bs ! 0 AND 0x0F = opcode f" and "(bs ! 0 AND 0x80 \<noteq> 0) = fin f"
    and "bs ! 1 = ws_head r f ! 1"
proof -
  have b: "bs ! 0 = ws_head r f ! 0" "bs ! 1 = ws_head r f ! 1"
    using assms(2,3) ws_head_bytes(2) [of r f] by (metis nth_take zero_less_numeral, metis nth_take one_less_numeral_iff semiring_norm(76))
  then show "bs ! 1 = ws_head r f ! 1" by simp
  have v: "valid_opcode (opcode f)" using assms(1) by (simp add: ws_sendable_def)
  let ?w = "if length (body f) \<le> 125 then word_of_nat (length (body f)) else if length (body f) \<le> 0xFFFF then 126 else 127 :: byte"
  have "unat ?w < 128" by (simp add: unat_of_nat)
  from byte1_low(2) [OF ws_head_byte1 this] have m: "(bs ! 1 AND 0x80 \<noteq> 0) = (r = kServer)"
    unfolding b(2) by simp
  from head0_bits [OF v, of "fin f"] b(1) show oc: "bs ! 0 AND 0x0F = opcode f" "(bs ! 0 AND 0x80 \<noteq> 0) = fin f"
    by (simp_all add: ws_head_bytes)
  have "bs ! 0 AND 0x70 = 0" using head0_bits(3) [OF v, of "fin f"] b(1) by (simp add: ws_head_bytes)
  with oc m v assms(1) show "head_error r bs = None"
    by (cases r) (auto simp: head_error_def ws_sendable_def Let_def)
qed

lemma length_ws_head:
  "length (ws_head r f) = (if length (body f) \<le> 125 then 2 else if length (body f) \<le> 0xFFFF then 4 else 10)"
  by (simp add: ws_head_def Let_def)

lemma byte1_length:
  "ws_head r f ! 1 AND 0x7F =
     (if length (body f) \<le> 125 then word_of_nat (length (body f)) else if length (body f) \<le> 0xFFFF then 126 else 127)"
  by (rule byte1_low(1) [OF ws_head_byte1]) (simp add: unat_of_nat)

lemma frame_length_encoded:
  assumes "ws_sendable r (f, msk)"
  shows "frame_length (length (ws_head r f @ t)) (ws_head r f @ t)
    = Some (word_of_nat (length (body f)), length (ws_head r f))"
proof -
  let ?n = "length (body f)" and ?bs = "ws_head r f @ t"
  have b1: "?bs ! 1 = ws_head r f ! 1" using ws_head_bytes(2) [of r f] by (simp add: nth_append)
  consider "?n \<le> 125" | "\<not> ?n \<le> 125" "?n \<le> 0xFFFF" | "\<not> ?n \<le> 0xFFFF" by linarith
  then show ?thesis
  proof cases
    case 1
    have "ucast (word_of_nat ?n :: byte) = (word_of_nat ?n :: u64)"
      using 1 by (simp add: word_unat_eq_iff unsigned_ucast_eq unat_of_nat take_bit_nat_eq_self)
    moreover have "(word_of_nat ?n :: u64) \<noteq> 126" "(word_of_nat ?n :: u64) \<noteq> 127"
      using 1 by (simp_all add: word_unat_eq_iff unat_of_nat)
    ultimately show ?thesis using 1 unfolding frame_length_def b1 byte1_length
      by (simp add: length_ws_head Let_def)
  next
    case 2
    let ?v = "word_of_nat ?n :: u16"
    have bytes: "?bs ! 2 = ucast (drop_bit 8 ?v)" "?bs ! 3 = ucast ?v"
      using 2 by (simp_all add: ws_head_def Let_def le_bytes_def upt_2 nth_append)
    have "(ucast ?v :: u64) = word_of_nat ?n"
      using 2 by (simp add: word_unat_eq_iff unsigned_ucast_eq unat_of_nat take_bit_nat_eq_self)
    with 2 show ?thesis unfolding frame_length_def b1 byte1_length bytes be_u16
      by (simp add: length_ws_head Let_def)
  next
    case 3
    let ?v = "word_of_nat ?n :: u64"
    have "length ?bs \<ge> 10" using 3 by (simp add: length_ws_head)
    moreover have "map ((!) ?bs) [2..<10] = rev (le_bytes 8 ?v)"
      using 3 by (simp add: ws_head_def Let_def le_bytes_def upt_8 upt_rec)
    ultimately have "foldl (\<lambda>l i. push_bit 8 l OR ucast (?bs ! i)) 0 [2..<10] = ?v" by (rule be_u64)
    with 3 show ?thesis unfolding frame_length_def b1 byte1_length
      by (simp add: length_ws_head Let_def)
  qed
qed

lemma frame_length_short:
  assumes "2 \<le> n" and "n < length (ws_head r f)"
  shows "frame_length n (take n (ws_head r f)) = None"
proof -
  have b1: "take n (ws_head r f) ! 1 = ws_head r f ! 1" using assms(1) by simp
  show ?thesis using assms unfolding frame_length_def b1 byte1_length
    by (simp add: length_ws_head Let_def split: if_splits)
qed

lemma sendable_length:
  "ws_sendable r (f, msk) \<Longrightarrow> unat (word_of_nat (length (body f)) :: u64) = length (body f)
     \<and> \<not> (word_of_nat (length (body f)) :: u64) > 67108864
     \<and> (is_control (opcode f) \<longrightarrow> \<not> (word_of_nat (length (body f)) :: u64) > 125)"
  by (auto simp: ws_sendable_def unat_of_nat word_less_nat_alt)

lemma ws_decode_head:
  assumes s: "ws_sendable r (f, msk)"
  shows "ws_decode r (ws_head r f @ t) =
    (let ms = (if r = kServer then 4 else 0); n = length (body f); raw = take n (drop ms t) in
     if length t < ms + n then More
     else Got \<lparr>fin = fin f, opcode = opcode f, body = (if r = kServer then apply_mask t raw else raw)\<rparr>
       (length (ws_head r f) + ms + n))"
proof -
  let ?bs = "ws_head r f @ t"
  have two: "2 \<le> length ?bs" "take 2 ?bs = take 2 (ws_head r f)" using ws_head_bytes(2) [of r f] by simp_all
  note h = head_error_encoded [OF s two(2,1)]
  note n = sendable_length [OF s]
  have d: "drop (length (ws_head r f) + k) ?bs = drop k t" "drop (length (ws_head r f)) ?bs = t" for k by simp_all
  show ?thesis
    unfolding ws_decode_def frame_length_encoded [OF s] h(1,2) Let_def option.case prod.case d
    using two(1) n h(3) by (simp add: add.assoc)
qed

lemma ws_decode_encoded:
  assumes s: "ws_sendable r (f, msk)"
  shows "ws_decode r (ws_head r f @ ws_rest r msk f @ rest) = Got f (length (ws_head r f @ ws_rest r msk f))"
proof -
  have "apply_mask (mask_bytes msk @ apply_mask (mask_bytes msk) (body f) @ rest)
      (apply_mask (mask_bytes msk) (body f)) = body f"
    by (rule apply_mask_twice) (simp add: nth_append)
  then show ?thesis
    unfolding ws_decode_head [OF s] by (cases r) (simp_all add: ws_rest_def Let_def)
qed

lemma length_ws_rest: "length (ws_rest r msk f) = (if r = kServer then 4 else 0) + length (body f)"
  by (simp add: ws_rest_def)

lemma ws_decode_short:
  assumes s: "ws_sendable r (f, msk)" and "strict_prefix bs (ws_head r f @ ws_rest r msk f)"
  shows "ws_decode r bs = More"
proof -
  let ?h = "ws_head r f"
  have bs: "bs = take (length bs) (?h @ ws_rest r msk f)" "length bs < length (?h @ ws_rest r msk f)"
    using strict_prefix_cases_length [OF assms(2)] by blast+
  show ?thesis
  proof (cases "length ?h \<le> length bs")
    case True
    then have "bs = ?h @ take (length bs - length ?h) (ws_rest r msk f)" using bs(1) by simp
    moreover have "length bs - length ?h < length (ws_rest r msk f)" using bs(2) True by simp
    ultimately obtain t where "bs = ?h @ t" "length t < length (ws_rest r msk f)"
      by (metis length_take min.absorb4)
    then show ?thesis by (simp add: ws_decode_head [OF s] length_ws_rest Let_def)
  next
    case False
    then have h: "bs = take (length bs) ?h" using bs(1) by simp
    show ?thesis
    proof (cases "length bs < 2")
      case long: False
      then have "take 2 bs = take 2 ?h" "2 \<le> length bs" by (subst h, simp, simp)
      from head_error_encoded(1) [OF s this] frame_length_short [of "length bs" r f] long False h
      show ?thesis by (simp add: ws_decode_def)
    qed (simp add: ws_decode_def)
  qed
qed

interpretation ws: stream_parser
  "\<lambda>(f, msk). the (ws_encode f (peer r) msk)" fst "ws_sendable r" "ws_decode r" "kWsLimit - 65536"
  "ws_ok r" ws_pending kWsLimit ws_append ws_next for r
proof (unfold_locales, goal_cases)
  case (1 e rest) then show ?case by (cases e) (simp add: ws_encode_eq ws_decode_encoded)
next
  case (2 e bs) then show ?case by (cases e) (simp add: ws_encode_eq ws_decode_short)
next
  case (3 e)
  then show ?case by (cases e) (auto simp: ws_encode_eq length_ws_head length_ws_rest, auto simp: ws_sendable_def)
next
  case (4 p d)
  then show ?case by (auto simp: ws_append_def ws_ok_def ws_pending_def Let_def)
next
  case (5 p) with ws_next_decode [OF 5(1)] show ?case by simp
next
  case (6 p f n) with ws_next_decode [OF 6(1)] show ?case by auto
next
  case 7 show ?case by (simp add: ws_decode_def)
qed

section \<open>The handshake key\<close>

record sha1 =
  h :: "u32 list"
  total_bytes :: u64
  block :: "byte list"

text \<open>\<open>block\<close> holds the first \<open>used\<close> bytes of the source's 64-byte block.\<close>

definition Sha1 :: sha1 where
  "Sha1 = \<lparr>h = [0x67452301, 0xEFCDAB89, 0x98BADCFE, 0x10325476, 0xC3D2E1F0], total_bytes = 0, block = []\<rparr>"

definition rol :: "u32 \<Rightarrow> nat \<Rightarrow> u32" where
  "rol v bits = push_bit bits v OR drop_bit (32 - bits) v"

definition big_word :: "byte list \<Rightarrow> nat \<Rightarrow> u32" where
  "big_word chunk i = push_bit 24 (ucast (chunk ! (i * 4))) OR push_bit 16 (ucast (chunk ! (i * 4 + 1)))
     OR push_bit 8 (ucast (chunk ! (i * 4 + 2))) OR ucast (chunk ! (i * 4 + 3))"

definition schedule :: "byte list \<Rightarrow> u32 list" where
  "schedule chunk = foldl (\<lambda>w i. w @ [rol (w ! (i - 3) XOR w ! (i - 8) XOR w ! (i - 14) XOR w ! (i - 16)) 1])
     (map (big_word chunk) [0..<16]) [16..<80]"

fun sha1_round :: "u32 list \<Rightarrow> u32 \<times> u32 \<times> u32 \<times> u32 \<times> u32 \<Rightarrow> nat \<Rightarrow> u32 \<times> u32 \<times> u32 \<times> u32 \<times> u32" where
  "sha1_round w (a, b, c, d, e) i =
     (let (f, k) =
        (if i < 20 then ((b AND c) OR (NOT b AND d), 0x5A827999)
         else if i < 40 then (b XOR c XOR d, 0x6ED9EBA1)
         else if i < 60 then ((b AND c) OR (b AND d) OR (c AND d), 0x8F1BBCDC)
         else (b XOR c XOR d, 0xCA62C1D6))
      in (rol a 5 + f + e + k + w ! i, a, rol b 30, c, d))"

definition sha1_process :: "u32 list \<Rightarrow> byte list \<Rightarrow> u32 list" where
  "sha1_process hs chunk =
     (case foldl (sha1_round (schedule chunk)) (hs ! 0, hs ! 1, hs ! 2, hs ! 3, hs ! 4) [0..<80] of
        (a, b, c, d, e) \<Rightarrow> [hs ! 0 + a, hs ! 1 + b, hs ! 2 + c, hs ! 3 + d, hs ! 4 + e])"

text \<open>The loop of \<open>update\<close>; \<open>used\<close> is below 64 whenever it is entered.\<close>

function sha1_absorb :: "u32 list \<Rightarrow> byte list \<Rightarrow> byte list \<Rightarrow> u32 list \<times> byte list" where
  "sha1_absorb hs blk data =
     (if data = [] \<or> 64 \<le> length blk then (hs, blk)
      else let n = (if 64 - length blk < length data then 64 - length blk else length data);
               blk = blk @ take n data; data = drop n data in
           if length blk = 64 then sha1_absorb (sha1_process hs blk) [] data
           else sha1_absorb hs blk data)"
  by pat_completeness auto
termination by (relation "measure (\<lambda>(_, _, data). length data)") auto

declare sha1_absorb.simps [simp del]

definition sha1_update :: "sha1 \<Rightarrow> byte list \<Rightarrow> sha1" where
  "sha1_update s data =
     (case sha1_absorb (h s) (block s) data of
        (hs, blk) \<Rightarrow> s\<lparr>total_bytes := total_bytes s + word_of_nat (length data), h := hs, block := blk\<rparr>)"

text \<open>\<open>while (used != 56) update(&zero, 1)\<close>, which takes at most 63 steps.\<close>

fun pad_zeros :: "nat \<Rightarrow> sha1 \<Rightarrow> sha1" where
  "pad_zeros 0 s = s"
| "pad_zeros (Suc fuel) s = (if length (block s) \<noteq> 56 then pad_zeros fuel (sha1_update s [0]) else s)"

definition word_bytes :: "u32 \<Rightarrow> byte list" where
  "word_bytes x = [ucast (drop_bit 24 x), ucast (drop_bit 16 x), ucast (drop_bit 8 x), ucast x]"

definition sha1_digest :: "sha1 \<Rightarrow> byte list" where
  "sha1_digest s =
     (let bits = total_bytes s * 8;
          s = sha1_update s [0x80];
          s = pad_zeros 64 s;
          length_bytes = map (\<lambda>i. ucast (drop_bit (56 - i * 8) bits)) [0..<8];
          s = sha1_update s length_bytes
      in concat (map word_bytes (h s)))"

definition kBase64Alphabet :: string where
  "kBase64Alphabet = ''ABCDEFGHIJKLMNOPQRSTUVWXYZabcdefghijklmnopqrstuvwxyz0123456789+/''"

definition base64_digit :: "u32 \<Rightarrow> nat \<Rightarrow> char" where
  "base64_digit v s = kBase64Alphabet ! unat (drop_bit s v AND 63)"

fun base64_encode :: "byte list \<Rightarrow> string" where
  "base64_encode (a # b # c # rest) =
     (let v = push_bit 16 (ucast a) OR push_bit 8 (ucast b) OR ucast c
      in [base64_digit v 18, base64_digit v 12, base64_digit v 6, base64_digit v 0] @ base64_encode rest)"
| "base64_encode [a, b] =
     (let v = push_bit 16 (ucast a) OR push_bit 8 (ucast b)
      in [base64_digit v 18, base64_digit v 12, base64_digit v 6, CHR ''='' ])"
| "base64_encode [a] = (let v = push_bit 16 (ucast a) in [base64_digit v 18, base64_digit v 12, CHR ''='', CHR ''=''])"
| "base64_encode [] = ''''"

definition compute_accept_key :: "string \<Rightarrow> string" where
  "compute_accept_key client_key =
     base64_encode (sha1_digest (sha1_update (sha1_update Sha1 (bytes_of_text client_key))
       (bytes_of_text ''258EAFA5-E914-47DA-95CA-C5AB0DC85B11'')))"

definition base64_char :: "char \<Rightarrow> bool" where
  "base64_char c \<longleftrightarrow> CHR ''A'' \<le> c \<and> c \<le> CHR ''Z'' \<or> CHR ''a'' \<le> c \<and> c \<le> CHR ''z''
     \<or> CHR ''0'' \<le> c \<and> c \<le> CHR ''9'' \<or> c = CHR ''+'' \<or> c = CHR ''/''"

definition validate_client_key :: "string \<Rightarrow> bool" where
  "validate_client_key key =
     (if length key \<noteq> 24 \<or> key ! 22 \<noteq> CHR ''='' \<or> key ! 23 \<noteq> CHR ''='' then False
      else list_all (\<lambda>i. base64_char (key ! i)) [0..<22])"

text \<open>The hash as RFC 3174 states it: pad the whole message, cut it into blocks, process them.\<close>

function blocks64 :: "byte list \<Rightarrow> byte list list" where
  "blocks64 bs = (if length bs < 64 then [] else take 64 bs # blocks64 (drop 64 bs))"
  by pat_completeness auto
termination by (relation "measure length") auto

declare blocks64.simps [simp del]

definition zeros :: "nat \<Rightarrow> nat" where
  "zeros n = (if n mod 64 \<le> 56 then 56 - n mod 64 else 120 - n mod 64)"

definition sha1_pad :: "byte list \<Rightarrow> byte list" where
  "sha1_pad msg = msg @ [0x80] @ replicate (zeros (length msg + 1)) 0
     @ map (\<lambda>i. ucast (drop_bit (56 - i * 8) (word_of_nat (length msg) * 8 :: u64))) [0..<8]"

definition sha1_reference :: "byte list \<Rightarrow> byte list" where
  "sha1_reference msg = concat (map word_bytes (foldl sha1_process (h Sha1) (blocks64 (sha1_pad msg))))"

definition leftover :: "byte list \<Rightarrow> byte list" where
  "leftover bs = drop (length bs div 64 * 64) bs"

lemma leftover_short: "length (leftover bs) < 64" "length bs < 64 \<Longrightarrow> leftover bs = bs"
  by (simp_all add: leftover_def minus_div_mult_eq_mod)

lemma leftover_block: "length x = 64 \<Longrightarrow> leftover (x @ y) = leftover y"
proof -
  assume x: "length x = 64"
  then have "length (x @ y) div 64 = Suc (length y div 64)" by simp
  with x show ?thesis by (simp add: leftover_def)
qed

lemma blocks64_block: "length x = 64 \<Longrightarrow> blocks64 (x @ y) = x # blocks64 y"
  by (subst blocks64.simps) simp

lemma blocks64_short: "length x < 64 \<Longrightarrow> blocks64 x = []"
  by (subst blocks64.simps) simp

lemma split_block:
  assumes "\<not> length bs < 64"
  obtains x y where "bs = x @ y" "length x = 64" "y = drop 64 bs"
  using assms that [of "take 64 bs" "drop 64 bs"] by simp

lemma length_leftover: "length (leftover bs) = length bs mod 64"
  by (simp add: leftover_def minus_div_mult_eq_mod)

lemma sha1_absorb_blocks:
  assumes "length blk < 64"
  shows "sha1_absorb hs blk data = (foldl sha1_process hs (blocks64 (blk @ data)), leftover (blk @ data))"
  using assms
proof (induction hs blk data rule: sha1_absorb.induct)
  case (1 hs blk data)
  show ?case
  proof (cases "data = []")
    case True
    with 1(3) show ?thesis by (simp add: sha1_absorb.simps blocks64_short leftover_short(2))
  next
    case False
    show ?thesis
    proof (cases "64 - length blk < length data \<or> length blk + length data = 64")
      case True
      let ?n = "64 - length blk"
      have n: "(if ?n < length data then ?n else length data) = ?n" using True by auto
      have full: "length (blk @ take ?n data) = 64" using True 1(3) by auto
      have split: "blk @ data = (blk @ take ?n data) @ drop ?n data" by simp
      have "sha1_absorb hs blk data = sha1_absorb (sha1_process hs (blk @ take ?n data)) [] (drop ?n data)"
        using False 1(3) full n by (subst sha1_absorb.simps) (simp add: Let_def)
      also have "\<dots> = (foldl sha1_process (sha1_process hs (blk @ take ?n data)) (blocks64 (drop ?n data)),
          leftover (drop ?n data))"
        using 1(1) [OF _ refl _ _] False 1(3) full n by (simp add: Let_def)
      also have "\<dots> = (foldl sha1_process hs (blocks64 (blk @ data)), leftover (blk @ data))"
        by (simp only: split blocks64_block [OF full] leftover_block [OF full] foldl.simps)
      finally show ?thesis .
    next
      case small: False
      then have len: "length blk + length data < 64" using 1(3) by linarith
      have "sha1_absorb hs blk data = sha1_absorb hs (blk @ data) []"
        using False 1(3) len by (subst sha1_absorb.simps) (simp add: Let_def)
      with len show ?thesis by (simp add: sha1_absorb.simps blocks64_short leftover_short(2))
    qed
  qed
qed

text \<open>A state has absorbed a message.\<close>

definition absorbed :: "byte list \<Rightarrow> sha1 \<Rightarrow> bool" where
  "absorbed msg s \<longleftrightarrow> h s = foldl sha1_process (h Sha1) (blocks64 msg) \<and> block s = leftover msg
     \<and> total_bytes s = word_of_nat (length msg)"

lemma blocks64_append: "blocks64 (msg @ data) = blocks64 msg @ blocks64 (leftover msg @ data)"
proof (induction msg rule: blocks64.induct)
  case (1 msg)
  show ?case
  proof (cases "length msg < 64")
    case False
    then obtain x y where xy: "msg = x @ y" "length x = 64" "y = drop 64 msg" by (rule split_block)
    note 1 [OF False, folded xy(3)]
    then show ?thesis unfolding xy(1) by (simp add: blocks64_block [OF xy(2)] leftover_block [OF xy(2)])
  qed (simp add: leftover_short(2) blocks64_short)
qed

lemma leftover_append: "leftover (msg @ data) = leftover (leftover msg @ data)"
proof (induction msg rule: blocks64.induct)
  case (1 msg)
  show ?case
  proof (cases "length msg < 64")
    case False
    then obtain x y where xy: "msg = x @ y" "length x = 64" "y = drop 64 msg" by (rule split_block)
    note 1 [OF False, folded xy(3)]
    then show ?thesis unfolding xy(1) by (simp add: leftover_block [OF xy(2)])
  qed (simp add: leftover_short(2))
qed

lemma absorbed_update: "absorbed msg s \<Longrightarrow> absorbed (msg @ data) (sha1_update s data)"
  by (simp add: absorbed_def sha1_update_def sha1_absorb_blocks leftover_short(1) blocks64_append [of msg data]
      leftover_append [of msg data] split: prod.splits)

lemma absorbed_new: "absorbed [] Sha1"
  by (simp add: absorbed_def Sha1_def blocks64.simps leftover_def)

lemma pad_zeros_absorbed:
  "absorbed msg s \<Longrightarrow> zeros (length msg) \<le> fuel \<Longrightarrow>
     absorbed (msg @ replicate (zeros (length msg)) 0) (pad_zeros fuel s)"
proof (induction fuel arbitrary: msg s)
  case (Suc fuel)
  have len: "length (block s) = length msg mod 64" using Suc.prems(1) by (simp add: absorbed_def length_leftover)
  show ?case
  proof (cases "length msg mod 64 = 56")
    case True
    then show ?thesis using Suc.prems len by (simp add: zeros_def)
  next
    case False
    have z: "zeros (length msg) = Suc (zeros (length (msg @ [0])))"
      using False mod_less_divisor [of 64 "length msg"] by (auto simp: zeros_def mod_Suc)
    with Suc.IH [OF absorbed_update [OF Suc.prems(1), of "[0]"]] Suc.prems(2) False len show ?thesis by simp
  qed
qed (simp add: zeros_def split: if_splits)

lemma sha1_digest_reference:
  assumes "absorbed msg s"
  shows "sha1_digest s = sha1_reference msg"
proof -
  let ?lb = "map (\<lambda>i. ucast (drop_bit (56 - i * 8) (total_bytes s * 8))) [0..<8] :: byte list"
  have z: "zeros (length (msg @ [0x80])) \<le> 64" unfolding zeros_def by (simp, linarith)
  have "absorbed ((msg @ [0x80]) @ replicate (zeros (length (msg @ [0x80]))) 0) (pad_zeros 64 (sha1_update s [0x80]))"
    by (rule pad_zeros_absorbed [OF absorbed_update [OF assms] z])
  from absorbed_update [OF this, of ?lb] assms show ?thesis
    by (simp add: sha1_digest_def sha1_reference_def sha1_pad_def absorbed_def Let_def)
qed

lemma length_base64_encode: "length (base64_encode bs) = (length bs + 2) div 3 * 4"
  by (induction bs rule: base64_encode.induct) (simp_all add: Let_def, presburger)

lemma length_sha1_process [simp]: "length (sha1_process hs chunk) = 5"
  by (simp add: sha1_process_def split: prod.splits)

lemma length_sha1_reference: "length (sha1_reference msg) = 20"
proof -
  have five: "length (foldl sha1_process hs cs) = 5" if "length hs = 5" for hs cs
    using that by (induction cs arbitrary: hs) simp_all
  have "length (concat (map word_bytes ws)) = 4 * length ws" for ws
    by (induction ws) (simp_all add: word_bytes_def)
  then show ?thesis by (simp add: sha1_reference_def five Sha1_def)
qed

section \<open>Properties\<close>

text \<open>C33: A stream of encoded WebSocket frames, masked when a client sends them and unmasked when
  a server does, cut into reads of at most 64 KiB at any places, is received by the other side as
  exactly those frames, unmasked and in order.\<close>

theorem ws_frames_survive_chunking:
  assumes "\<forall>e \<in> set es. ws_sendable r e"
    and "received reads = concat (map (\<lambda>(f, msk). the (ws_encode f (peer r) msk)) es)"
    and "\<forall>x \<in> set reads. short_read 65536 x" and "length es < fuel"
    and "handle_all handle (map fst es) s = Some s'"
  shows "\<exists>q. read_input ws_append ws_next handle fuel False (WsParser r) s reads = Some (False, q, s')
    \<and> ws_error q = '''' \<and> ws_pending q = []"
proof -
  have "ws_ok r (WsParser r)" "ws_pending (WsParser r) = []"
    by (simp_all add: ws_ok_def WsParser_def ws_pending_def)
  from ws.read_input_whole [OF this assms(2) [folded ws.stream_def] assms(1,3) _ assms(4,5)] show ?thesis
    by (auto simp: ws_ok_def)
qed

theorem ws_frames_survive_chunking_witness:
  "let f = \<lparr>fin = True, opcode = kText, body = replicate 300 7\<rparr>;
       w = the (ws_encode f kClient 0x12345678)
   in \<exists>q. read_input ws_append ws_next (\<lambda>f s. Some (s @ [f])) 2 False (WsParser kServer) []
        [Data (take 3 w), Data (drop 3 w)] = Some (False, q, [f])"
proof -
  let ?f = "\<lparr>fin = True, opcode = kText, body = replicate 300 7\<rparr>"
  let ?w = "the (ws_encode ?f kClient 0x12345678)"
  have s: "ws_sendable kServer (?f, 0x12345678)"
    by (simp add: ws_sendable_def valid_opcode_def is_control_def word_le_def)
  then have "?w = ws_head kServer ?f @ ws_rest kServer 0x12345678 ?f"
    using ws_encode_eq [OF s] by (simp add: peer_def)
  then have "length ?w = 308" by (simp add: length_ws_head length_ws_rest)
  with s ws_frames_survive_chunking [of "[(?f, 0x12345678)]" kServer
      "[Data (take 3 ?w), Data (drop 3 ?w)]" 2 "\<lambda>f s. Some (s @ [f])" "[]"]
  show ?thesis by (simp add: Let_def peer_def) blast
qed

text \<open>Every frame a WebSocket parser hands over obeys RFC 6455: a known opcode, control frames
  whole and of at most 125 bytes, and a payload of at most 64 MiB; the bytes consumed are the front
  of the buffer.\<close>

theorem ws_frame_wellformed:
  assumes "ws_ok r p" and "ws_next p = (kParseFrame f, q)"
  shows "valid_opcode (opcode f) \<and> (is_control (opcode f) \<longrightarrow> fin f \<and> length (body f) \<le> 125)
    \<and> length (body f) \<le> kWsLimit \<and> ws_ok r q \<and> suffix (ws_pending q) (ws_pending p)
    \<and> length (ws_pending q) < length (ws_pending p)"
proof -
  from ws_next_decode [OF assms(1)] assms(2) obtain n where
    got: "ws_decode r (ws_pending p) = Got f n" and q: "ws_ok r q" "ws_pending q = drop n (ws_pending p)"
    by (auto split: decoded.splits)
  from got obtain m hs where fl: "frame_length (length (ws_pending p)) (ws_pending p) = Some (m, hs)"
    by (auto simp: ws_decode_def split: if_splits option.splits)
  then have hs: "2 \<le> hs" by (auto simp: frame_length_def Let_def split: if_splits)
  from got fl have "head_error r (ws_pending p) = None" "unat m \<le> kWsLimit"
    "is_control (opcode f) \<longrightarrow> unat m \<le> 125" "length (body f) \<le> unat m"
    "opcode f = ws_pending p ! 0 AND 0x0F" "fin f = (ws_pending p ! 0 AND 0x80 \<noteq> 0)"
    "2 \<le> n" "n \<le> length (ws_pending p)"
    using hs by (auto simp: ws_decode_def Let_def word_less_nat_alt not_less split: if_splits)
  moreover from this(1,5,6) have "valid_opcode (opcode f)" "is_control (opcode f) \<longrightarrow> fin f"
    by (auto simp: head_error_def Let_def split: if_splits)
  ultimately show ?thesis using q by (auto simp: suffix_drop)
qed

theorem ws_frame_wellformed_witness:
  "let p = (WsParser kClient)\<lparr>ws_buffer := [0x81, 1, 65]\<rparr> in
   ws_next p = (kParseFrame \<lparr>fin = True, opcode = 1, body = [65]\<rparr>, WsParser kClient)
   \<and> valid_opcode 1 \<and> \<not> is_control 1"
proof -
  let ?p = "(WsParser kClient)\<lparr>ws_buffer := [0x81, 1, 65]\<rparr>"
  have n: "ws_next ?p = (kParseFrame \<lparr>fin = True, opcode = 1, body = [65]\<rparr>, WsParser kClient)"
    by (simp add: ws_next_def WsParser_def head_error_def frame_length_def take_frame_def valid_opcode_def
        is_control_def Let_def sz_sub_def)
  have "ws_ok kClient ?p" by (simp add: ws_ok_def WsParser_def)
  from ws_frame_wellformed [OF this n] n show ?thesis by (simp add: Let_def is_control_def word_le_def)
qed

text \<open>C30: The handshake key is the base64 form of the SHA-1 digest, as RFC 3174 defines it on the
  whole padded message, of the client's key followed by the protocol's GUID: hashing in pieces
  through the 64-byte block and padding byte by byte gives the same digest. It has 28 characters.\<close>

theorem accept_key_is_sha1:
  "compute_accept_key client_key =
     base64_encode (sha1_reference (bytes_of_text (client_key @ ''258EAFA5-E914-47DA-95CA-C5AB0DC85B11'')))
   \<and> length (compute_accept_key client_key) = 28"
proof -
  let ?guid = "''258EAFA5-E914-47DA-95CA-C5AB0DC85B11''"
  have "absorbed (bytes_of_text (client_key @ ?guid))
      (sha1_update (sha1_update Sha1 (bytes_of_text client_key)) (bytes_of_text ?guid))"
    using absorbed_update [OF absorbed_update [OF absorbed_new], of "bytes_of_text client_key" "bytes_of_text ?guid"]
    by (simp add: bytes_of_text_def)
  from sha1_digest_reference [OF this] show ?thesis
    by (simp add: compute_accept_key_def length_base64_encode length_sha1_reference)
qed

definition two_byte_read :: "ws_parser \<Rightarrow> ws_parser" where
  "two_byte_read p = snd (ws_next (snd (ws_append p (Bytes [0x00, 0x81]))))"

lemma two_byte_read_step:
  assumes "p = \<lparr>role = kClient, ws_buffer = b @ [0x81], ws_offset = length b, ws_error = ''''\<rparr>"
  shows "two_byte_read p = \<lparr>role = kClient, ws_buffer = b @ [0x81, 0x00, 0x81], ws_offset = length b + 2, ws_error = ''''\<rparr>"
  unfolding assms
  by (simp add: two_byte_read_def ws_append_def ws_next_def head_error_def frame_length_def take_frame_def
      valid_opcode_def is_control_def word_le_def Let_def sz_sub_def)

text \<open>Consumed frames stay in the buffer of a WebSocket parser for as long as each read ends
  inside a frame: after any number of two-byte reads, each completing one frame and beginning the
  next, a single byte is pending and every byte ever received is still stored.\<close>

theorem ws_buffer_keeps_consumed_bytes:
  "let p = (two_byte_read ^^ k) (snd (ws_append (WsParser kClient) (Bytes [0x81]))) in
   length (ws_buffer p) = 2 * k + 1 \<and> length (ws_pending p) = 1 \<and> ws_error p = ''''"
proof -
  have "\<exists>b. length b = 2 * k \<and> (two_byte_read ^^ k) (snd (ws_append (WsParser kClient) (Bytes [0x81])))
      = \<lparr>role = kClient, ws_buffer = b @ [0x81], ws_offset = length b, ws_error = ''''\<rparr>"
  proof (induction k)
    case 0
    show ?case by (simp add: ws_append_def WsParser_def sz_sub_def)
  next
    case (Suc k)
    then obtain b where b: "length b = 2 * k" "(two_byte_read ^^ k) (snd (ws_append (WsParser kClient) (Bytes [0x81])))
      = \<lparr>role = kClient, ws_buffer = b @ [0x81], ws_offset = length b, ws_error = ''''\<rparr>" by blast
    from two_byte_read_step [OF b(2)] b(1) show ?case
      by (intro exI [of _ "b @ [0x81, 0x00]"]) simp
  qed
  then show ?thesis by (auto simp: Let_def ws_pending_def)
qed

end
