(* ===== verification/Egress_Policy.thy ===== *)
theory Egress_Policy
  imports Capsid_Prelude
begin

text \<open>
  The worker's egress policy (\<open>src/egress_policy.cc\<close>): how a policy descriptor is compiled into
  rules and how a host name or an address is decided, with the two gates that consult it
  (\<open>egress_check\<close> and \<open>binding_egress_check\<close> of \<open>src/worker_runtime.cc\<close>). The C library's
  \<open>inet_pton\<close> is a parameter: \<open>pton4\<close> and \<open>pton6\<close> give the address bytes of a text or \<open>None\<close>.
  \<open>pd_size_ok\<close> and \<open>rd_shape_ok\<close> stand for the checks of the descriptors' sizes (and, in a rule, of
  its reserved field and its pointer), which have no counterpart in a list of records.
\<close>

section \<open>Types\<close>

datatype egress_action = CAPSID_EGRESS_DENY | CAPSID_EGRESS_ALLOW

datatype deny_reason = kNone | kNoMatch | kExplicitDeny | kProtected

record decision =
  allowed :: bool
  decision_rule :: u32
  why :: deny_reason

datatype family = AF_UNSPEC | AF_INET | AF_INET6

record rule =
  action :: egress_action
  address :: bool
  wildcard :: bool
  family :: family
  network :: "byte list"
  prefix_length :: nat
  port_start :: u16
  port_end :: u16
  rule_id :: u32
  host :: string

record policy =
  default_action :: egress_action
  rules :: "rule list"

record rule_descriptor =
  rd_shape_ok :: bool
  rd_action :: u32
  rd_target :: string
  rd_port_start :: u16
  rd_port_end :: u16
  rd_rule_id :: u32

record policy_descriptor =
  pd_size_ok :: bool
  pd_default_action :: u32
  pd_reserved :: u32
  pd_rules :: "rule_descriptor list"

abbreviation (input) EgressDecision :: "bool \<Rightarrow> u32 \<Rightarrow> deny_reason \<Rightarrow> decision" where
  "EgressDecision a r w \<equiv> \<lparr>allowed = a, decision_rule = r, why = w\<rparr>"

abbreviation (input) no_decision :: decision where "no_decision \<equiv> EgressDecision False 0 kNone"

definition egress_action_of :: "u32 \<Rightarrow> egress_action option" where
  "egress_action_of v = (if v = 0 then Some CAPSID_EGRESS_DENY else if v = 1 then Some CAPSID_EGRESS_ALLOW else None)"

section \<open>Ports, names and prefixes\<close>

definition valid_port_range :: "u16 \<Rightarrow> u16 \<Rightarrow> bool" where
  "valid_port_range start stop \<longleftrightarrow> (start = 0 \<and> stop = 0) \<or> (start \<noteq> 0 \<and> stop \<ge> start)"

definition port_matches :: "u16 \<Rightarrow> u16 \<Rightarrow> u16 \<Rightarrow> bool" where
  "port_matches start stop port \<longleftrightarrow> start = 0 \<or> (port \<ge> start \<and> port \<le> stop)"

text \<open>One character of a label, lower-cased.\<close>

definition host_char :: "char \<Rightarrow> char option" where
  "host_char c =
     (if CHR ''A'' \<le> c \<and> c \<le> CHR ''Z'' then Some (char_of (of_char c + 32 :: nat))
      else if CHR ''a'' \<le> c \<and> c \<le> CHR ''z'' \<or> CHR ''0'' \<le> c \<and> c \<le> CHR ''9'' \<or> c = CHR ''-'' then Some c
      else None)"

definition bad_label :: "string \<Rightarrow> bool" where
  "bad_label l \<longleftrightarrow> length l = 0 \<or> length l > 63 \<or> hd l = CHR ''-'' \<or> last l = CHR ''-''"

fun scan_labels :: "string \<Rightarrow> string \<Rightarrow> string option" where
  "scan_labels label [] = (if bad_label label then None else Some label)"
| "scan_labels label (c # cs) =
     (if c \<noteq> CHR ''.'' then
        (case host_char c of None \<Rightarrow> None | Some d \<Rightarrow> scan_labels (label @ [d]) cs)
      else if bad_label label then None
      else map_option (\<lambda>rest. label @ CHR ''.'' # rest) (scan_labels [] cs))"

definition normalize_hostname :: "string \<Rightarrow> bool \<Rightarrow> (string \<times> bool) option" where
  "normalize_hostname input allow_wildcard =
     (if input = '''' then None
      else let value = (if length input > 1 \<and> last input = CHR ''.'' then butlast input else input);
               star = (take 2 value = ''*.'') in
      if star \<and> \<not> allow_wildcard then None
      else let value = (if star then drop 2 value else value) in
      if value = '''' \<or> length value > 253 \<or> CHR ''*'' \<in> set value then None
      else map_option (\<lambda>h. (h, star)) (scan_labels [] value))"

definition prefix_matches :: "byte list \<Rightarrow> byte list \<Rightarrow> nat \<Rightarrow> bool" where
  "prefix_matches addr net p =
     (let whole_bytes = p div 8; remaining = p mod 8 in
      if whole_bytes \<noteq> 0 \<and> take whole_bytes addr \<noteq> take whole_bytes net then False
      else if remaining = 0 then True
      else let m = push_bit (8 - remaining) 0xFF in
        addr ! whole_bytes AND m = net ! whole_bytes AND m)"

definition network_is_canonical :: "byte list \<Rightarrow> nat \<Rightarrow> nat \<Rightarrow> bool" where
  "network_is_canonical addr sz p =
     (let whole_bytes = p div 8; remaining = p mod 8;
          tail_start = whole_bytes + (if remaining = 0 then 0 else 1) in
      if remaining \<noteq> 0 \<and> addr ! whole_bytes AND (push_bit (8 - remaining) 1 - 1) \<noteq> 0 then False
      else list_all (\<lambda>i. addr ! i = 0) [tail_start..<sz])"

definition is_ipv4_mapped :: "byte list \<Rightarrow> bool" where
  "is_ipv4_mapped addr \<longleftrightarrow> take 12 addr = [0, 0, 0, 0, 0, 0, 0, 0, 0, 0, 0xFF, 0xFF]"

definition ipv4_value :: "byte list \<Rightarrow> u32" where
  "ipv4_value b = push_bit 24 (ucast (b ! 0)) OR push_bit 16 (ucast (b ! 1)) OR push_bit 8 (ucast (b ! 2)) OR ucast (b ! 3)"

definition is_protected_ipv4 :: "byte list \<Rightarrow> bool" where
  "is_protected_ipv4 b =
     (let v = ipv4_value b in
      v AND 0xff000000 = 0x00000000 \<or> v AND 0xff000000 = 0x0a000000 \<or> v AND 0xffc00000 = 0x64400000
      \<or> v AND 0xff000000 = 0x7f000000 \<or> v AND 0xffff0000 = 0xa9fe0000 \<or> v AND 0xfff00000 = 0xac100000
      \<or> v AND 0xffffff00 = 0xc0000000 \<or> v AND 0xffffff00 = 0xc0000200 \<or> v AND 0xffff0000 = 0xc0a80000
      \<or> v AND 0xfffe0000 = 0xc6120000 \<or> v AND 0xffffff00 = 0xc6336400 \<or> v AND 0xffffff00 = 0xcb007100
      \<or> v AND 0xf0000000 = 0xe0000000 \<or> v AND 0xf0000000 = 0xf0000000)"

definition is_protected_ipv6 :: "byte list \<Rightarrow> bool" where
  "is_protected_ipv6 b =
     (if is_ipv4_mapped b then is_protected_ipv4 (drop 12 b)
      else if take 12 b = replicate 12 0 then True
      else if b ! 0 AND 0xfe = 0xfc \<or> (b ! 0 = 0xfe \<and> b ! 1 AND 0xc0 = 0x80) \<or> b ! 0 = 0xff then True
      else if take 8 b = [1, 0, 0, 0, 0, 0, 0, 0] then True
      else take 4 b = [0x20, 0x01, 0x0d, 0xb8])"

definition host_rule_matches :: "string \<Rightarrow> string \<Rightarrow> bool \<Rightarrow> bool" where
  "host_rule_matches h pattern star =
     (if \<not> star then h = pattern
      else length h > length pattern + 1 \<and> h ! (length h - length pattern - 1) = CHR ''.''
        \<and> drop (length h - length pattern) h = pattern)"

text \<open>The text a C function sees of a string: up to the first NUL.\<close>

definition c_str :: "string \<Rightarrow> string" where
  "c_str s = takeWhile (\<lambda>c. of_char c \<noteq> (0 :: nat)) s"

definition parse_numeric ::
  "(string \<Rightarrow> byte list option) \<Rightarrow> (string \<Rightarrow> byte list option) \<Rightarrow> string \<Rightarrow> (family \<times> byte list) option" where
  "parse_numeric pton4 pton6 input =
     (let value = (if length input \<ge> 2 \<and> hd input = CHR ''['' \<and> last input = CHR '']''
                   then take (length input - 2) (drop 1 input) else input) in
      case pton4 (c_str value) of
        Some b \<Rightarrow> Some (AF_INET, b)
      | None \<Rightarrow> (case pton6 (c_str value) of Some b \<Rightarrow> Some (AF_INET6, b) | None \<Rightarrow> None))"

text \<open>
  \<open>strtoul\<close> in base 10: white space, a sign, digits; the value (negated modulo the width for a
  minus sign), the rest of the text and whether it was out of range. Without digits the whole text
  is the rest.
\<close>

definition is_space :: "char \<Rightarrow> bool" where
  "is_space c \<longleftrightarrow> of_char c \<in> {9, 10, 11, 12, 13, 32 :: nat}"

definition is_digit :: "char \<Rightarrow> bool" where
  "is_digit c \<longleftrightarrow> CHR ''0'' \<le> c \<and> c \<le> CHR ''9''"

definition digits_value :: "string \<Rightarrow> nat" where
  "digits_value ds = foldl (\<lambda>v c. v * 10 + (of_char c - 48)) 0 ds"

definition strtoul :: "string \<Rightarrow> nat \<times> string \<times> bool" where
  "strtoul s =
     (let t = dropWhile is_space s;
          neg = (t \<noteq> [] \<and> hd t = CHR ''-'');
          u = (if t \<noteq> [] \<and> (hd t = CHR ''-'' \<or> hd t = CHR ''+'') then tl t else t);
          ds = takeWhile is_digit u; v = digits_value ds in
      if ds = [] then (0, s, False)
      else if v > size_max then (size_max, drop (length ds) u, True)
      else (if neg \<and> v \<noteq> 0 then size_max + 1 - v else v, drop (length ds) u, False))"

section \<open>Compiling a policy\<close>

text \<open>The target of a rule: a CIDR, a numeric address or a host name pattern.\<close>

definition compile_target ::
  "(string \<Rightarrow> byte list option) \<Rightarrow> (string \<Rightarrow> byte list option) \<Rightarrow> string \<Rightarrow> rule \<Rightarrow> string + rule" where
  "compile_target pton4 pton6 target r =
     (if CHR ''/'' \<in> set target then
        (let address_text = takeWhile (\<lambda>c. c \<noteq> CHR ''/'') target;
             prefix_text = drop (length address_text + 1) target in
         if CHR ''/'' \<in> set prefix_text \<or> address_text = '''' \<or> prefix_text = ''''
         then Inl ''invalid egress CIDR''
         else case strtoul prefix_text of
           (p, rest, out_of_range) \<Rightarrow>
             (case parse_numeric pton4 pton6 address_text of
                None \<Rightarrow> Inl ''invalid or non-canonical egress CIDR''
              | Some (f, bytes) \<Rightarrow>
                  if out_of_range \<or> rest \<noteq> '''' \<or> (f = AF_INET \<and> p > 32) \<or> (f = AF_INET6 \<and> p > 128)
                     \<or> (f = AF_INET6 \<and> is_ipv4_mapped bytes)
                     \<or> \<not> network_is_canonical bytes (if f = AF_INET then 4 else 16) (p mod 256)
                  then Inl ''invalid or non-canonical egress CIDR''
                  else Inr (r\<lparr>address := True, family := f, network := bytes, prefix_length := p mod 256\<rparr>)))
      else case parse_numeric pton4 pton6 target of
        Some (f, bytes) \<Rightarrow>
          if f = AF_INET6 \<and> is_ipv4_mapped bytes
          then Inr (r\<lparr>address := True, family := AF_INET, network := drop 12 bytes, prefix_length := 32\<rparr>)
          else Inr (r\<lparr>address := True, family := f, network := bytes,
                      prefix_length := (if f = AF_INET then 32 else 128)\<rparr>)
      | None \<Rightarrow>
          (case normalize_hostname target True of
             None \<Rightarrow> Inl ''invalid egress hostname pattern''
           | Some (h, star) \<Rightarrow> Inr (r\<lparr>host := h, wildcard := star\<rparr>)))"

definition new_rule :: rule where
  "new_rule = \<lparr>action = CAPSID_EGRESS_DENY, address = False, wildcard = False, family = AF_UNSPEC,
     network = replicate 16 0, prefix_length = 0, port_start = 0, port_end = 0, rule_id = 0, host = ''''\<rparr>"

fun compile_rules ::
  "(string \<Rightarrow> byte list option) \<Rightarrow> (string \<Rightarrow> byte list option) \<Rightarrow> nat \<Rightarrow> u32 set \<Rightarrow> rule_descriptor list
     \<Rightarrow> string + rule list" where
  "compile_rules pton4 pton6 index ids [] = Inr []"
| "compile_rules pton4 pton6 index ids (src # rest) =
     (case egress_action_of (rd_action src) of
        None \<Rightarrow> Inl ''invalid egress rule descriptor''
      | Some act \<Rightarrow>
          if \<not> rd_shape_ok src \<or> \<not> valid_port_range (rd_port_start src) (rd_port_end src)
          then Inl ''invalid egress rule descriptor''
          else if length (rd_target src) = 0 \<or> length (rd_target src) > 253
          then Inl ''invalid egress rule target length''
          else if rd_rule_id src \<noteq> 0 \<and> rd_rule_id src \<in> ids then Inl ''duplicate egress rule_id''
          else case compile_target pton4 pton6 (rd_target src)
                 (new_rule\<lparr>action := act, port_start := rd_port_start src, port_end := rd_port_end src,
                    rule_id := (if rd_rule_id src \<noteq> 0 then rd_rule_id src else word_of_nat (index + 1))\<rparr>) of
                 Inl e \<Rightarrow> Inl e
               | Inr r \<Rightarrow>
                   (case compile_rules pton4 pton6 (index + 1)
                           (if rd_rule_id src \<noteq> 0 then insert (rd_rule_id src) ids else ids) rest of
                      Inl e \<Rightarrow> Inl e
                    | Inr rs \<Rightarrow> Inr (r # rs)))"

definition EgressPolicy_configure ::
  "(string \<Rightarrow> byte list option) \<Rightarrow> (string \<Rightarrow> byte list option) \<Rightarrow> policy_descriptor option \<Rightarrow> string + policy" where
  "EgressPolicy_configure pton4 pton6 d =
     (case d of
        None \<Rightarrow> Inr \<lparr>default_action = CAPSID_EGRESS_DENY, rules = []\<rparr>
      | Some d \<Rightarrow>
          if \<not> pd_size_ok d then Inl ''invalid egress policy struct_size''
          else case egress_action_of (pd_default_action d) of
             None \<Rightarrow> Inl ''invalid egress policy descriptor''
           | Some act \<Rightarrow>
               if pd_reserved d \<noteq> 0 \<or> length (pd_rules d) > 256 then Inl ''invalid egress policy descriptor''
               else case compile_rules pton4 pton6 0 {} (pd_rules d) of
                      Inl e \<Rightarrow> Inl e
                    | Inr rs \<Rightarrow> Inr \<lparr>default_action = act, rules = rs\<rparr>)"

section \<open>Decisions\<close>

text \<open>
  The loop that \<open>decide_host\<close> and \<open>decide_address\<close> share: a matching deny rule decides at once, the
  first matching allow rule is remembered. \<open>None\<close> when no rule matches.
\<close>

fun scan_rules :: "(rule \<Rightarrow> bool) \<Rightarrow> bool \<Rightarrow> u32 \<Rightarrow> rule list \<Rightarrow> decision option" where
  "scan_rules matches found allow_rule_id [] =
     (if found then Some (EgressDecision True allow_rule_id kNone) else None)"
| "scan_rules matches found allow_rule_id (r # rs) =
     (if \<not> matches r then scan_rules matches found allow_rule_id rs
      else if action r = CAPSID_EGRESS_DENY then Some (EgressDecision False (rule_id r) kExplicitDeny)
      else scan_rules matches True (if allow_rule_id = 0 then rule_id r else allow_rule_id) rs)"

definition host_match :: "string \<Rightarrow> u16 \<Rightarrow> rule \<Rightarrow> bool" where
  "host_match h port r \<longleftrightarrow> \<not> address r \<and> port_matches (port_start r) (port_end r) port
     \<and> host_rule_matches h (host r) (wildcard r)"

definition address_match :: "byte list \<Rightarrow> family \<Rightarrow> u16 \<Rightarrow> rule \<Rightarrow> bool" where
  "address_match bytes f port r \<longleftrightarrow> address r \<and> family r = f \<and> port_matches (port_start r) (port_end r) port
     \<and> prefix_matches bytes (network r) (prefix_length r)"

definition by_default :: "policy \<Rightarrow> decision" where
  "by_default p = EgressDecision (default_action p = CAPSID_EGRESS_ALLOW) 0
     (if default_action p = CAPSID_EGRESS_ALLOW then kNone else kNoMatch)"

definition is_protected :: "family \<Rightarrow> byte list \<Rightarrow> bool" where
  "is_protected f bytes \<longleftrightarrow> (f = AF_INET \<and> is_protected_ipv4 bytes) \<or> (f = AF_INET6 \<and> is_protected_ipv6 bytes)"

definition decide_address :: "policy \<Rightarrow> byte list \<Rightarrow> family \<Rightarrow> u16 \<Rightarrow> bool \<Rightarrow> bool \<Rightarrow> decision" where
  "decide_address p bytes f port apply_default protect_unmatched =
     (case scan_rules (address_match bytes f port) False 0 (rules p) of
        Some d \<Rightarrow> d
      | None \<Rightarrow>
          if protect_unmatched \<and> is_protected f bytes then EgressDecision False 0 kProtected
          else if apply_default then by_default p
          else EgressDecision True 0 kNone)"

definition decide_host ::
  "(string \<Rightarrow> byte list option) \<Rightarrow> (string \<Rightarrow> byte list option) \<Rightarrow> policy \<Rightarrow> string \<Rightarrow> u16 \<Rightarrow> decision" where
  "decide_host pton4 pton6 p input port =
     (if port = 0 then no_decision
      else case parse_numeric pton4 pton6 input of
        Some (f, bytes) \<Rightarrow>
          if f = AF_INET6 \<and> is_ipv4_mapped bytes then decide_address p (drop 12 bytes) AF_INET port True True
          else decide_address p bytes f port True True
      | None \<Rightarrow>
          (case normalize_hostname input False of
             None \<Rightarrow> no_decision
           | Some (h, _) \<Rightarrow>
               (case scan_rules (host_match h port) False 0 (rules p) of
                  Some d \<Rightarrow> d
                | None \<Rightarrow> by_default p)))"

definition decide_host_any_port ::
  "(string \<Rightarrow> byte list option) \<Rightarrow> (string \<Rightarrow> byte list option) \<Rightarrow> policy \<Rightarrow> string \<Rightarrow> decision" where
  "decide_host_any_port pton4 pton6 p input =
     (let first_allow = (\<lambda>matches. case find (\<lambda>r. action r = CAPSID_EGRESS_ALLOW \<and> matches r) (rules p) of
            Some r \<Rightarrow> EgressDecision True (rule_id r) kNone
          | None \<Rightarrow> by_default p) in
      case parse_numeric pton4 pton6 input of
        Some (f, bytes) \<Rightarrow>
          (let (f, bytes) = (if f = AF_INET6 \<and> is_ipv4_mapped bytes then (AF_INET, drop 12 bytes) else (f, bytes)) in
           first_allow (\<lambda>r. address r \<and> family r = f \<and> prefix_matches bytes (network r) (prefix_length r)))
      | None \<Rightarrow>
          (case normalize_hostname input False of
             None \<Rightarrow> no_decision
           | Some (h, _) \<Rightarrow> first_allow (\<lambda>r. \<not> address r \<and> host_rule_matches h (host r) (wildcard r))))"

text \<open>A socket address: its family, address bytes and port; \<open>None\<close> for any other shape.\<close>

type_synonym sockaddr = "(family \<times> byte list \<times> u16) option"

definition decide_resolved_address_impl :: "policy \<Rightarrow> sockaddr \<Rightarrow> u16 \<Rightarrow> bool \<Rightarrow> decision" where
  "decide_resolved_address_impl p sa expected_port protect_unmatched =
     (if expected_port = 0 then no_decision
      else case sa of
        Some (AF_INET, bytes, port) \<Rightarrow>
          if port \<noteq> expected_port then no_decision
          else decide_address p bytes AF_INET expected_port False protect_unmatched
      | Some (AF_INET6, bytes, port) \<Rightarrow>
          if port \<noteq> expected_port then no_decision
          else if is_ipv4_mapped bytes
          then decide_address p (drop 12 bytes) AF_INET expected_port False protect_unmatched
          else decide_address p bytes AF_INET6 expected_port False protect_unmatched
      | _ \<Rightarrow> no_decision)"

definition decide_resolved_address :: "policy \<Rightarrow> sockaddr \<Rightarrow> u16 \<Rightarrow> decision" where
  "decide_resolved_address p sa port = decide_resolved_address_impl p sa port True"

definition decide_resolved_address_authoritative :: "policy \<Rightarrow> sockaddr \<Rightarrow> u16 \<Rightarrow> decision" where
  "decide_resolved_address_authoritative p sa port = decide_resolved_address_impl p sa port False"

datatype permission_state = DENIED | GRANTED | PARTIAL | UNAVAILABLE

definition EgressPolicy_query_state :: "policy \<Rightarrow> permission_state" where
  "EgressPolicy_query_state p =
     (let has_allow = (default_action p = CAPSID_EGRESS_ALLOW \<or> (\<exists>r \<in> set (rules p). action r = CAPSID_EGRESS_ALLOW));
          has_deny = (default_action p = CAPSID_EGRESS_DENY \<or> (\<exists>r \<in> set (rules p). action r = CAPSID_EGRESS_DENY)) in
      if has_allow \<and> has_deny then PARTIAL else if has_allow then GRANTED else DENIED)"

section \<open>The gates\<close>

text \<open>
  \<open>egress_check\<close>: the capability policy's net policy when it is enabled (\<open>capability\<close>), and the
  legacy policy as well when it is configured; the host stage first, then the address when there is
  one. The second component is the audit record: whether it allows, the rule and the stage.
\<close>

definition egress_stage :: "(policy \<Rightarrow> decision) \<Rightarrow> policy option \<Rightarrow> bool \<Rightarrow> policy \<Rightarrow> bool \<times> u32" where
  "egress_stage decide capability legacy_configured egress =
     (let d = (case capability of Some net \<Rightarrow> decide net | None \<Rightarrow> decide egress) in
      if \<not> allowed d then (False, decision_rule d)
      else if capability \<noteq> None \<and> legacy_configured \<and> \<not> allowed (decide egress)
      then (False, decision_rule (decide egress))
      else (True, decision_rule d))"

definition egress_check ::
  "(string \<Rightarrow> byte list option) \<Rightarrow> (string \<Rightarrow> byte list option) \<Rightarrow> policy option \<Rightarrow> bool \<Rightarrow> policy
     \<Rightarrow> string option \<Rightarrow> u16 \<Rightarrow> sockaddr option \<Rightarrow> bool \<times> (bool \<times> u32 \<times> string) option" where
  "egress_check pton4 pton6 capability legacy_configured egress h port sa =
     (case h of
        None \<Rightarrow> (False, None)
      | Some h \<Rightarrow>
          if port = 0 then (False, None)
          else case egress_stage (\<lambda>p. decide_host pton4 pton6 p h port) capability legacy_configured egress of
            (False, r) \<Rightarrow> (False, Some (False, r, ''host''))
          | (True, r) \<Rightarrow>
              (case sa of
                 None \<Rightarrow> (True, Some (True, r, ''host''))
               | Some a \<Rightarrow>
                   (case egress_stage (\<lambda>p. decide_resolved_address_authoritative p a port)
                           capability legacy_configured egress of
                      (False, r) \<Rightarrow> (False, Some (False, r, ''address''))
                    | (True, _) \<Rightarrow> (True, None))))"

definition binding_egress_check ::
  "(string \<Rightarrow> byte list option) \<Rightarrow> (string \<Rightarrow> byte list option) \<Rightarrow> policy option
     \<Rightarrow> string option \<Rightarrow> u16 \<Rightarrow> sockaddr option \<Rightarrow> bool" where
  "binding_egress_check pton4 pton6 net h port sa =
     (case net of
        None \<Rightarrow> False
      | Some p \<Rightarrow>
          if h = None \<and> sa = None then False
          else if h \<noteq> None \<and> port = 0 \<and> sa = None then allowed (decide_host_any_port pton4 pton6 p (the h))
          else let effective_port =
                 (if port = 0 then (case sa of Some (Some (_, _, q)) \<Rightarrow> q | _ \<Rightarrow> 0) else port) in
          effective_port \<noteq> 0
          \<and> (h \<noteq> None \<longrightarrow> allowed (decide_host pton4 pton6 p (the h) effective_port))
          \<and> (sa \<noteq> None \<longrightarrow> allowed (decide_resolved_address_authoritative p (the sa) effective_port)))"

section \<open>The rule scan\<close>

lemma scan_rules_found:
  "scan_rules m True i rs =
     (case find (\<lambda>r. m r \<and> action r = CAPSID_EGRESS_DENY) rs of
        Some r \<Rightarrow> Some (EgressDecision False (rule_id r) kExplicitDeny)
      | None \<Rightarrow> Some (EgressDecision True (if i = 0 then (case find (\<lambda>r. m r \<and> rule_id r \<noteq> 0) rs of
            Some r \<Rightarrow> rule_id r | None \<Rightarrow> 0) else i) kNone))"
  by (induction rs arbitrary: i) (auto split: option.splits)

lemma scan_rules_spec:
  "scan_rules m False 0 rs =
     (case find (\<lambda>r. m r \<and> action r = CAPSID_EGRESS_DENY) rs of
        Some r \<Rightarrow> Some (EgressDecision False (rule_id r) kExplicitDeny)
      | None \<Rightarrow>
          if \<exists>r \<in> set rs. m r
          then Some (EgressDecision True (case find (\<lambda>r. m r \<and> rule_id r \<noteq> 0) rs of
                 Some r \<Rightarrow> rule_id r | None \<Rightarrow> 0) kNone)
          else None)"
  by (induction rs) (auto simp: scan_rules_found split: option.splits)

lemma not_deny [simp]: "a \<noteq> CAPSID_EGRESS_DENY \<longleftrightarrow> a = CAPSID_EGRESS_ALLOW"
  by (cases a) simp_all

lemma scan_rules_None: "scan_rules m found i rs = None \<longleftrightarrow> \<not> found \<and> \<not> (\<exists>r \<in> set rs. m r)"
  by (induction rs arbitrary: found i) (simp_all del: not_None_eq)

lemma scan_rules_allowed:
  "scan_rules m found i rs = Some d \<Longrightarrow>
     allowed d = (\<forall>r \<in> set rs. m r \<longrightarrow> action r = CAPSID_EGRESS_ALLOW)"
  by (induction rs arbitrary: found i) (auto split: if_splits)

lemma decide_address_allowed:
  "allowed (decide_address p bytes f port apply_default protect) =
     (if \<exists>r \<in> set (rules p). address_match bytes f port r
      then \<forall>r \<in> set (rules p). address_match bytes f port r \<longrightarrow> action r = CAPSID_EGRESS_ALLOW
      else \<not> (protect \<and> is_protected f bytes) \<and> (apply_default \<longrightarrow> default_action p = CAPSID_EGRESS_ALLOW))"
proof (cases "scan_rules (address_match bytes f port) False 0 (rules p)")
  case None
  then show ?thesis using scan_rules_None [of "address_match bytes f port" False 0 "rules p"]
    by (simp add: decide_address_def by_default_def)
next
  case (Some d)
  then show ?thesis using scan_rules_allowed [OF Some] scan_rules_None [of "address_match bytes f port" False 0 "rules p"]
    by (simp add: decide_address_def)
qed

section \<open>Address prefixes\<close>

definition address_bits :: "byte list \<Rightarrow> bool list" where
  "address_bits bs = concat (map (\<lambda>b. map (bit b) (rev [0..<8])) bs)"

lemma address_bits_Cons: "address_bits (b # bs) = map (bit b) (rev [0..<8]) @ address_bits bs"
  by (simp add: address_bits_def)

lemma length_address_bits: "length (address_bits bs) = 8 * length bs"
  by (induction bs) (simp_all add: address_bits_def)

lemma byte_bits_inj: "map (bit (a :: byte)) (rev [0..<8]) = map (bit b) (rev [0..<8]) \<longleftrightarrow> a = b"
proof
  assume "map (bit a) (rev [0..<8]) = map (bit b) (rev [0..<8])"
  then have "bit a i = bit b i" if "i < 8" for i using that by simp
  then show "a = b" by (intro bit_word_eqI) simp
qed simp

lemma byte_prefix_mask:
  fixes a b :: byte
  assumes "k < 8"
  shows "(a AND push_bit (8 - k) 0xFF = b AND push_bit (8 - k) 0xFF)
    \<longleftrightarrow> take k (map (bit a) (rev [0..<8])) = take k (map (bit b) (rev [0..<8]))"
proof -
  have bit_m: "bit (push_bit (8 - k) (0xFF :: byte)) i \<longleftrightarrow> 8 - k \<le> i \<and> i < 8" for i
    using assms bit_mask_iff [where 'a = "8 word", of 8 "i - (8 - k)"] by (auto simp: bit_push_bit_iff mask_eq_exp_minus_1)
  have "(a AND push_bit (8 - k) 0xFF = b AND push_bit (8 - k) 0xFF) \<longleftrightarrow> (\<forall>i. 8 - k \<le> i \<and> i < 8 \<longrightarrow> bit a i = bit b i)"
    unfolding bit_eq_iff bit_and_iff bit_m by auto
  moreover have "take k (map (bit a) (rev [0..<8])) = take k (map (bit b) (rev [0..<8]))
      \<longleftrightarrow> (\<forall>j < k. bit a (7 - j) = bit b (7 - j))"
    using assms by (auto simp: list_eq_iff_nth_eq rev_nth)
  moreover have "(\<forall>j < k. bit a (7 - j) = bit b (7 - j)) \<longleftrightarrow> (\<forall>i. 8 - k \<le> i \<and> i < 8 \<longrightarrow> bit a i = bit b i)"
  proof safe
    fix i assume "\<forall>j < k. bit a (7 - j) = bit b (7 - j)" "8 - k \<le> i" "i < 8" "bit a i"
    then show "bit b i" using spec [of "\<lambda>j. j < k \<longrightarrow> bit a (7 - j) = bit b (7 - j)" "7 - i"] by simp
  next
    fix i assume "\<forall>j < k. bit a (7 - j) = bit b (7 - j)" "8 - k \<le> i" "i < 8" "bit b i"
    then show "bit a i" using spec [of "\<lambda>j. j < k \<longrightarrow> bit a (7 - j) = bit b (7 - j)" "7 - i"] by simp
  next
    fix j assume all: "\<forall>i. 8 - k \<le> i \<and> i < 8 \<longrightarrow> bit a i = bit b i" and j: "j < k"
    have "8 - k \<le> 7 - j \<and> 7 - j < 8" using j assms by linarith
    with all have "bit a (7 - j) = bit b (7 - j)" by blast
    then show "bit a (7 - j) \<Longrightarrow> bit b (7 - j)" "bit b (7 - j) \<Longrightarrow> bit a (7 - j)" by simp_all
  qed
  ultimately show ?thesis by simp
qed

lemma prefix_matches_bits:
  assumes "length addr = length net" and "p \<le> 8 * length addr"
  shows "prefix_matches addr net p \<longleftrightarrow> take p (address_bits addr) = take p (address_bits net)"
  using assms
proof (induction addr net arbitrary: p rule: list_induct2)
  case Nil
  then show ?case by (simp add: prefix_matches_def)
next
  case (Cons a as n ns)
  show ?case
  proof (cases "p < 8")
    case True
    then show ?thesis
      by (auto simp: prefix_matches_def address_bits_Cons byte_prefix_mask Let_def)
  next
    case False
    then have p: "p div 8 = Suc ((p - 8) div 8)" "p mod 8 = (p - 8) mod 8"
      by (simp_all add: le_div_geq le_mod_geq)
    have "prefix_matches (a # as) (n # ns) p \<longleftrightarrow> a = n \<and> prefix_matches as ns (p - 8)"
      unfolding prefix_matches_def p by (auto simp: Let_def)
    moreover have "take p (address_bits (a # as)) = take p (address_bits (n # ns)) \<longleftrightarrow>
        a = n \<and> take (p - 8) (address_bits as) = take (p - 8) (address_bits ns)"
      using False byte_bits_inj [of a n] by (simp add: address_bits_Cons)
    ultimately show ?thesis using Cons.IH [of "p - 8"] Cons.prems by simp
  qed
qed

section \<open>The protected ranges\<close>

text \<open>The IPv4 ranges as networks with prefix lengths.\<close>

definition protected_ipv4 :: "(byte list \<times> nat) list" where
  "protected_ipv4 = [([0, 0, 0, 0], 8), ([10, 0, 0, 0], 8), ([100, 64, 0, 0], 10), ([127, 0, 0, 0], 8),
     ([169, 254, 0, 0], 16), ([172, 16, 0, 0], 12), ([192, 0, 0, 0], 24), ([192, 0, 2, 0], 24),
     ([192, 168, 0, 0], 16), ([198, 18, 0, 0], 15), ([198, 51, 100, 0], 24), ([203, 0, 113, 0], 24),
     ([224, 0, 0, 0], 4), ([240, 0, 0, 0], 4)]"

lemma bit_ipv4_value:
  assumes "n < 32"
  shows "bit (ipv4_value b) n \<longleftrightarrow> bit (b ! (3 - n div 8)) (n mod 8)"
proof -
  have le: "ipv4_value b = le_word 4 [b ! 3, b ! 2, b ! 1, b ! 0]"
    unfolding ipv4_value_def le_word_def upt_4 by (simp add: or.assoc or.commute or.left_commute)
  have "n div 8 < 4" using assms by simp
  then have "n div 8 = 0 \<or> n div 8 = 1 \<or> n div 8 = 2 \<or> n div 8 = 3" by linarith
  then show ?thesis unfolding le using assms by (auto simp: bit_le_word)
qed

lemma ipv4_masked:
  assumes "length b = 4"
  shows "ipv4_value b AND ipv4_value m = ipv4_value c \<longleftrightarrow> (\<forall>i < 4. b ! i AND m ! i = c ! i)"
proof -
  have "ipv4_value b AND ipv4_value m = ipv4_value c
      \<longleftrightarrow> (\<forall>n < 32. bit (b ! (3 - n div 8) AND m ! (3 - n div 8)) (n mod 8) = bit (c ! (3 - n div 8)) (n mod 8))"
    by (auto simp: bit_eq_iff bit_and_iff bit_ipv4_value)
  also have "\<dots> \<longleftrightarrow> (\<forall>i < 4. \<forall>k < 8. bit (b ! i AND m ! i) k = bit (c ! i) k)"
  proof safe
    fix i k :: nat
    assume *: "\<forall>n < 32. bit (b ! (3 - n div 8) AND m ! (3 - n div 8)) (n mod 8) = bit (c ! (3 - n div 8)) (n mod 8)"
      and "i < 4" "k < 8"
    then have "((3 - i) * 8 + k) div 8 = 3 - i" "((3 - i) * 8 + k) mod 8 = k" "(3 - i) * 8 + k < 32" by simp_all
    with spec [OF *, of "(3 - i) * 8 + k"] \<open>i < 4\<close>
    have "bit (b ! i AND m ! i) k = bit (c ! i) k" by simp
    then show "bit (b ! i AND m ! i) k \<Longrightarrow> bit (c ! i) k" "bit (c ! i) k \<Longrightarrow> bit (b ! i AND m ! i) k" by simp_all
  qed auto
  also have "\<dots> \<longleftrightarrow> (\<forall>i < 4. b ! i AND m ! i = c ! i)"
    by (auto simp: bit_eq_iff)
  finally show ?thesis .
qed
lemma byte_and_ff [simp]: "(x :: byte) AND 0xFF = x"
proof -
  have m: "(0xFF :: byte) = mask 8" by (simp add: mask_eq_exp_minus_1)
  show ?thesis unfolding m take_bit_eq_mask [symmetric] using take_bit_length_eq [of x] by simp
qed

lemma all_less_4: "(\<forall>i < 4. P i) \<longleftrightarrow> P 0 \<and> P (1::nat) \<and> P 2 \<and> P 3"
  by (auto simp: less_Suc_eq numeral_eq_Suc)

lemma is_protected_ipv4_ranges:
  assumes "length b = 4"
  shows "is_protected_ipv4 b \<longleftrightarrow> (\<exists>(net, p) \<in> set protected_ipv4. prefix_matches b net p)"
proof -
  from assms obtain b0 b1 b2 b3 where b: "b = [b0, b1, b2, b3]"
    by (auto simp: length_Suc_conv numeral_eq_Suc)
  have masked: "ipv4_value b AND ipv4_value [m0, m1, m2, m3] = ipv4_value [c0, c1, c2, c3]
      \<longleftrightarrow> b0 AND m0 = c0 \<and> b1 AND m1 = c1 \<and> b2 AND m2 = c2 \<and> b3 AND m3 = c3" for m0 m1 m2 m3 c0 c1 c2 c3
    unfolding ipv4_masked [OF assms] all_less_4 unfolding b by simp
  have masks: "0xff000000 = ipv4_value [255, 0, 0, 0]" "0xffc00000 = ipv4_value [255, 192, 0, 0]"
    "0xffff0000 = ipv4_value [255, 255, 0, 0]" "0xfff00000 = ipv4_value [255, 240, 0, 0]"
    "0xffffff00 = ipv4_value [255, 255, 255, 0]" "0xfffe0000 = ipv4_value [255, 254, 0, 0]"
    "0xf0000000 = ipv4_value [240, 0, 0, 0]"
    by (simp_all add: ipv4_value_def)
  have nets: "0x0a000000 = ipv4_value [10, 0, 0, 0]" "0x64400000 = ipv4_value [100, 64, 0, 0]"
    "0x7f000000 = ipv4_value [127, 0, 0, 0]" "0xa9fe0000 = ipv4_value [169, 254, 0, 0]"
    "0xac100000 = ipv4_value [172, 16, 0, 0]" "0xc0000000 = ipv4_value [192, 0, 0, 0]"
    "0xc0000200 = ipv4_value [192, 0, 2, 0]" "0xc0a80000 = ipv4_value [192, 168, 0, 0]"
    "0xc6120000 = ipv4_value [198, 18, 0, 0]" "0xc6336400 = ipv4_value [198, 51, 100, 0]"
    "0xcb007100 = ipv4_value [203, 0, 113, 0]" "0xe0000000 = ipv4_value [224, 0, 0, 0]"
    "0 = ipv4_value [0, 0, 0, 0]"
    by (simp_all add: ipv4_value_def)
  have "is_protected_ipv4 b \<longleftrightarrow>
    b0 = 0 \<or> b0 = 10 \<or> (b0 = 100 \<and> b1 AND 192 = 64) \<or> b0 = 127 \<or> (b0 = 169 \<and> b1 = 254)
    \<or> (b0 = 172 \<and> b1 AND 240 = 16) \<or> (b0 = 192 \<and> b1 = 0 \<and> b2 = 0) \<or> (b0 = 192 \<and> b1 = 0 \<and> b2 = 2)
    \<or> (b0 = 192 \<and> b1 = 168) \<or> (b0 = 198 \<and> b1 AND 254 = 18) \<or> (b0 = 198 \<and> b1 = 51 \<and> b2 = 100)
    \<or> (b0 = 203 \<and> b1 = 0 \<and> b2 = 113) \<or> b0 AND 240 = 224 \<or> b0 AND 240 = 240"
    unfolding is_protected_ipv4_def Let_def masks nets masked
    by (simp only: byte_and_ff and_zero_eq simp_thms)
  moreover have small: "(4080 :: byte) = 240" "(16320 :: byte) = 192" "(510 :: byte) = 254"
    "(2032 :: byte) = 240" "(8128 :: byte) = 192" "(960 :: byte) = 192" by simp_all
  have "prefix_matches b [n0, n1, n2, n3] 8 \<longleftrightarrow> b0 = n0"
    "prefix_matches b [n0, n1, n2, n3] 16 \<longleftrightarrow> b0 = n0 \<and> b1 = n1"
    "prefix_matches b [n0, n1, n2, n3] 24 \<longleftrightarrow> b0 = n0 \<and> b1 = n1 \<and> b2 = n2"
    "prefix_matches b [n0, n1, n2, n3] 4 \<longleftrightarrow> b0 AND 240 = n0 AND 240"
    "prefix_matches b [n0, n1, n2, n3] 10 \<longleftrightarrow> b0 = n0 \<and> b1 AND 192 = n1 AND 192"
    "prefix_matches b [n0, n1, n2, n3] 12 \<longleftrightarrow> b0 = n0 \<and> b1 AND 240 = n1 AND 240"
    "prefix_matches b [n0, n1, n2, n3] 15 \<longleftrightarrow> b0 = n0 \<and> b1 AND 254 = n1 AND 254"
    for n0 n1 n2 n3 by (simp_all add: b prefix_matches_def Let_def small)
  ultimately show ?thesis by (simp add: protected_ipv4_def)
qed
section \<open>Host names\<close>

lemma host_char_lower:
  assumes "host_char c = Some d"
  shows "host_char d = Some d" and "d \<noteq> CHR ''.''" and "d \<noteq> CHR ''*''"
proof -
  have "host_char d = Some d \<and> d \<noteq> CHR ''.'' \<and> d \<noteq> CHR ''*''"
  proof (cases "CHR ''A'' \<le> c \<and> c \<le> CHR ''Z''")
    case True
    then have c: "65 \<le> (of_char c :: nat)" "(of_char c :: nat) \<le> 90" by (simp_all add: less_eq_char_def)
    with True assms have d: "d = char_of (of_char c + 32 :: nat)" by (simp add: host_char_def)
    then have o: "(of_char d :: nat) = of_char c + 32" using c by simp
    have "CHR ''a'' \<le> d" "d \<le> CHR ''z''" "\<not> d \<le> CHR ''Z''" using c o by (simp_all add: less_eq_char_def)
    moreover have "d \<noteq> CHR ''.''" "d \<noteq> CHR ''*''" using c o by auto
    ultimately show ?thesis by (simp add: host_char_def)
  next
    case False
    with assms have "d = c" "CHR ''a'' \<le> c \<and> c \<le> CHR ''z'' \<or> CHR ''0'' \<le> c \<and> c \<le> CHR ''9'' \<or> c = CHR ''-''"
      by (auto simp: host_char_def split: if_splits)
    with assms show ?thesis by (auto simp: less_eq_char_def)
  qed
  then show "host_char d = Some d" "d \<noteq> CHR ''.''" "d \<noteq> CHR ''*''" by simp_all
qed

lemma scan_labels_fixed:
  assumes "scan_labels label cs = Some h"
  shows "\<exists>t. h = label @ t \<and> scan_labels label t = Some h \<and> length t = length cs \<and> CHR ''*'' \<notin> set t
    \<and> (t \<noteq> [] \<longrightarrow> last t \<noteq> CHR ''.'')"
  using assms
proof (induction label cs arbitrary: h rule: scan_labels.induct)
  case (1 label)
  then show ?case by (intro exI [of _ "[]"]) (auto split: if_splits)
next
  case (2 label c cs)
  show ?case
  proof (cases "c = CHR ''.''")
    case True
    with 2(3) obtain r where r: "\<not> bad_label label" "scan_labels [] cs = Some r" "h = label @ CHR ''.'' # r"
      by (auto split: if_splits)
    from 2(2) [OF _ r(1,2)] True have IH: "scan_labels [] r = Some r" "length r = length cs" "CHR ''*'' \<notin> set r"
      "r \<noteq> [] \<longrightarrow> last r \<noteq> CHR ''.''" by auto
    have "r \<noteq> []" using IH(1) by (auto simp: bad_label_def)
    with r IH show ?thesis by (intro exI [of _ "CHR ''.'' # r"]) simp
  next
    case False
    with 2(3) obtain d where d: "host_char c = Some d" "scan_labels (label @ [d]) cs = Some h"
      by (auto split: option.splits)
    from 2(1) [OF False d(1,2)] obtain t where
      t: "h = (label @ [d]) @ t" "scan_labels (label @ [d]) t = Some h" "length t = length cs" "CHR ''*'' \<notin> set t"
        "t \<noteq> [] \<longrightarrow> last t \<noteq> CHR ''.''" by auto
    from host_char_lower [OF d(1)] t show ?thesis by (intro exI [of _ "d # t"]) auto
  qed
qed

lemma normalize_hostname_fixed:
  assumes "normalize_hostname input allow = Some (h, star)"
  shows "normalize_hostname h False = Some (h, False)"
proof -
  from assms obtain v where v: "scan_labels [] v = Some h" "length v \<le> 253"
    by (auto simp: normalize_hostname_def Let_def split: if_splits)
  from scan_labels_fixed [OF v(1)] have h: "scan_labels [] h = Some h" "length h = length v" "CHR ''*'' \<notin> set h"
    "h \<noteq> [] \<longrightarrow> last h \<noteq> CHR ''.''" by auto
  have ne: "h \<noteq> []" using h(1) by (auto simp: bad_label_def)
  have "take 2 h \<noteq> ''*.''" using h(3) by (metis in_set_takeD list.set_intros(1))
  with h v(2) ne show ?thesis by (simp add: normalize_hostname_def Let_def)
qed

lemma host_rule_wildcard:
  "host_rule_matches h pattern True \<longleftrightarrow> (\<exists>l. l \<noteq> [] \<and> h = l @ CHR ''.'' # pattern)"
proof
  assume m: "host_rule_matches h pattern True"
  let ?k = "length h - length pattern - 1"
  from m have k: "?k < length h" "h ! ?k = CHR ''.''" "drop (Suc ?k) h = pattern" "?k \<noteq> 0"
    by (auto simp: host_rule_matches_def Suc_diff_Suc)
  have "h = take ?k h @ h ! ?k # drop (Suc ?k) h" by (rule id_take_nth_drop [OF k(1)])
  with k show "\<exists>l. l \<noteq> [] \<and> h = l @ CHR ''.'' # pattern"
    by (intro exI [of _ "take ?k h"]) (metis k(1) k(2) k(3) k(4) length_0_conv length_take less_imp_le_nat min.absorb2 nat_neq_iff)
next
  assume "\<exists>l. l \<noteq> [] \<and> h = l @ CHR ''.'' # pattern"
  then show "host_rule_matches h pattern True" by (auto simp: host_rule_matches_def nth_append)
qed
section \<open>Properties\<close>


text \<open>A policy for the witnesses: deny \<open>bad.example\<close>, allow all of \<open>*.example\<close>.\<close>

definition sample_policy :: policy where
  "sample_policy = \<lparr>default_action = CAPSID_EGRESS_DENY,
     rules = [new_rule\<lparr>action := CAPSID_EGRESS_ALLOW, rule_id := 1, host := ''example'', wildcard := True\<rparr>,
              new_rule\<lparr>rule_id := 2, host := ''bad.example''\<rparr>]\<rparr>"


text \<open>A rule's network matches an address exactly when the two agree on their leading bits, as
  many as the prefix length says, for every prefix length of IPv4 and IPv6.\<close>

theorem prefix_match_is_leading_bits:
  assumes "length addr = length net" and "p \<le> 8 * length addr"
  shows "prefix_matches addr net p \<longleftrightarrow> take p (address_bits addr) = take p (address_bits net)"
  by (rule prefix_matches_bits [OF assms])

theorem prefix_match_is_leading_bits_witness:
  "prefix_matches [10, 1, 2, 3] [10, 0, 0, 0] 15 \<longleftrightarrow>
     take 15 (address_bits [10, 1, 2, 3]) = take 15 (address_bits [10, 0, 0, 0])"
  using prefix_match_is_leading_bits [of "[10, 1, 2, 3]" "[10, 0, 0, 0]" 15] by simp

text \<open>The masks and constants of the IPv4 guard are the fourteen special-purpose ranges
  (this network, private, shared, loopback, link-local, documentation, benchmarking, multicast and
  reserved), each as a network with its prefix length.\<close>

theorem protected_ipv4_is_range_list:
  assumes "length b = 4"
  shows "is_protected_ipv4 b \<longleftrightarrow> (\<exists>(net, p) \<in> set protected_ipv4. prefix_matches b net p)"
  by (rule is_protected_ipv4_ranges [OF assms])

theorem protected_ipv4_is_range_list_witness:
  "is_protected_ipv4 [172, 31, 0, 1] \<and> \<not> is_protected_ipv4 [172, 32, 0, 1]"
  using protected_ipv4_is_range_list [of "[172, 31, 0, 1]"] protected_ipv4_is_range_list [of "[172, 32, 0, 1]"]
  by (simp add: protected_ipv4_def prefix_matches_def Let_def)

text \<open>Normalising a host name is idempotent: a normalised name is its own normal form, so
  that rules and requests are compared in one form; and a wildcard pattern matches exactly the names
  that have at least one more label in front.\<close>

theorem hostname_normal_form:
  "(\<forall>h star. normalize_hostname input allow = Some (h, star) \<longrightarrow> normalize_hostname h False = Some (h, False))
   \<and> (host_rule_matches name pattern True \<longleftrightarrow> (\<exists>l. l \<noteq> [] \<and> name = l @ CHR ''.'' # pattern))"
  using normalize_hostname_fixed host_rule_wildcard by blast

theorem hostname_normal_form_witness:
  "normalize_hostname ''*.Example.COM.'' True = Some (''example.com'', True)
   \<and> normalize_hostname ''example.com'' False = Some (''example.com'', False)"
proof -
  have "normalize_hostname ''*.Example.COM.'' True = Some (''example.com'', True)" by code_simp
  with hostname_normal_form [of "''*.Example.COM.''" True] show ?thesis by blast
qed

text \<open>The policies that both have to agree: the capability policy's net policy when there is one,
  joined by the legacy policy when that is configured, and the legacy policy alone otherwise.\<close>

definition governing :: "policy option \<Rightarrow> bool \<Rightarrow> policy \<Rightarrow> policy set" where
  "governing capability legacy_configured egress =
     (case capability of None \<Rightarrow> {egress} | Some net \<Rightarrow> insert net (if legacy_configured then {egress} else {}))"

lemma egress_stage_all:
  "fst (egress_stage decide capability legacy egress) \<longleftrightarrow>
     (\<forall>p \<in> governing capability legacy egress. allowed (decide p))"
  by (auto simp: egress_stage_def governing_def Let_def split: option.splits)

text \<open>C2: A connection is let through exactly when every policy that governs it allows the host and,
  once it is resolved, the address; a refusal of a well-formed request always leaves an audit record
  that denies, and no audit record of a denial comes with a connection.\<close>

theorem egress_check_sound:
  "(fst (egress_check pton4 pton6 capability legacy egress h port sa) \<longleftrightarrow>
      (\<exists>name. h = Some name \<and> port \<noteq> 0
         \<and> (\<forall>p \<in> governing capability legacy egress.
              allowed (decide_host pton4 pton6 p name port)
              \<and> (\<forall>a. sa = Some a \<longrightarrow> allowed (decide_resolved_address_authoritative p a port)))))
   \<and> (h \<noteq> None \<and> port \<noteq> 0 \<longrightarrow>
      (\<not> fst (egress_check pton4 pton6 capability legacy egress h port sa) \<longleftrightarrow>
       (\<exists>r stage. snd (egress_check pton4 pton6 capability legacy egress h port sa) = Some (False, r, stage))))"
proof (cases h)
  case None
  then show ?thesis by (simp add: egress_check_def)
next
  case (Some name)
  let ?host = "egress_stage (\<lambda>p. decide_host pton4 pton6 p name port) capability legacy egress"
  let ?addr = "\<lambda>a. egress_stage (\<lambda>p. decide_resolved_address_authoritative p a port) capability legacy egress"
  show ?thesis
    using egress_stage_all [of "\<lambda>p. decide_host pton4 pton6 p name port" capability legacy egress]
      egress_stage_all [of "\<lambda>p. decide_resolved_address_authoritative p (the sa) port" capability legacy egress] Some
    by (cases ?host; cases "?addr (the sa)"; cases sa) (auto simp: egress_check_def split: bool.splits)
qed

theorem egress_check_sound_witness:
  "fst (egress_check (\<lambda>_. None) (\<lambda>_. None) None False sample_policy (Some ''a.example'') 443 None)
   \<and> (\<exists>r stage. snd (egress_check (\<lambda>_. None) (\<lambda>_. None) None False sample_policy (Some ''bad.example'') 443 None)
        = Some (False, r, stage))"
proof -
  have d: "allowed (decide_host (\<lambda>_. None) (\<lambda>_. None) sample_policy ''a.example'' 443)"
    "\<not> allowed (decide_host (\<lambda>_. None) (\<lambda>_. None) sample_policy ''bad.example'' 443)" by code_simp+
  show ?thesis
    using egress_check_sound [of "\<lambda>_. None" "\<lambda>_. None" None False sample_policy "Some ''a.example''" 443 None]
      egress_check_sound [of "\<lambda>_. None" "\<lambda>_. None" None False sample_policy "Some ''bad.example''" 443 None] d
    by (auto simp: governing_def)
qed

text \<open>C40: The protected ranges guard numeric hosts only. Under a policy that allows by default and
  has no address rules, a name that resolves to a protected address, such as the loopback one, is
  connected whenever the name itself is allowed.\<close>

theorem protected_address_reached_by_name:
  assumes "port \<noteq> 0" and "parse_numeric pton4 pton6 name = None" and "normalize_hostname name False = Some (h, star)"
    and "\<forall>r \<in> set (rules egress). \<not> address r \<and> \<not> host_match h port r"
    and "default_action egress = CAPSID_EGRESS_ALLOW" and "is_protected_ipv4 bytes"
  shows "fst (egress_check pton4 pton6 None legacy egress (Some name) port (Some (Some (AF_INET, bytes, port))))
    \<and> \<not> allowed (decide_resolved_address egress (Some (AF_INET, bytes, port)) port)"
proof -
  have n: "scan_rules (host_match h port) False 0 (rules egress) = None"
    "scan_rules (address_match bytes AF_INET port) False 0 (rules egress) = None"
    using assms(4) by (simp_all add: scan_rules_None address_match_def)
  then have "allowed (decide_host pton4 pton6 egress name port)"
    "allowed (decide_resolved_address_authoritative egress (Some (AF_INET, bytes, port)) port)"
    "\<not> allowed (decide_resolved_address egress (Some (AF_INET, bytes, port)) port)"
    using assms by (simp_all add: decide_host_def by_default_def decide_resolved_address_def
        decide_resolved_address_authoritative_def decide_resolved_address_impl_def decide_address_def is_protected_def)
  then show ?thesis using assms(1) by (simp add: egress_check_def egress_stage_def)
qed

theorem protected_address_reached_by_name_witness:
  "fst (egress_check (\<lambda>_. None) (\<lambda>_. None) None True \<lparr>default_action = CAPSID_EGRESS_ALLOW, rules = []\<rparr>
     (Some ''localhost'') 80 (Some (Some (AF_INET, [127, 0, 0, 1], 80))))"
proof -
  have n: "normalize_hostname ''localhost'' False = Some (''localhost'', False)" by code_simp
  have p: "parse_numeric (\<lambda>_. None) (\<lambda>_. None) ''localhost'' = None" by (simp add: parse_numeric_def)
  have "is_protected_ipv4 [127, 0, 0, 1]" by code_simp
  with protected_address_reached_by_name [of 80 "\<lambda>_. None" "\<lambda>_. None" "''localhost''" "''localhost''" False
      "\<lparr>default_action = CAPSID_EGRESS_ALLOW, rules = []\<rparr>" "[127, 0, 0, 1]" True] n p
  show ?thesis by simp
qed

text \<open>The check for any port does not look at deny rules: a host that a deny rule refuses on
  every port passes it when the policy allows by default.\<close>

theorem any_port_ignores_deny:
  assumes "parse_numeric pton4 pton6 name = None" and "normalize_hostname name False = Some (h, star)"
    and "r \<in> set (rules p)" and "action r = CAPSID_EGRESS_DENY" and "\<not> address r" and "port_start r = 0"
    and "host_rule_matches h (host r) (wildcard r)" and "default_action p = CAPSID_EGRESS_ALLOW"
  shows "allowed (decide_host_any_port pton4 pton6 p name) \<and> (\<forall>port. \<not> allowed (decide_host pton4 pton6 p name port))"
proof -
  have "host_match h port r" for port
    using assms by (simp add: host_match_def port_matches_def)
  then have "\<not> allowed (decide_host pton4 pton6 p name port)" for port
    using assms scan_rules_allowed [of "host_match h port" False 0 "rules p"]
    by (auto simp: decide_host_def scan_rules_None split: option.splits)
  moreover have "allowed (decide_host_any_port pton4 pton6 p name)"
    using assms by (auto simp: decide_host_any_port_def by_default_def Let_def split: option.splits)
  ultimately show ?thesis by simp
qed

theorem any_port_ignores_deny_witness:
  "allowed (decide_host_any_port (\<lambda>_. None) (\<lambda>_. None)
     \<lparr>default_action = CAPSID_EGRESS_ALLOW, rules = [new_rule\<lparr>host := ''bad.example''\<rparr>]\<rparr> ''bad.example'')"
proof -
  have n: "normalize_hostname ''bad.example'' False = Some (''bad.example'', False)" by code_simp
  have p: "parse_numeric (\<lambda>_. None) (\<lambda>_. None) ''bad.example'' = None" by (simp add: parse_numeric_def)
  from any_port_ignores_deny [of "\<lambda>_. None" "\<lambda>_. None" "''bad.example''" "''bad.example''" False
      "new_rule\<lparr>host := ''bad.example''\<rparr>"
      "\<lparr>default_action = CAPSID_EGRESS_ALLOW, rules = [new_rule\<lparr>host := ''bad.example''\<rparr>]\<rparr>"] n p
  show ?thesis by (simp add: new_rule_def host_rule_matches_def)
qed

subsection \<open>What a configured policy holds\<close>

definition wf_rule :: "rule \<Rightarrow> bool" where
  "wf_rule r \<longleftrightarrow> valid_port_range (port_start r) (port_end r)
     \<and> (if address r
        then (family r = AF_INET \<and> length (network r) = 4 \<and> prefix_length r \<le> 32
              \<or> family r = AF_INET6 \<and> length (network r) = 16 \<and> prefix_length r \<le> 128 \<and> \<not> is_ipv4_mapped (network r))
             \<and> network_is_canonical (network r) (length (network r)) (prefix_length r)
        else normalize_hostname (host r) False = Some (host r, False))"

definition rule_of_descriptor :: "rule_descriptor \<Rightarrow> nat \<Rightarrow> rule \<Rightarrow> bool" where
  "rule_of_descriptor d i r \<longleftrightarrow> egress_action_of (rd_action d) = Some (action r)
     \<and> port_start r = rd_port_start d \<and> port_end r = rd_port_end d
     \<and> rule_id r = (if rd_rule_id d \<noteq> 0 then rd_rule_id d else word_of_nat (i + 1))"

lemma network_is_canonical_full [simp]:
  "network_is_canonical b 4 32" "network_is_canonical b 16 128"
  by (simp_all add: network_is_canonical_def)

lemma parse_numeric_shape:
  assumes "parse_numeric pton4 pton6 s = Some (f, b)"
    and "\<forall>s b. pton4 s = Some b \<longrightarrow> length b = 4" and "\<forall>s b. pton6 s = Some b \<longrightarrow> length b = 16"
  shows "f = AF_INET \<and> length b = 4 \<or> f = AF_INET6 \<and> length b = 16"
  using assms by (auto simp: parse_numeric_def Let_def split: option.splits)

lemma compile_target_cases:
  assumes "compile_target pton4 pton6 t r0 = Inr r"
  obtains (cidr) a f b p where "parse_numeric pton4 pton6 a = Some (f, b)" "f = AF_INET \<longrightarrow> p \<le> 32" "f = AF_INET6 \<longrightarrow> p \<le> 128"
      "\<not> (f = AF_INET6 \<and> is_ipv4_mapped b)" "network_is_canonical b (if f = AF_INET then 4 else 16) (p mod 256)"
      "r = r0\<lparr>address := True, family := f, network := b, prefix_length := p mod 256\<rparr>"
    | (mapped) b where "parse_numeric pton4 pton6 t = Some (AF_INET6, b)"
      "r = r0\<lparr>address := True, family := AF_INET, network := drop 12 b, prefix_length := 32\<rparr>"
    | (numeric) f b where "parse_numeric pton4 pton6 t = Some (f, b)" "\<not> (f = AF_INET6 \<and> is_ipv4_mapped b)"
      "r = r0\<lparr>address := True, family := f, network := b, prefix_length := (if f = AF_INET then 32 else 128)\<rparr>"
    | (name) h star where "normalize_hostname t True = Some (h, star)" "r = r0\<lparr>host := h, wildcard := star\<rparr>"
proof (cases "CHR ''/'' \<in> set t")
  case True
  let ?a = "takeWhile (\<lambda>c. c \<noteq> CHR ''/'') t"
  obtain p rest big where st: "strtoul (drop (length ?a + 1) t) = (p, rest, big)" by (cases "strtoul (drop (length ?a + 1) t)") auto
  from assms True st obtain f b where pn: "parse_numeric pton4 pton6 ?a = Some (f, b)"
    by (auto simp: compile_target_def Let_def split: if_splits option.splits)
  with assms True st show ?thesis
    by (intro cidr [of ?a f b p]) (auto simp: compile_target_def Let_def not_less split: if_splits)
next
  case False
  then show ?thesis
    using assms mapped numeric name
    by (cases "parse_numeric pton4 pton6 t") (auto simp: compile_target_def split: if_splits option.splits)
qed

lemma compile_target_wf:
  assumes t: "compile_target pton4 pton6 t r0 = Inr r" and "valid_port_range (port_start r0) (port_end r0)" and "\<not> address r0"
    and pton: "\<forall>s b. pton4 s = Some b \<longrightarrow> length b = 4" "\<forall>s b. pton6 s = Some b \<longrightarrow> length b = 16"
  shows "wf_rule r \<and> action r = action r0 \<and> port_start r = port_start r0 \<and> port_end r = port_end r0 \<and> rule_id r = rule_id r0"
  using t
proof (cases rule: compile_target_cases)
  case (cidr a f b p)
  then have "f = AF_INET \<and> length b = 4 \<and> p \<le> 32 \<or> f = AF_INET6 \<and> length b = 16 \<and> p \<le> 128"
    using parse_numeric_shape [OF cidr(1) pton] by blast
  then show ?thesis
  proof (elim disjE conjE)
    assume "f = AF_INET" "length b = 4" "p \<le> 32"
    with cidr(5,6) assms(2) show ?thesis by (simp add: wf_rule_def)
  next
    assume "f = AF_INET6" "length b = 16" "p \<le> 128"
    with cidr(4,5,6) assms(2) show ?thesis by (simp add: wf_rule_def)
  qed
next
  case (mapped b)
  with assms(2) parse_numeric_shape [OF mapped(1) pton] show ?thesis by (simp add: wf_rule_def)
next
  case (numeric f b)
  with assms(2) parse_numeric_shape [OF numeric(1) pton] show ?thesis by (elim disjE conjE) (simp_all add: wf_rule_def)
next
  case (name h star)
  with assms(2,3) normalize_hostname_fixed [OF name(1)] show ?thesis by (simp add: wf_rule_def)
qed

lemma compile_rules_wf:
  assumes "compile_rules pton4 pton6 k ids ds = Inr rs"
    and pton: "\<forall>s b. pton4 s = Some b \<longrightarrow> length b = 4" "\<forall>s b. pton6 s = Some b \<longrightarrow> length b = 16"
  shows "length rs = length ds \<and> (\<forall>i < length rs. wf_rule (rs ! i) \<and> rule_of_descriptor (ds ! i) (k + i) (rs ! i))"
  using assms(1)
proof (induction ds arbitrary: k ids rs)
  case (Cons d ds)
  from Cons.prems obtain r rs' ids' act where rs: "rs = r # rs'"
    and rest: "compile_rules pton4 pton6 (k + 1) ids' ds = Inr rs'"
    and act: "egress_action_of (rd_action d) = Some act"
    and ports: "valid_port_range (rd_port_start d) (rd_port_end d)"
    and r: "compile_target pton4 pton6 (rd_target d)
       (new_rule\<lparr>action := act, port_start := rd_port_start d, port_end := rd_port_end d,
          rule_id := (if rd_rule_id d \<noteq> 0 then rd_rule_id d else word_of_nat (k + 1))\<rparr>) = Inr r"
    by (auto simp del: of_nat_Suc of_nat_add split: option.splits if_splits sum.splits)
  have "wf_rule r \<and> rule_of_descriptor d k r"
    using compile_target_wf [OF r _ _ pton] ports act by (simp add: new_rule_def rule_of_descriptor_def)
  then show ?case
    using Cons.IH [OF rest] rs by (auto simp: nth_Cons' less_Suc_eq_0_disj)
qed simp

text \<open>Compiling a policy descriptor keeps its meaning: one rule per descriptor, in order, with
  its action, ports and identifier; every compiled rule has an ordered port range and either a host
  name in normal form or a canonical network of its family with a prefix length in range.\<close>

theorem configured_policy_wellformed:
  assumes "EgressPolicy_configure pton4 pton6 (Some d) = Inr p"
    and "\<forall>s b. pton4 s = Some b \<longrightarrow> length b = 4" and "\<forall>s b. pton6 s = Some b \<longrightarrow> length b = 16"
  shows "egress_action_of (pd_default_action d) = Some (default_action p)
    \<and> length (rules p) = length (pd_rules d) \<and> length (rules p) \<le> 256
    \<and> (\<forall>i < length (rules p). wf_rule (rules p ! i) \<and> rule_of_descriptor (pd_rules d ! i) i (rules p ! i))"
proof -
  from assms(1) have c: "compile_rules pton4 pton6 0 {} (pd_rules d) = Inr (rules p)" "length (pd_rules d) \<le> 256"
    "egress_action_of (pd_default_action d) = Some (default_action p)"
    by (auto simp: EgressPolicy_configure_def split: if_splits option.splits sum.splits)
  have "length (rules p) = length (pd_rules d)
    \<and> (\<forall>i < length (rules p). wf_rule (rules p ! i) \<and> rule_of_descriptor (pd_rules d ! i) (0 + i) (rules p ! i))"
    by (rule compile_rules_wf [OF c(1) assms(2,3)])
  then show ?thesis using c(2,3) by simp
qed

definition sample_descriptor :: policy_descriptor where
  "sample_descriptor = \<lparr>pd_size_ok = True, pd_default_action = 0, pd_reserved = 0,
     pd_rules = [\<lparr>rd_shape_ok = True, rd_action = 1, rd_target = ''*.Example.com'', rd_port_start = 80,
                  rd_port_end = 443, rd_rule_id = 7\<rparr>,
                 \<lparr>rd_shape_ok = True, rd_action = 0, rd_target = ''n'', rd_port_start = 0,
                  rd_port_end = 0, rd_rule_id = 0\<rparr>]\<rparr>"

theorem configured_policy_wellformed_witness:
  "\<exists>p. EgressPolicy_configure (\<lambda>s. if s = ''n'' then Some [10, 0, 0, 0] else None) (\<lambda>_. None) (Some sample_descriptor) = Inr p
     \<and> length (rules p) = 2 \<and> wf_rule (rules p ! 1)"
proof -
  let ?pton4 = "\<lambda>s. if s = ''n'' then Some [10, 0, 0, 0] else (None :: byte list option)"
  have "isl (EgressPolicy_configure ?pton4 (\<lambda>_. None) (Some sample_descriptor)) = False" by code_simp
  then obtain p where p: "EgressPolicy_configure ?pton4 (\<lambda>_. None) (Some sample_descriptor) = Inr p"
    by (cases "EgressPolicy_configure ?pton4 (\<lambda>_. None) (Some sample_descriptor)") auto
  from configured_policy_wellformed [OF p] have "length (rules p) = 2" "\<forall>i < 2. wf_rule (rules p ! i)"
    by (auto simp: sample_descriptor_def)
  with p show ?thesis by auto
qed

end
