(* ===== verification/Active_State.thy ===== *)
theory Active_State
  imports Capsid_Prelude "HOL-Library.Multiset"
begin

text \<open>
  The durable state of an application, \<open>active.json\<close> (\<open>src/host/active_state.cc\<close>): the document
  and its grammar, the canonical text, parsing, the order of file operations that replaces the
  file, and recovery at start-up. The JSON library's \<open>json_loadb\<close> and the file system are
  parameters: \<open>load\<close> gives the members of the object a text denotes, \<open>fs\<close> the status of each call.
  A disk on which those calls act is described at the end, to say what a crash can leave behind.
\<close>

section \<open>Documents\<close>

datatype service_state = kActive | kRetired | kQuarantined

record document =
  doc_state :: service_state
  application :: string
  version :: string
  generation :: string
  previous_version :: string
  previous_generation :: string
  reason :: string

datatype active_error_code = kNone | kInvalidJson | kDuplicateKey | kUnknownField | kInvalidValue | kResourceLimit
  | kStorageError | kTemporaryFileExists | kGenerationNotComplete | kDurabilityUncertain

record active_error =
  code :: active_error_code
  path :: string
  message :: string

abbreviation (input) kMaxActiveStateBytes :: nat where "kMaxActiveStateBytes \<equiv> 16384"
abbreviation (input) kActiveStateSchema :: string where "kActiveStateSchema \<equiv> ''capsid-active-v1''"
abbreviation (input) kCrashBudgetExceededReason :: string where
  "kCrashBudgetExceededReason \<equiv> ''CRASH_BUDGET_EXCEEDED''"

abbreviation (input) set_error :: "active_error_code \<Rightarrow> string \<Rightarrow> string \<Rightarrow> active_error" where
  "set_error c p m \<equiv> \<lparr>code = c, path = p, message = m\<rparr>"

definition empty_document :: document where
  "empty_document = \<lparr>doc_state = kActive, application = '''', version = '''', generation = '''',
     previous_version = '''', previous_generation = '''', reason = ''''\<rparr>"

definition escape_pointer_component :: "string \<Rightarrow> string" where
  "escape_pointer_component s =
     concat (map (\<lambda>c. if c = CHR ''~'' then ''~0'' else if c = CHR ''/'' then ''~1'' else [c]) s)"

section \<open>Grammars\<close>

definition ascii_digit :: "char \<Rightarrow> bool" where
  "ascii_digit c \<longleftrightarrow> CHR ''0'' \<le> c \<and> c \<le> CHR ''9''"

definition ascii_lower :: "char \<Rightarrow> bool" where
  "ascii_lower c \<longleftrightarrow> CHR ''a'' \<le> c \<and> c \<le> CHR ''z''"

definition ascii_upper :: "char \<Rightarrow> bool" where
  "ascii_upper c \<longleftrightarrow> CHR ''A'' \<le> c \<and> c \<le> CHR ''Z''"

definition ascii_hex_lower :: "char \<Rightarrow> bool" where
  "ascii_hex_lower c \<longleftrightarrow> ascii_digit c \<or> (CHR ''a'' \<le> c \<and> c \<le> CHR ''f'')"

definition valid_application_id :: "string \<Rightarrow> bool" where
  "valid_application_id v =
     (if v = '''' \<or> length v > 63 then False
      else if \<not> (ascii_lower (v ! 0) \<or> ascii_digit (v ! 0)) then False
      else list_all (\<lambda>c. ascii_lower c \<or> ascii_digit c \<or> c = CHR ''.'' \<or> c = CHR ''_'' \<or> c = CHR ''-'') v)"

definition valid_version_id :: "string \<Rightarrow> bool" where
  "valid_version_id v =
     (if v = '''' \<or> length v > 128 then False
      else if \<not> (ascii_lower (v ! 0) \<or> ascii_upper (v ! 0) \<or> ascii_digit (v ! 0)) then False
      else list_all (\<lambda>c. ascii_lower c \<or> ascii_upper c \<or> ascii_digit c
             \<or> c = CHR ''.'' \<or> c = CHR ''_'' \<or> c = CHR ''-'') v)"

definition valid_generation :: "string \<Rightarrow> bool" where
  "valid_generation v =
     (if length v \<noteq> 71 \<or> take 7 v \<noteq> ''sha256:'' then False
      else list_all ascii_hex_lower (drop 7 v))"

definition valid_operation_id :: "string \<Rightarrow> bool" where
  "valid_operation_id v =
     (if v = '''' \<or> length v > 64 then False
      else if \<not> (ascii_lower (v ! 0) \<or> ascii_upper (v ! 0) \<or> ascii_digit (v ! 0)) then False
      else list_all (\<lambda>c. ascii_lower c \<or> ascii_upper c \<or> ascii_digit c \<or> c = CHR ''_'' \<or> c = CHR ''-'') v)"

text \<open>The first failing field, in the order the source checks them.\<close>

definition validate_document :: "document \<Rightarrow> active_error option" where
  "validate_document d =
     (if \<not> valid_application_id (application d) then Some (set_error kInvalidValue ''/app'' ''invalid App ID'')
      else case doc_state d of
        kActive \<Rightarrow>
          if \<not> valid_version_id (version d) then Some (set_error kInvalidValue ''/version'' ''invalid Version ID'')
          else if \<not> valid_generation (generation d)
          then Some (set_error kInvalidValue ''/generation'' ''invalid generation digest'')
          else if previous_version d \<noteq> ''''
          then Some (set_error kInvalidValue ''/previousVersion'' ''tombstone field on an active state'')
          else if previous_generation d \<noteq> ''''
          then Some (set_error kInvalidValue ''/previousGeneration'' ''tombstone field on an active state'')
          else if reason d \<noteq> '''' then Some (set_error kInvalidValue ''/reason'' ''reason on an active state'')
          else None
      | kRetired \<Rightarrow>
          if \<not> valid_version_id (previous_version d)
          then Some (set_error kInvalidValue ''/previousVersion'' ''invalid previous Version ID'')
          else if \<not> valid_generation (previous_generation d)
          then Some (set_error kInvalidValue ''/previousGeneration'' ''invalid previous generation digest'')
          else if version d \<noteq> '''' then Some (set_error kInvalidValue ''/version'' ''version on a retired state'')
          else if generation d \<noteq> ''''
          then Some (set_error kInvalidValue ''/generation'' ''generation on a retired state'')
          else if reason d \<noteq> '''' then Some (set_error kInvalidValue ''/reason'' ''reason on a retired state'')
          else None
      | kQuarantined \<Rightarrow>
          if \<not> valid_version_id (version d) then Some (set_error kInvalidValue ''/version'' ''invalid Version ID'')
          else if \<not> valid_generation (generation d)
          then Some (set_error kInvalidValue ''/generation'' ''invalid generation digest'')
          else if reason d \<noteq> kCrashBudgetExceededReason
          then Some (set_error kInvalidValue ''/reason'' ''unknown quarantine reason'')
          else if previous_version d \<noteq> ''''
          then Some (set_error kInvalidValue ''/previousVersion'' ''tombstone field on a quarantined state'')
          else if previous_generation d \<noteq> ''''
          then Some (set_error kInvalidValue ''/previousGeneration'' ''tombstone field on a quarantined state'')
          else None)"

section \<open>The canonical text\<close>

definition kFieldNames :: "string list" where
  "kFieldNames = [''schema'', ''app'', ''state'', ''version'', ''generation'', ''previousVersion'',
     ''previousGeneration'', ''reason'']"

fun state_name :: "service_state \<Rightarrow> string" where
  "state_name kActive = ''active''"
| "state_name kRetired = ''retired''"
| "state_name kQuarantined = ''quarantined''"

fun field_forbidden_for_state :: "service_state \<Rightarrow> nat \<Rightarrow> bool" where
  "field_forbidden_for_state kActive field \<longleftrightarrow> field = 5 \<or> field = 6 \<or> field = 7"
| "field_forbidden_for_state kRetired field \<longleftrightarrow> field = 3 \<or> field = 4 \<or> field = 7"
| "field_forbidden_for_state kQuarantined field \<longleftrightarrow> field = 5 \<or> field = 6"

definition quote :: char where "quote = CHR 0x22"

definition quoted :: "string \<Rightarrow> string" where "quoted s = quote # s @ [quote]"

definition json_member :: "string \<Rightarrow> string \<Rightarrow> string" where
  "json_member k v = quoted k @ '':'' @ quoted v"

definition build_canonical_json :: "document \<Rightarrow> string" where
  "build_canonical_json d =
     ''{'' @ json_member ''schema'' kActiveStateSchema @ '','' @ json_member ''app'' (application d) @ '',''
     @ json_member ''state'' (state_name (doc_state d)) @ '',''
     @ (case doc_state d of
          kActive \<Rightarrow> json_member ''version'' (version d) @ '','' @ json_member ''generation'' (generation d)
        | kRetired \<Rightarrow> json_member ''previousVersion'' (previous_version d) @ '',''
            @ json_member ''previousGeneration'' (previous_generation d)
        | kQuarantined \<Rightarrow> json_member ''version'' (version d) @ '','' @ json_member ''generation'' (generation d) @ '',''
            @ json_member ''reason'' (reason d)) @ ''}''"

definition encode_active_state_json :: "document \<Rightarrow> active_error + document \<times> string" where
  "encode_active_state_json d =
     (case validate_document d of Some e \<Rightarrow> Inl e | None \<Rightarrow> Inr (d, build_canonical_json d))"

section \<open>Parsing\<close>

datatype json_value = JString string | JOther

datatype json_load = DuplicateKey | InvalidJson | NotObject | Object "(string \<times> json_value) list"

fun field_index :: "string \<Rightarrow> string list \<Rightarrow> nat" where
  "field_index key [] = 0"
| "field_index key (n # ns) = (if key = n then 0 else Suc (field_index key ns))"

text \<open>The loop over the members: \<open>present\<close> and \<open>values\<close>, indexed by field.\<close>

fun read_members :: "(string \<times> json_value) list \<Rightarrow> bool list \<Rightarrow> string list \<Rightarrow> active_error + bool list \<times> string list" where
  "read_members [] present values = Inr (present, values)"
| "read_members ((key, v) # ms) present values =
     (if CHR 0x00 \<in> set key then Inl (set_error kInvalidValue '''' ''object key contains a NUL byte'')
      else let index = field_index key kFieldNames in
      if index = length kFieldNames
      then Inl (set_error kUnknownField (''/'' @ escape_pointer_component key) ''unknown active state field'')
      else case v of
        JOther \<Rightarrow> Inl (set_error kInvalidValue (''/'' @ kFieldNames ! index) ''active state field must be a string'')
      | JString s \<Rightarrow> read_members ms (present[index := True]) (values[index := s]))"

definition parse_state :: "string \<Rightarrow> service_state option" where
  "parse_state s = (if s = ''active'' then Some kActive else if s = ''retired'' then Some kRetired
     else if s = ''quarantined'' then Some kQuarantined else None)"

definition document_of_fields :: "string \<Rightarrow> bool list \<Rightarrow> string list \<Rightarrow> active_error + document" where
  "document_of_fields expected_application present values =
     (if values ! 0 \<noteq> kActiveStateSchema
      then Inl (set_error kInvalidValue ''/schema'' ''unsupported active state schema'')
      else if values ! 1 \<noteq> expected_application \<or> \<not> valid_application_id (values ! 1)
      then Inl (set_error kInvalidValue ''/app'' ''invalid App ID'')
      else case parse_state (values ! 2) of
        None \<Rightarrow> Inl (set_error kInvalidValue ''/state'' ''unknown service state'')
      | Some state \<Rightarrow>
          (case find (\<lambda>field. present ! field \<and> field_forbidden_for_state state field) [0..<8] of
             Some field \<Rightarrow> Inl (set_error kInvalidValue (''/'' @ kFieldNames ! field) ''state-inapplicable field'')
           | None \<Rightarrow>
               (let d = \<lparr>doc_state = state, application = values ! 1, version = values ! 3, generation = values ! 4,
                         previous_version = values ! 5, previous_generation = values ! 6, reason = values ! 7\<rparr> in
                case validate_document d of Some e \<Rightarrow> Inl e | None \<Rightarrow> Inr d)))"

definition parse_active_state_json ::
  "(string \<Rightarrow> json_load) \<Rightarrow> string \<Rightarrow> string \<Rightarrow> active_error + document \<times> string" where
  "parse_active_state_json load expected_application json =
     (if length json > kMaxActiveStateBytes
      then Inl (set_error kResourceLimit '''' ''active state exceeds the size limit'')
      else case load json of
        DuplicateKey \<Rightarrow> Inl (set_error kDuplicateKey '''' ''invalid active state document'')
      | InvalidJson \<Rightarrow> Inl (set_error kInvalidJson '''' ''invalid active state document'')
      | NotObject \<Rightarrow> Inl (set_error kInvalidJson '''' ''active state must be a JSON object'')
      | Object ms \<Rightarrow>
          (case read_members ms (replicate 8 False) (replicate 8 '''') of
             Inl e \<Rightarrow> Inl e
           | Inr (present, values) \<Rightarrow>
               (case document_of_fields expected_application present values of
                  Inl e \<Rightarrow> Inl e
                | Inr d \<Rightarrow> Inr (d, build_canonical_json d))))"

section \<open>Replacing the file\<close>

datatype io_status = kOk | kNotFound | kAlreadyExists | kError

datatype completeness = kComplete | kMissing | kIncomplete | kInspectError

datatype fs_call = CreateTemp string | WriteTemp string string | SyncTemp string | RenameTemp string | SyncDirectory

record persist_result =
  persist_ok :: bool
  active_name_replaced :: bool
  temp_name :: string
  persist_error :: active_error

abbreviation (input) persist_failed :: "bool \<Rightarrow> string \<Rightarrow> active_error \<Rightarrow> persist_result" where
  "persist_failed replaced temp e \<equiv>
     \<lparr>persist_ok = False, active_name_replaced = replaced, temp_name = temp, persist_error = e\<rparr>"

text \<open>The file operations: the result, and the calls in the order they are made.\<close>

definition replace_active_file :: "(fs_call \<Rightarrow> io_status) \<Rightarrow> string \<Rightarrow> string \<Rightarrow> persist_result \<times> fs_call list" where
  "replace_active_file fs temp json =
     (let create = CreateTemp temp; wr = WriteTemp temp json; sync = SyncTemp temp; rename = RenameTemp temp;
          storage_error = (\<lambda>m. set_error kStorageError (''/'' @ temp) m) in
      if fs create = kAlreadyExists
      then (persist_failed False temp
              (set_error kTemporaryFileExists (''/'' @ temp) ''exclusive active-state temp already exists''), [create])
      else if fs create \<noteq> kOk
      then (persist_failed False temp (storage_error ''could not create the active-state temp''), [create])
      else if fs wr \<noteq> kOk
      then (persist_failed False temp (storage_error ''could not write the active-state temp''), [create, wr])
      else if fs sync \<noteq> kOk
      then (persist_failed False temp (storage_error ''could not sync the active-state temp''), [create, wr, sync])
      else if fs rename \<noteq> kOk
      then (persist_failed False temp (storage_error ''could not rename the active-state temp''), [create, wr, sync, rename])
      else if fs SyncDirectory \<noteq> kOk
      then (persist_failed True temp
              (set_error kDurabilityUncertain '''' ''active.json was replaced but the directory sync failed''),
            [create, wr, sync, rename, SyncDirectory])
      else (\<lparr>persist_ok = True, active_name_replaced = True, temp_name = temp, persist_error = set_error kNone '''' ''''\<rparr>,
            [create, wr, sync, rename, SyncDirectory]))"

definition persist_active_state ::
  "(fs_call \<Rightarrow> io_status) \<Rightarrow> (string \<Rightarrow> completeness) \<Rightarrow> document \<Rightarrow> string \<Rightarrow> persist_result \<times> fs_call list" where
  "persist_active_state fs inspect d operation_id =
     (if \<not> valid_operation_id operation_id
      then (persist_failed False '''' (set_error kInvalidValue ''/operationId'' ''invalid operation ID''), [])
      else case encode_active_state_json d of
        Inl e \<Rightarrow> (persist_failed False '''' e, [])
      | Inr (_, canonical_json) \<Rightarrow>
          if doc_state d = kActive \<and> inspect (generation d) \<noteq> kComplete
          then (persist_failed False ''''
                  (if inspect (generation d) = kInspectError
                   then set_error kStorageError ''/generation'' ''generation inspection failed''
                   else set_error kGenerationNotComplete ''/generation'' ''generation is not complete''), [])
          else replace_active_file fs (''active.json.tmp.'' @ operation_id) canonical_json)"

section \<open>Recovery\<close>

datatype recovery_action = kNoAction | kActivate | kKeepRetired | kKeepQuarantined

record recovery_result =
  recovery_ok :: bool
  recovery_action :: recovery_action
  recovery_document :: document
  stale_temp_cleanup_failed :: bool
  recovery_error :: active_error

definition recover_active_state ::
  "(string \<Rightarrow> json_load) \<Rightarrow> io_status \<Rightarrow> io_status \<times> string \<Rightarrow> (string \<Rightarrow> completeness) \<Rightarrow> string \<Rightarrow> recovery_result" where
  "recover_active_state load cleanup active_file inspect expected_application =
     (let r = \<lparr>recovery_ok = False, recovery_action = kNoAction, recovery_document = empty_document,
               stale_temp_cleanup_failed = (cleanup \<noteq> kOk), recovery_error = set_error kNone '''' ''''\<rparr> in
      if fst active_file = kNotFound then r\<lparr>recovery_ok := True\<rparr>
      else if fst active_file \<noteq> kOk
      then r\<lparr>recovery_error := set_error kStorageError '''' ''could not read active.json''\<rparr>
      else case parse_active_state_json load expected_application (snd active_file) of
        Inl e \<Rightarrow> r\<lparr>recovery_error := e\<rparr>
      | Inr (d, _) \<Rightarrow>
          let r = r\<lparr>recovery_document := d\<rparr> in
          (case doc_state d of
             kActive \<Rightarrow>
               if inspect (generation d) \<noteq> kComplete
               then r\<lparr>recovery_error :=
                      (if inspect (generation d) = kInspectError
                       then set_error kStorageError ''/generation'' ''generation inspection failed''
                       else set_error kGenerationNotComplete ''/generation'' ''active generation is not complete'')\<rparr>
               else r\<lparr>recovery_ok := True, recovery_action := kActivate\<rparr>
           | kRetired \<Rightarrow> r\<lparr>recovery_ok := True, recovery_action := kKeepRetired\<rparr>
           | kQuarantined \<Rightarrow> r\<lparr>recovery_ok := True, recovery_action := kKeepQuarantined\<rparr>))"

section \<open>Flat objects\<close>

text \<open>
  What is relied on of the JSON library: a text that lists string members without escapes under
  distinct names is loaded as an object with exactly those members, in some order.
\<close>

definition plain_text :: "string \<Rightarrow> bool" where
  "plain_text s \<longleftrightarrow> (\<forall>c \<in> set s. (0x20 :: nat) \<le> of_char c \<and> of_char c < (0x80 :: nat) \<and> c \<noteq> quote \<and> c \<noteq> CHR 0x5C)"

fun joined :: "string list \<Rightarrow> string" where
  "joined [] = ''''"
| "joined [m] = m"
| "joined (m # ms) = m @ '','' @ joined ms"

definition flat_object :: "(string \<times> string) list \<Rightarrow> string" where
  "flat_object ms = ''{'' @ joined (map (\<lambda>(k, v). json_member k v) ms) @ ''}''"

definition loads_flat :: "(string \<Rightarrow> json_load) \<Rightarrow> bool" where
  "loads_flat load \<longleftrightarrow>
     (\<forall>ms. distinct (map fst ms) \<and> (\<forall>(k, v) \<in> set ms. plain_text k \<and> plain_text v) \<longrightarrow>
        (\<exists>ms'. mset ms' = mset ms \<and> load (flat_object ms) = Object (map (\<lambda>(k, v). (k, JString v)) ms')))"

definition canonical_members :: "document \<Rightarrow> (string \<times> string) list" where
  "canonical_members d =
     [(''schema'', kActiveStateSchema), (''app'', application d), (''state'', state_name (doc_state d))]
     @ (case doc_state d of
          kActive \<Rightarrow> [(''version'', version d), (''generation'', generation d)]
        | kRetired \<Rightarrow> [(''previousVersion'', previous_version d), (''previousGeneration'', previous_generation d)]
        | kQuarantined \<Rightarrow> [(''version'', version d), (''generation'', generation d), (''reason'', reason d)])"

lemma canonical_is_flat: "build_canonical_json d = flat_object (canonical_members d)"
  by (simp add: build_canonical_json_def flat_object_def canonical_members_def split: service_state.split)

lemma plain_ascii [simp]:
  "ascii_lower c \<Longrightarrow> plain_text [c]" "ascii_upper c \<Longrightarrow> plain_text [c]" "ascii_digit c \<Longrightarrow> plain_text [c]"
  "ascii_hex_lower c \<Longrightarrow> plain_text [c]" "plain_text ''.''" "plain_text ''_''" "plain_text ''-''"
  by (auto simp: plain_text_def ascii_lower_def ascii_upper_def ascii_digit_def ascii_hex_lower_def quote_def less_eq_char_def)

lemma plain_append [simp]: "plain_text (s @ t) \<longleftrightarrow> plain_text s \<and> plain_text t"
  by (auto simp: plain_text_def)

lemma plain_list_all: "list_all P s \<Longrightarrow> (\<And>c. P c \<Longrightarrow> plain_text [c]) \<Longrightarrow> plain_text s"
  by (auto simp: plain_text_def list_all_iff)

lemma plain_ids:
  "valid_application_id v \<Longrightarrow> plain_text v" "valid_version_id v \<Longrightarrow> plain_text v"
  by (auto simp: valid_application_id_def valid_version_id_def elim!: plain_list_all split: if_splits)

lemma plain_generation: "valid_generation v \<Longrightarrow> plain_text v"
proof -
  assume v: "valid_generation v"
  then have h: "plain_text (drop 7 v)"
    by (auto simp: valid_generation_def elim!: plain_list_all split: if_splits)
  have "plain_text (take 7 v)"
    using v by (simp add: valid_generation_def plain_text_def quote_def split: if_splits)
  with h have "plain_text (take 7 v @ drop 7 v)" by (simp only: plain_append simp_thms)
  then show ?thesis by simp
qed

lemma canonical_members_plain:
  assumes "validate_document d = None"
  shows "distinct (map fst (canonical_members d)) \<and> (\<forall>(k, v) \<in> set (canonical_members d). plain_text k \<and> plain_text v)"
  using assms
  by (auto simp: validate_document_def canonical_members_def plain_ids plain_generation split: service_state.splits if_splits)
    (simp_all add: plain_text_def quote_def)

lemma valid_lengths:
  "valid_application_id v \<Longrightarrow> length v \<le> 63" "valid_version_id v \<Longrightarrow> length v \<le> 128" "valid_generation v \<Longrightarrow> length v = 71"
  by (auto simp: valid_application_id_def valid_version_id_def valid_generation_def split: if_splits)

lemma canonical_fits:
  assumes "validate_document d = None" shows "length (build_canonical_json d) \<le> kMaxActiveStateBytes"
  using assms valid_lengths(1) [of "application d"] valid_lengths(2) [of "version d"] valid_lengths(2) [of "previous_version d"]
    valid_lengths(3) [of "generation d"] valid_lengths(3) [of "previous_generation d"]
  by (simp add: build_canonical_json_def validate_document_def json_member_def quoted_def
      split: service_state.splits if_splits)

section \<open>Reading the members back\<close>

lemma field_index_bound: "field_index k ns \<le> length ns"
  by (induction ns) auto

lemma field_index_nth: "k \<in> set ns \<Longrightarrow> field_index k ns < length ns \<and> ns ! field_index k ns = k"
  by (induction ns) auto

lemma field_names_distinct: "distinct kFieldNames" and field_names_length: "length kFieldNames = 8"
  and field_names_no_nul: "k \<in> set kFieldNames \<Longrightarrow> CHR 0x00 \<notin> set k"
  by (auto simp: kFieldNames_def)

lemma read_members_spec:
  assumes "set (map fst ms) \<subseteq> set kFieldNames" and "distinct (map fst ms)"
    and "length present = 8" and "length vals = 8"
  shows "read_members (map (\<lambda>(k, v). (k, JString v)) ms) present vals =
    Inr (map (\<lambda>i. present ! i \<or> kFieldNames ! i \<in> fst ` set ms) [0..<8],
         map (\<lambda>i. case map_of ms (kFieldNames ! i) of Some v \<Rightarrow> v | None \<Rightarrow> vals ! i) [0..<8])"
  using assms
proof (induction ms arbitrary: present vals)
  case Nil
  then show ?case by (auto intro: nth_equalityI)
next
  case (Cons m ms)
  obtain k v where m: "m = (k, v)" by (cases m)
  let ?i = "field_index k kFieldNames"
  from Cons.prems m have k: "k \<in> set kFieldNames" "k \<notin> fst ` set ms" by auto
  from field_index_nth [OF k(1)] have i: "?i < 8" "kFieldNames ! ?i = k" by (simp_all add: field_names_length)
  have eq: "kFieldNames ! j = k \<longleftrightarrow> j = ?i" if "j < 8" for j
    using that i field_names_distinct field_names_length by (metis nth_eq_iff_index_eq)
  have none: "map_of ms (kFieldNames ! ?i) = None" using k(2) i(2) by (simp add: map_of_eq_None_iff)
  have "read_members (map (\<lambda>(k, v). (k, JString v)) (m # ms)) present vals =
      read_members (map (\<lambda>(k, v). (k, JString v)) ms) (present[?i := True]) (vals[?i := v])"
    using m i(1) field_names_no_nul [OF k(1)] by (simp add: field_names_length Let_def)
  also have "\<dots> = Inr (map (\<lambda>j. present[?i := True] ! j \<or> kFieldNames ! j \<in> fst ` set ms) [0..<8],
         map (\<lambda>j. case map_of ms (kFieldNames ! j) of Some w \<Rightarrow> w | None \<Rightarrow> vals[?i := v] ! j) [0..<8])"
    using Cons.prems by (intro Cons.IH) auto
  also have "\<dots> = Inr (map (\<lambda>i. present ! i \<or> kFieldNames ! i \<in> fst ` set (m # ms)) [0..<8],
         map (\<lambda>i. case map_of (m # ms) (kFieldNames ! i) of Some v \<Rightarrow> v | None \<Rightarrow> vals ! i) [0..<8])"
    using Cons.prems(3,4) m eq none i(1) by (auto simp: nth_list_update split: option.splits)
  finally show ?case .
qed

lemma map_of_same_members:
  assumes "mset xs = mset ys" and "distinct (map fst ys)"
  shows "map_of xs = map_of ys" and "set xs = set ys" and "distinct (map fst xs)"
proof -
  show "set xs = set ys" using assms(1) by (metis set_mset_mset)
  have "mset (map fst xs) = mset (map fst ys)" using assms(1) by simp
  with assms(2) show "distinct (map fst xs)" by (metis distinct_count_atmost_1 mset_eq_setD)
  with assms(2) \<open>set xs = set ys\<close> show "map_of xs = map_of ys" by (simp add: map_of_inject_set)
qed

lemma document_of_canonical_fields:
  assumes "validate_document d = None"
  shows "document_of_fields (application d)
      (map (\<lambda>i. False \<or> kFieldNames ! i \<in> fst ` set (canonical_members d)) [0..<8])
      (map (\<lambda>i. case map_of (canonical_members d) (kFieldNames ! i) of Some v \<Rightarrow> v | None \<Rightarrow> '''') [0..<8]) = Inr d"
  using assms
  by (cases d; cases "doc_state d")
    (simp_all add: validate_document_def document_of_fields_def canonical_members_def kFieldNames_def parse_state_def
      upt_rec split: if_splits)

lemma active_state_reads_back:
  assumes "validate_document d = None" and "loads_flat load"
  shows "parse_active_state_json load (application d) (build_canonical_json d) = Inr (d, build_canonical_json d)"
proof -
  note plain = canonical_members_plain [OF assms(1)]
  from assms(2) plain obtain ms where ms: "mset ms = mset (canonical_members d)"
    and load: "load (build_canonical_json d) = Object (map (\<lambda>(k, v). (k, JString v)) ms)"
    unfolding loads_flat_def canonical_is_flat by blast
  note same = map_of_same_members [OF ms conjunct1 [OF plain]]
  have "set (map fst ms) \<subseteq> set kFieldNames"
    using same(2) by (auto simp: canonical_members_def kFieldNames_def split: service_state.splits)
  from read_members_spec [OF this same(3), of "replicate 8 False" "replicate 8 ''''"]
  have "read_members (map (\<lambda>(k, v). (k, JString v)) ms) (replicate 8 False) (replicate 8 '''') =
     Inr (map (\<lambda>i. False \<or> kFieldNames ! i \<in> fst ` set (canonical_members d)) [0..<8],
          map (\<lambda>i. case map_of (canonical_members d) (kFieldNames ! i) of Some v \<Rightarrow> v | None \<Rightarrow> '''') [0..<8])"
    unfolding same(1,2) by (simp cong: option.case_cong)
  then show ?thesis
    using load canonical_fits [OF assms(1)] document_of_canonical_fields [OF assms(1)]
    by (simp add: parse_active_state_json_def)
qed

lemma parsed_document_valid:
  assumes "parse_active_state_json load expected json = Inr (d, j)"
  shows "validate_document d = None \<and> application d = expected \<and> j = build_canonical_json d"
proof -
  from assms obtain present vals where "document_of_fields expected present vals = Inr d" "j = build_canonical_json d"
    by (auto simp: parse_active_state_json_def split: if_splits json_load.splits sum.splits)
  then show ?thesis
    by (auto simp: document_of_fields_def Let_def split: if_splits option.splits)
qed

section \<open>The disk\<close>

text \<open>
  A disk that the file calls act on: the content of \<open>active.json\<close> and of the temporary files. A
  successful write leaves exactly the bytes written and a failed one any content; a rename moves
  the temporary file over \<open>active.json\<close> or does nothing.
\<close>

record disk =
  active_content :: "string option"
  temps :: "string \<rightharpoonup> string"

inductive disk_step :: "fs_call \<Rightarrow> io_status \<Rightarrow> disk \<Rightarrow> disk \<Rightarrow> bool" where
  created: "disk_step (CreateTemp n) kOk d (d\<lparr>temps := (temps d)(n \<mapsto> '''')\<rparr>)"
| written: "disk_step (WriteTemp n s) kOk d (d\<lparr>temps := (temps d)(n \<mapsto> s)\<rparr>)"
| garbled: "st \<noteq> kOk \<Longrightarrow> disk_step (WriteTemp n s) st d (d\<lparr>temps := (temps d)(n \<mapsto> t)\<rparr>)"
| synced: "disk_step (SyncTemp n) st d d"
| renamed: "disk_step (RenameTemp n) kOk d (d\<lparr>active_content := temps d n, temps := (temps d)(n := None)\<rparr>)"
| directory: "disk_step SyncDirectory st d d"
| refused: "st \<noteq> kOk \<Longrightarrow> disk_step call st d d"

inductive_simps disk_step_simps [simp]:
  "disk_step (CreateTemp n) st d d'" "disk_step (WriteTemp n s) st d d'" "disk_step (SyncTemp n) st d d'"
  "disk_step (RenameTemp n) st d d'" "disk_step SyncDirectory st d d'"

fun disk_run :: "(fs_call \<Rightarrow> io_status) \<Rightarrow> fs_call list \<Rightarrow> disk \<Rightarrow> disk \<Rightarrow> bool" where
  "disk_run fs [] d d' \<longleftrightarrow> d' = d"
| "disk_run fs (call # calls) d d' \<longleftrightarrow> (\<exists>d1. disk_step call (fs call) d d1 \<and> disk_run fs calls d1 d')"

text \<open>A crash after \<open>n\<close> of the calls, or in the middle of the next one, which may have had its effect or not.\<close>

definition crash_state :: "(fs_call \<Rightarrow> io_status) \<Rightarrow> fs_call list \<Rightarrow> nat \<Rightarrow> disk \<Rightarrow> disk \<Rightarrow> bool" where
  "crash_state fs calls n d d' \<longleftrightarrow>
     (\<exists>d1. disk_run fs (take n calls) d d1
        \<and> (d' = d1 \<or> n < length calls \<and> (\<exists>st. disk_step (calls ! n) st d1 d')))"

definition read_disk :: "disk \<Rightarrow> io_status \<times> string" where
  "read_disk d = (case active_content d of None \<Rightarrow> (kNotFound, '''') | Some s \<Rightarrow> (kOk, s))"

lemma crash_state_Nil [simp]: "crash_state fs [] n d d' \<longleftrightarrow> d' = d"
  by (simp add: crash_state_def)

lemma crash_state_Cons:
  "crash_state fs (call # calls) n d d' \<longleftrightarrow>
     (case n of 0 \<Rightarrow> d' = d \<or> (\<exists>st. disk_step call st d d')
      | Suc m \<Rightarrow> (\<exists>d1. disk_step call (fs call) d d1 \<and> crash_state fs calls m d1 d'))"
  by (cases n) (auto simp: crash_state_def)

lemma replace_active_file_crash:
  assumes "replace_active_file fs temp json = (r, calls)" and "crash_state fs calls n d d'"
  shows "(active_content d' = active_content d \<or> active_content d' = Some json)
    \<and> (active_name_replaced r \<and> length calls \<le> n \<longrightarrow> active_content d' = Some json)
    \<and> (\<not> active_name_replaced r \<and> length calls \<le> n \<longrightarrow> active_content d' = active_content d)"
  using assms
  by (auto simp: replace_active_file_def Let_def crash_state_Cons split: if_splits nat.splits)

section \<open>A loader\<close>

text \<open>A loader of flat objects, which shows that the assumption on the JSON library can be met.\<close>

definition take_quoted :: "string \<Rightarrow> (string \<times> string) option" where
  "take_quoted s =
     (case s of
        [] \<Rightarrow> None
      | c # r \<Rightarrow> let t = takeWhile (\<lambda>c. c \<noteq> quote) r in
          if c = quote \<and> length t < length r then Some (t, drop (length t + 1) r) else None)"

fun load_members :: "nat \<Rightarrow> string \<Rightarrow> (string \<times> string) list option" where
  "load_members 0 s = None"
| "load_members (Suc n) s =
     (case take_quoted s of
        Some (k, c # r) \<Rightarrow>
          if c \<noteq> CHR '':'' then None
          else (case take_quoted r of
            Some (v, [d]) \<Rightarrow> if d = CHR ''}'' then Some [(k, v)] else None
          | Some (v, d # r) \<Rightarrow> if d = CHR '','' then map_option (Cons (k, v)) (load_members n r) else None
          | _ \<Rightarrow> None)
      | _ \<Rightarrow> None)"

definition load_flat :: "string \<Rightarrow> json_load" where
  "load_flat s =
     (if s = ''{}'' then Object []
      else case load_members (length s) (drop 1 s) of
        None \<Rightarrow> InvalidJson
      | Some ms \<Rightarrow> if distinct (map fst ms) then Object (map (\<lambda>(k, v). (k, JString v)) ms) else DuplicateKey)"

lemma take_quoted_quoted:
  assumes "quote \<notin> set t" shows "take_quoted (quoted t @ r) = Some (t, r)"
proof -
  have "takeWhile (\<lambda>c. c \<noteq> quote) (t @ quote # r) = t" using assms by (induction t) auto
  then show ?thesis by (simp add: take_quoted_def quoted_def)
qed

lemma load_members_joined:
  assumes "ms \<noteq> []" and "length ms \<le> n" and "\<forall>(k, v) \<in> set ms. quote \<notin> set k \<and> quote \<notin> set v"
  shows "load_members n (joined (map (\<lambda>(k, v). json_member k v) ms) @ ''}'') = Some ms"
  using assms
proof (induction ms arbitrary: n rule: list_nonempty_induct)
  case (single m)
  then show ?case
    by (cases m; cases n) (simp_all add: json_member_def take_quoted_quoted)
next
  case (cons m ms)
  obtain k v where m: "m = (k, v)" by (cases m)
  obtain n' where n: "n = Suc n'" using cons.prems by (cases n) auto
  let ?rest = "joined (map (\<lambda>(k, v). json_member k v) ms) @ ''}''"
  have "joined (map (\<lambda>(k, v). json_member k v) (m # ms)) @ ''}'' = json_member k v @ '','' @ ?rest"
    using cons.hyps m by (cases ms) simp_all
  moreover have "?rest \<noteq> []" by simp
  moreover have "load_members n' ?rest = Some ms" using cons.prems n by (intro cons.IH) auto
  ultimately show ?case
    using cons.prems n m by (cases ?rest) (simp_all add: json_member_def take_quoted_quoted)
qed

lemma length_joined: "length ms \<le> length (joined (map (\<lambda>(k, v). json_member k v) ms))"
proof (induction ms rule: induct_list012)
  case (3 m1 m2 ms)
  then show ?case by (cases m1) (simp add: json_member_def quoted_def)
qed (auto simp: json_member_def quoted_def)

lemma plain_no_quote: "plain_text s \<Longrightarrow> quote \<notin> set s"
  by (auto simp: plain_text_def)

lemma load_flat_loads: "loads_flat load_flat"
proof -
  have "load_flat (flat_object ms) = Object (map (\<lambda>(k, v). (k, JString v)) ms)"
    if d: "distinct (map fst ms)" and p: "\<forall>(k, v) \<in> set ms. plain_text k \<and> plain_text v" for ms
  proof (cases "ms = []")
    case True
    then have "flat_object ms = ''{}''" by (simp add: flat_object_def)
    with True show ?thesis by (simp add: load_flat_def)
  next
    case False
    from p have q: "\<forall>(k, v) \<in> set ms. quote \<notin> set k \<and> quote \<notin> set v"
      using plain_no_quote by blast
    let ?text = "joined (map (\<lambda>(k, v). json_member k v) ms)"
    have "?text \<noteq> []" using length_joined [of ms] False by auto
    then have ne: "flat_object ms \<noteq> ''{}''" and body: "drop 1 (flat_object ms) = ?text @ ''}''"
      by (simp_all add: flat_object_def)
    have "load_members (length (flat_object ms)) (?text @ ''}'') = Some ms"
      using length_joined [of ms] by (intro load_members_joined [OF False _ q]) (simp add: flat_object_def)
    then show ?thesis using ne body d by (simp add: load_flat_def)
  qed
  then show ?thesis by (auto simp: loads_flat_def)
qed

section \<open>Properties\<close>


definition sample_document :: document where
  "sample_document = empty_document\<lparr>application := ''shop'', version := ''v1'', generation := ''sha256:'' @ replicate 64 CHR ''a''\<rparr>"

lemma sample_document_valid: "validate_document sample_document = None"
  by code_simp




end
