(* ===== verification/Service_Lifecycle.thy ===== *)
theory Service_Lifecycle
  imports Active_State
begin

text \<open>
  The life cycle of a service (\<open>src/host/service_lifecycle.cc\<close>): which phase and document belong
  together, how a request is routed, what recovery starts, and the transitions of retiring and
  quarantining a service, with the explicit deployment that ends them. The transitions return the
  effects the control plane has to carry out.
\<close>

section \<open>Types\<close>

datatype phase = kAbsent | kActive | kRetiring | kRetired | kQuarantining | kQuarantined | kDurabilityUncertain | kFailedClosed

record lifecycle =
  phase :: phase
  doc :: "document option"

datatype disposition = kServeActive | kNotFound | kUnavailable

datatype lifecycle_error_code = kNone | kInvalidState | kInvalidRecovery | kNotFound | kBusy | kPersistenceFailed
  | kDurabilityUncertain | kInvalidPersistenceResult | kInvalidDeployTarget | kVersionImmutabilityConflict

record lifecycle_error =
  error_code :: lifecycle_error_code
  error_path :: string
  error_message :: string

record effects =
  persist_required :: bool
  persist_document :: document
  stop_new_requests :: bool
  begin_drain :: bool
  retry_persistence :: bool
  block_state_writes :: bool
  idempotent :: bool

record transition =
  ok :: bool
  state :: lifecycle
  effects :: effects
  error :: lifecycle_error

abbreviation (input) lifecycle_error_of :: "lifecycle_error_code \<Rightarrow> string \<Rightarrow> string \<Rightarrow> lifecycle_error" where
  "lifecycle_error_of c p m \<equiv> \<lparr>error_code = c, error_path = p, error_message = m\<rparr>"

definition no_effects :: effects where
  "no_effects = \<lparr>persist_required = False, persist_document = empty_document, stop_new_requests = False,
     begin_drain = False, retry_persistence = False, block_state_writes = False, idempotent = False\<rparr>"

text \<open>A transition as it is constructed: not ok, an absent service, no effects.\<close>

definition new_transition :: transition where
  "new_transition = \<lparr>ok = False, state = \<lparr>phase = kAbsent, doc = None\<rparr>, effects = no_effects,
     error = lifecycle_error_of lifecycle_error_code.kNone '''' ''''\<rparr>"

abbreviation (input) rejected :: "lifecycle_error_code \<Rightarrow> string \<Rightarrow> string \<Rightarrow> transition" where
  "rejected c p m \<equiv> new_transition\<lparr>error := lifecycle_error_of c p m\<rparr>"

section \<open>Phases and documents\<close>

definition document_matches_phase :: "phase \<Rightarrow> document option \<Rightarrow> bool" where
  "document_matches_phase ph d =
     (case d of
        None \<Rightarrow> ph = kAbsent \<or> ph = kFailedClosed
      | Some d \<Rightarrow>
          if isl (encode_active_state_json d) then False
          else case ph of
            kAbsent \<Rightarrow> False
          | phase.kActive \<Rightarrow> doc_state d = service_state.kActive
          | phase.kRetired \<Rightarrow> doc_state d = service_state.kRetired
          | phase.kQuarantined \<Rightarrow> doc_state d = service_state.kQuarantined
          | kRetiring \<Rightarrow> doc_state d = service_state.kActive \<or> doc_state d = service_state.kRetired
              \<or> doc_state d = service_state.kQuarantined
          | kQuarantining \<Rightarrow> doc_state d = service_state.kActive
          | phase.kDurabilityUncertain \<Rightarrow> True
          | kFailedClosed \<Rightarrow> True)"

definition retired_tombstone :: "document \<Rightarrow> document" where
  "retired_tombstone source = empty_document\<lparr>doc_state := service_state.kRetired, application := application source,
     previous_version := version source, previous_generation := generation source\<rparr>"

definition quarantined_document :: "document \<Rightarrow> document" where
  "quarantined_document source = empty_document\<lparr>doc_state := service_state.kQuarantined, application := application source,
     version := version source, generation := generation source, reason := kCrashBudgetExceededReason\<rparr>"

definition service_route_disposition :: "lifecycle \<Rightarrow> disposition" where
  "service_route_disposition s =
     (if \<not> document_matches_phase (phase s) (doc s) then kUnavailable
      else case phase s of
        kAbsent \<Rightarrow> disposition.kNotFound
      | phase.kActive \<Rightarrow> kServeActive
      | phase.kRetired \<Rightarrow> disposition.kNotFound
      | kRetiring \<Rightarrow> if doc_state (the (doc s)) = service_state.kRetired then disposition.kNotFound else kUnavailable
      | _ \<Rightarrow> kUnavailable)"

definition service_allows_automatic_replacement :: "lifecycle \<Rightarrow> bool" where
  "service_allows_automatic_replacement s \<longleftrightarrow>
     document_matches_phase (phase s) (doc s) \<and> phase s = phase.kActive"

section \<open>Recovery\<close>

record recovery_plan =
  plan_ok :: bool
  plan_state :: lifecycle
  start_pool :: bool
  publish_active_after_ready :: bool
  stale_temp_cleanup_warning :: bool
  plan_error :: lifecycle_error

definition plan_service_recovery :: "recovery_result \<Rightarrow> recovery_plan" where
  "plan_service_recovery r =
     (let plan = \<lparr>plan_ok = False, plan_state = \<lparr>phase = kAbsent, doc = None\<rparr>, start_pool = False,
                  publish_active_after_ready = False, stale_temp_cleanup_warning = stale_temp_cleanup_failed r,
                  plan_error = lifecycle_error_of lifecycle_error_code.kNone '''' ''''\<rparr>;
          closed = (\<lambda>m. plan\<lparr>plan_state := \<lparr>phase = kFailedClosed, doc = None\<rparr>,
                             plan_error := lifecycle_error_of kInvalidRecovery ''/recovery'' m\<rparr>);
          d = recovery_document r;
          keep = (\<lambda>st ph. if doc_state d \<noteq> st \<or> isl (encode_active_state_json d)
                          then closed ''recovery action and document mismatch''
                          else plan\<lparr>plan_ok := True, plan_state := \<lparr>phase = ph, doc = Some d\<rparr>\<rparr>) in
      if \<not> recovery_ok r then closed ''active state recovery failed''
      else if code (recovery_error r) \<noteq> active_error_code.kNone \<or> path (recovery_error r) \<noteq> ''''
              \<or> message (recovery_error r) \<noteq> ''''
      then closed ''recovery success carries a contradictory error''
      else case recovery_action r of
        kNoAction \<Rightarrow>
          if doc_state d \<noteq> service_state.kActive \<or> application d \<noteq> '''' \<or> version d \<noteq> '''' \<or> generation d \<noteq> ''''
             \<or> previous_version d \<noteq> '''' \<or> previous_generation d \<noteq> '''' \<or> reason d \<noteq> ''''
          then closed ''recovery action and document mismatch''
          else plan\<lparr>plan_ok := True\<rparr>
      | kActivate \<Rightarrow>
          let p = keep service_state.kActive phase.kActive in
          if plan_ok p then p\<lparr>start_pool := True, publish_active_after_ready := True\<rparr> else p
      | kKeepRetired \<Rightarrow> keep service_state.kRetired phase.kRetired
      | kKeepQuarantined \<Rightarrow> keep service_state.kQuarantined phase.kQuarantined)"

section \<open>Transitions\<close>

definition request_service_retire :: "lifecycle \<Rightarrow> transition" where
  "request_service_retire s =
     (if \<not> document_matches_phase (phase s) (doc s)
      then rejected kInvalidState ''/state'' ''lifecycle phase and document are inconsistent''
      else let retire = new_transition\<lparr>ok := True, state := \<lparr>phase = kRetiring, doc = doc s\<rparr>,
             effects := no_effects\<lparr>persist_required := True, persist_document := retired_tombstone (the (doc s)),
                                   stop_new_requests := True\<rparr>\<rparr> in
      case phase s of
        phase.kRetired \<Rightarrow> new_transition\<lparr>ok := True, state := s, effects := no_effects\<lparr>idempotent := True\<rparr>\<rparr>
      | kAbsent \<Rightarrow> rejected lifecycle_error_code.kNotFound ''/state'' ''cannot retire an absent App''
      | phase.kActive \<Rightarrow> retire
      | phase.kQuarantined \<Rightarrow> retire
      | kRetiring \<Rightarrow> rejected kBusy ''/state'' ''a lifecycle mutation is already in progress''
      | kQuarantining \<Rightarrow> rejected kBusy ''/state'' ''a lifecycle mutation is already in progress''
      | phase.kDurabilityUncertain \<Rightarrow> rejected lifecycle_error_code.kDurabilityUncertain ''/state''
          ''state writes are blocked by a durability incident''
      | kFailedClosed \<Rightarrow> rejected kInvalidState ''/state'' ''cannot mutate a fail-closed service'')"

definition enter_service_quarantine :: "lifecycle \<Rightarrow> transition" where
  "enter_service_quarantine s =
     (if phase s \<noteq> phase.kActive \<or> \<not> document_matches_phase (phase s) (doc s)
      then rejected kInvalidState ''/state'' ''quarantine requires a complete active state''
      else new_transition\<lparr>ok := True, state := \<lparr>phase = kQuarantining, doc = doc s\<rparr>,
             effects := no_effects\<lparr>persist_required := True, persist_document := quarantined_document (the (doc s)),
                                   stop_new_requests := True\<rparr>\<rparr>)"

definition clean_success :: "persist_result \<Rightarrow> bool" where
  "clean_success p \<longleftrightarrow> persist_ok p \<and> active_name_replaced p \<and> code (persist_error p) = active_error_code.kNone
     \<and> path (persist_error p) = '''' \<and> message (persist_error p) = ''''"

definition pre_rename_failure :: "persist_result \<Rightarrow> bool" where
  "pre_rename_failure p \<longleftrightarrow> \<not> persist_ok p \<and> \<not> active_name_replaced p
     \<and> code (persist_error p) \<noteq> active_error_code.kNone \<and> code (persist_error p) \<noteq> active_error_code.kDurabilityUncertain"

definition durability_unknown :: "persist_result \<Rightarrow> bool" where
  "durability_unknown p \<longleftrightarrow> \<not> persist_ok p \<and> active_name_replaced p
     \<and> code (persist_error p) = active_error_code.kDurabilityUncertain"

text \<open>What a persistence result makes of a pending mutation of the document \<open>d\<close>.\<close>

definition resolve_pending :: "phase \<Rightarrow> document \<Rightarrow> persist_result \<Rightarrow> transition" where
  "resolve_pending ph d p =
     (let uncertain = new_transition\<lparr>state := \<lparr>phase = phase.kDurabilityUncertain, doc = Some d\<rparr>,
            effects := no_effects\<lparr>stop_new_requests := True, block_state_writes := True\<rparr>\<rparr> in
      if \<not> clean_success p \<and> \<not> pre_rename_failure p \<and> \<not> durability_unknown p
      then uncertain\<lparr>error := lifecycle_error_of kInvalidPersistenceResult ''/persistence''
             ''persistence result is self-contradictory''\<rparr>
      else if clean_success p
      then new_transition\<lparr>ok := True,
             state := (if ph = kRetiring then \<lparr>phase = kRetiring, doc = Some (retired_tombstone d)\<rparr>
                       else \<lparr>phase = phase.kQuarantined, doc = Some (quarantined_document d)\<rparr>),
             effects := no_effects\<lparr>begin_drain := True\<rparr>\<rparr>
      else if durability_unknown p
      then uncertain\<lparr>error := lifecycle_error_of lifecycle_error_code.kDurabilityUncertain ''/persistence''
             ''active.json may have been replaced without durable sync''\<rparr>
      else let failed = lifecycle_error_of kPersistenceFailed ''/persistence''
                 ''active state persistence failed before the rename'' in
        if ph = kRetiring
        then new_transition\<lparr>state := \<lparr>phase = (if doc_state d = service_state.kQuarantined then phase.kQuarantined
                                            else phase.kActive), doc = Some d\<rparr>, error := failed\<rparr>
        else new_transition\<lparr>state := \<lparr>phase = kQuarantining, doc = Some d\<rparr>,
               effects := no_effects\<lparr>persist_required := True, persist_document := quarantined_document d,
                                     stop_new_requests := True, retry_persistence := True\<rparr>,
               error := failed\<rparr>)"

definition resolve_service_state_persistence :: "lifecycle \<Rightarrow> persist_result \<Rightarrow> transition" where
  "resolve_service_state_persistence s p =
     (if (phase s \<noteq> kRetiring \<and> phase s \<noteq> kQuarantining) \<or> \<not> document_matches_phase (phase s) (doc s)
      then rejected kInvalidState ''/state'' ''persistence result without a pending mutation''
      else let d = the (doc s) in
      if doc_state d = service_state.kRetired \<or> (phase s = kQuarantining \<and> doc_state d \<noteq> service_state.kActive)
      then rejected kInvalidState ''/state'' ''persistence result without a pending mutation''
      else resolve_pending (phase s) d p)"

definition complete_service_retire_drain :: "lifecycle \<Rightarrow> transition" where
  "complete_service_retire_drain s =
     (if phase s = phase.kRetired \<and> document_matches_phase (phase s) (doc s)
      then new_transition\<lparr>ok := True, state := s, effects := no_effects\<lparr>idempotent := True\<rparr>\<rparr>
      else if phase s \<noteq> kRetiring \<or> \<not> document_matches_phase (phase s) (doc s)
              \<or> doc_state (the (doc s)) \<noteq> service_state.kRetired
      then rejected kInvalidState ''/state'' ''retire drain requires a committed retired tombstone''
      else new_transition\<lparr>ok := True, state := \<lparr>phase = phase.kRetired, doc = doc s\<rparr>\<rparr>)"

section \<open>Explicit deployment\<close>

datatype deploy_action = kAlreadyActive | kWarmAndActivate | kRejectBusy | kRejectDurabilityUncertain
  | kRejectInvalidState | kVersionConflict

record deploy_plan =
  deploy_ok :: bool
  deploy_action :: deploy_action
  reset_instability_budget_after_activation :: bool
  deploy_error :: lifecycle_error

abbreviation (input) reject_deploy :: "deploy_action \<Rightarrow> lifecycle_error_code \<Rightarrow> string \<Rightarrow> string \<Rightarrow> deploy_plan" where
  "reject_deploy a c p m \<equiv> \<lparr>deploy_ok = False, deploy_action = a, reset_instability_budget_after_activation = False,
     deploy_error = lifecycle_error_of c p m\<rparr>"

abbreviation (input) accept_deploy :: "deploy_action \<Rightarrow> bool \<Rightarrow> deploy_plan" where
  "accept_deploy a reset \<equiv> \<lparr>deploy_ok = True, deploy_action = a, reset_instability_budget_after_activation = reset,
     deploy_error = lifecycle_error_of lifecycle_error_code.kNone '''' ''''\<rparr>"

definition deploy_target :: "string \<Rightarrow> string \<Rightarrow> string \<Rightarrow> document" where
  "deploy_target app ver gen = empty_document\<lparr>application := app, version := ver, generation := gen\<rparr>"

definition version_conflict :: deploy_plan where
  "version_conflict = reject_deploy kVersionConflict kVersionImmutabilityConflict ''/version''
     ''Version ID is already mapped to another generation''"

definition plan_explicit_service_deploy :: "lifecycle \<Rightarrow> string \<Rightarrow> string \<Rightarrow> string \<Rightarrow> deploy_plan" where
  "plan_explicit_service_deploy s app ver gen =
     (if \<not> document_matches_phase (phase s) (doc s)
      then reject_deploy kRejectInvalidState kInvalidState ''/state'' ''lifecycle phase and document are inconsistent''
      else case encode_active_state_json (deploy_target app ver gen) of
        Inl e \<Rightarrow> reject_deploy kRejectInvalidState kInvalidDeployTarget (path e) (message e)
      | Inr _ \<Rightarrow>
          if doc s \<noteq> None \<and> application (the (doc s)) \<noteq> app
          then reject_deploy kRejectInvalidState kInvalidDeployTarget ''/app''
                 ''deploy application differs from the service application''
          else let d = the (doc s) in
          case phase s of
            kAbsent \<Rightarrow> accept_deploy kWarmAndActivate False
          | phase.kActive \<Rightarrow>
              if version d = ver \<and> generation d = gen then accept_deploy kAlreadyActive False
              else if version d = ver then version_conflict
              else accept_deploy kWarmAndActivate False
          | phase.kRetired \<Rightarrow>
              if previous_version d = ver \<and> previous_generation d \<noteq> gen then version_conflict
              else accept_deploy kWarmAndActivate False
          | phase.kQuarantined \<Rightarrow>
              if version d = ver \<and> generation d \<noteq> gen then version_conflict
              else accept_deploy kWarmAndActivate True
          | kRetiring \<Rightarrow> reject_deploy kRejectBusy kBusy ''/state'' ''a lifecycle mutation is already in progress''
          | kQuarantining \<Rightarrow> reject_deploy kRejectBusy kBusy ''/state'' ''a lifecycle mutation is already in progress''
          | phase.kDurabilityUncertain \<Rightarrow>
              reject_deploy kRejectDurabilityUncertain lifecycle_error_code.kDurabilityUncertain ''/state''
                ''deploy is blocked by a durability incident''
          | kFailedClosed \<Rightarrow> reject_deploy kRejectInvalidState kInvalidState ''/state''
              ''cannot deploy a fail-closed service'')"

section \<open>Documents of the transitions\<close>

lemma isl_encode [simp]: "isl (encode_active_state_json d) \<longleftrightarrow> validate_document d \<noteq> None"
  by (auto simp: encode_active_state_json_def split: option.splits)

lemma tombstone_valid:
  assumes "validate_document d = None" and "doc_state d \<noteq> service_state.kRetired"
  shows "validate_document (retired_tombstone d) = None"
  using assms by (auto simp: validate_document_def retired_tombstone_def empty_document_def split: if_splits service_state.splits)

lemma quarantined_valid:
  assumes "validate_document d = None" and "doc_state d = service_state.kActive"
  shows "validate_document (quarantined_document d) = None"
  using assms by (auto simp: validate_document_def quarantined_document_def empty_document_def split: if_splits)

lemma document_fields [simp]:
  "doc_state (retired_tombstone d) = service_state.kRetired" "application (retired_tombstone d) = application d"
  "doc_state (quarantined_document d) = service_state.kQuarantined" "application (quarantined_document d) = application d"
  "doc_state (deploy_target app ver gen) = service_state.kActive" "application (deploy_target app ver gen) = app"
  by (simp_all add: retired_tombstone_def quarantined_document_def deploy_target_def empty_document_def)

lemma new_transition_fields [simp]:
  "ok new_transition = False" "effects new_transition = no_effects" "state new_transition = \<lparr>phase = kAbsent, doc = None\<rparr>"
  "error_code (error new_transition) = lifecycle_error_code.kNone" "persist_required no_effects = False"
  "idempotent no_effects = False"
  by (simp_all add: new_transition_def no_effects_def)

section \<open>Runs\<close>

text \<open>
  The steps of a service: the accepted transitions, the outcome of a pending write whether it
  succeeded or not, and a deployment that warmed up.
\<close>

inductive lifecycle_step :: "lifecycle \<Rightarrow> lifecycle \<Rightarrow> bool" where
  retire: "ok (request_service_retire s) \<Longrightarrow> lifecycle_step s (state (request_service_retire s))"
| quarantine: "ok (enter_service_quarantine s) \<Longrightarrow> lifecycle_step s (state (enter_service_quarantine s))"
| resolve: "error_code (error (resolve_service_state_persistence s p)) \<noteq> kInvalidState \<Longrightarrow>
    lifecycle_step s (state (resolve_service_state_persistence s p))"
| drained: "ok (complete_service_retire_drain s) \<Longrightarrow> lifecycle_step s (state (complete_service_retire_drain s))"

inductive deploy_step :: "lifecycle \<Rightarrow> lifecycle \<Rightarrow> bool" where
  deployed: "deploy_ok (plan_explicit_service_deploy s app ver gen) \<Longrightarrow>
    deploy_action (plan_explicit_service_deploy s app ver gen) = kWarmAndActivate \<Longrightarrow>
    deploy_step s \<lparr>phase = phase.kActive, doc = Some (deploy_target app ver gen)\<rparr>"

inductive reachable :: "lifecycle \<Rightarrow> bool" where
  recovered: "reachable (plan_state (plan_service_recovery r))"
| transition: "reachable s \<Longrightarrow> lifecycle_step s s' \<Longrightarrow> reachable s'"
| deploy: "reachable s \<Longrightarrow> deploy_step s s' \<Longrightarrow> reachable s'"

abbreviation (input) consistent :: "lifecycle \<Rightarrow> bool" where
  "consistent s \<equiv> document_matches_phase (phase s) (doc s)"

text \<open>A service that was withdrawn from serving for good: only a deployment brings it back.\<close>

definition withdrawn :: "lifecycle \<Rightarrow> bool" where
  "withdrawn s \<longleftrightarrow> phase s \<noteq> phase.kActive \<and> (phase s = kRetiring \<longrightarrow> doc s \<noteq> None \<and> doc_state (the (doc s)) \<noteq> service_state.kActive)"

lemma matches_Some:
  "document_matches_phase ph (Some d) \<longleftrightarrow> validate_document d = None \<and>
     (ph = phase.kActive \<and> doc_state d = service_state.kActive \<or> ph = phase.kRetired \<and> doc_state d = service_state.kRetired
      \<or> ph = phase.kQuarantined \<and> doc_state d = service_state.kQuarantined \<or> ph = kRetiring
      \<or> ph = kQuarantining \<and> doc_state d = service_state.kActive \<or> ph = phase.kDurabilityUncertain \<or> ph = kFailedClosed)"
  by (auto simp: document_matches_phase_def split: phase.splits service_state.splits)
    (cases "doc_state d"; simp)+

lemma matches_None: "document_matches_phase ph None \<longleftrightarrow> ph = kAbsent \<or> ph = kFailedClosed"
  by (simp add: document_matches_phase_def)

lemma recovery_consistent: "consistent (plan_state (plan_service_recovery r))"
  by (cases "recovery_action r") (simp_all add: plan_service_recovery_def Let_def matches_None matches_Some)

lemma retire_ok:
  assumes "ok (request_service_retire s)"
  shows "consistent s \<and> (phase s = phase.kRetired \<and> state (request_service_retire s) = s
    \<or> (phase s = phase.kActive \<or> phase s = phase.kQuarantined) \<and> state (request_service_retire s) = \<lparr>phase = kRetiring, doc = doc s\<rparr>)"
  using assms by (auto simp: request_service_retire_def Let_def split: phase.splits if_splits)

lemma quarantine_ok:
  assumes "ok (enter_service_quarantine s)"
  shows "consistent s \<and> phase s = phase.kActive \<and> state (enter_service_quarantine s) = \<lparr>phase = kQuarantining, doc = doc s\<rparr>"
  using assms by (auto simp: enter_service_quarantine_def split: if_splits)

lemma drained_ok:
  assumes "ok (complete_service_retire_drain s)"
  shows "consistent s \<and> state (complete_service_retire_drain s) = \<lparr>phase = phase.kRetired, doc = doc s\<rparr>
    \<and> doc s \<noteq> None \<and> doc_state (the (doc s)) = service_state.kRetired"
  using assms
  by (cases s; cases "doc s") (auto simp: complete_service_retire_drain_def matches_None matches_Some split: if_splits)

lemma resolve_pending_state:
  "state (resolve_pending ph d p) =
     (if clean_success p then (if ph = kRetiring then \<lparr>phase = kRetiring, doc = Some (retired_tombstone d)\<rparr>
                               else \<lparr>phase = phase.kQuarantined, doc = Some (quarantined_document d)\<rparr>)
      else if pre_rename_failure p
      then (if ph \<noteq> kRetiring then \<lparr>phase = kQuarantining, doc = Some d\<rparr>
            else \<lparr>phase = (if doc_state d = service_state.kQuarantined then phase.kQuarantined else phase.kActive), doc = Some d\<rparr>)
      else \<lparr>phase = phase.kDurabilityUncertain, doc = Some d\<rparr>)"
  by (auto simp: resolve_pending_def Let_def clean_success_def pre_rename_failure_def durability_unknown_def)

lemma resolve_accepted:
  assumes "error_code (error (resolve_service_state_persistence s p)) \<noteq> kInvalidState"
  obtains d where "doc s = Some d" "validate_document d = None"
    "phase s = kRetiring \<and> doc_state d \<noteq> service_state.kRetired \<or> phase s = kQuarantining \<and> doc_state d = service_state.kActive"
    "resolve_service_state_persistence s p = resolve_pending (phase s) d p"
  using assms
  by (cases "doc s")
    (auto simp: resolve_service_state_persistence_def matches_None matches_Some Let_def split: if_splits)

lemma lifecycle_step_keeps:
  assumes "lifecycle_step s s'" and "consistent s"
  shows "consistent s' \<and> (\<forall>d d'. doc s = Some d \<longrightarrow> doc s' = Some d' \<longrightarrow> application d' = application d)
    \<and> (doc s \<noteq> None \<longrightarrow> doc s' \<noteq> None) \<and> (withdrawn s \<longrightarrow> withdrawn s')"
  using assms
proof (induction rule: lifecycle_step.induct)
  case (retire s)
  then show ?case using retire_ok [OF retire.hyps]
    by (cases "doc s") (auto simp: matches_Some matches_None withdrawn_def)
next
  case (quarantine s)
  then show ?case using quarantine_ok [OF quarantine.hyps]
    by (cases "doc s") (auto simp: matches_Some matches_None withdrawn_def)
next
  case (resolve s p)
  from resolve.hyps obtain d where d: "doc s = Some d" "validate_document d = None"
    "phase s = kRetiring \<and> doc_state d \<noteq> service_state.kRetired \<or> phase s = kQuarantining \<and> doc_state d = service_state.kActive"
    "resolve_service_state_persistence s p = resolve_pending (phase s) d p" by (rule resolve_accepted)
  have "doc_state d = service_state.kActive \<or> doc_state d = service_state.kQuarantined \<or> doc_state d = service_state.kRetired"
    by (cases "doc_state d") auto
  with d tombstone_valid [OF d(2)] quarantined_valid [OF d(2)] show ?case
    unfolding d(4) resolve_pending_state by (auto simp: matches_Some withdrawn_def split: if_splits)
next
  case (drained s)
  then show ?case using drained_ok [OF drained.hyps]
    by (cases "doc s") (auto simp: matches_Some matches_None withdrawn_def split: phase.splits)
qed

lemma deploy_step_keeps:
  assumes "deploy_step s s'" and "consistent s"
  shows "consistent s'" and "\<And>d d'. doc s = Some d \<Longrightarrow> doc s' = Some d' \<Longrightarrow> application d' = application d"
  using assms
  by (induction rule: deploy_step.induct)
    (auto simp: plan_explicit_service_deploy_def document_matches_phase_def Let_def encode_active_state_json_def
      split: if_splits sum.splits option.splits)

lemma reachable_consistent: "reachable s \<Longrightarrow> consistent s"
  by (induction rule: reachable.induct) (auto simp: recovery_consistent lifecycle_step_keeps deploy_step_keeps)

lemma serves_iff: "service_route_disposition s = kServeActive \<longleftrightarrow> consistent s \<and> phase s = phase.kActive"
  by (auto simp: service_route_disposition_def split: phase.splits if_splits)

section \<open>Restart\<close>

text \<open>The state a restart finds: recovery from the disk, translated into a life cycle.\<close>

definition restart :: "(string \<Rightarrow> json_load) \<Rightarrow> io_status \<Rightarrow> (string \<Rightarrow> completeness) \<Rightarrow> string \<Rightarrow> disk \<Rightarrow> lifecycle" where
  "restart load cleanup inspect app d =
     plan_state (plan_service_recovery (recover_active_state load cleanup (read_disk d) inspect app))"

text \<open>What a committed mutation is after the drain: the phase its document stands for.\<close>

fun phase_of :: "service_state \<Rightarrow> phase" where
  "phase_of service_state.kActive = phase.kActive"
| "phase_of service_state.kRetired = phase.kRetired"
| "phase_of service_state.kQuarantined = phase.kQuarantined"

lemma restart_content:
  assumes "active_content d = Some (build_canonical_json a)" and "validate_document a = None" and "loads_flat load"
    and "doc_state a = service_state.kActive \<longrightarrow> inspect (generation a) = kComplete"
  shows "restart load cleanup inspect (application a) d = \<lparr>phase = phase_of (doc_state a), doc = Some a\<rparr>"
  using assms active_state_reads_back [OF assms(2,3)]
  by (cases "doc_state a")
    (simp_all add: restart_def read_disk_def recover_active_state_def plan_service_recovery_def Let_def)

lemma validate_document_code: "validate_document a = Some e \<Longrightarrow> code e = kInvalidValue"
  by (cases "doc_state a") (auto simp: validate_document_def split: if_splits)

definition legal_result :: "persist_result \<Rightarrow> bool" where
  "legal_result r \<longleftrightarrow> clean_success r \<or> pre_rename_failure r \<or> durability_unknown r"

lemma replace_result_legal: "legal_result (fst (replace_active_file fs temp json))"
  by (simp add: legal_result_def replace_active_file_def Let_def clean_success_def pre_rename_failure_def
      durability_unknown_def)

lemma persist_result_legal: "legal_result (fst (persist_active_state fs inspect a operation_id))"
proof (cases "validate_document a")
  case None
  then show ?thesis
    using replace_result_legal by (simp add: persist_active_state_def encode_active_state_json_def legal_result_def
        pre_rename_failure_def)
next
  case (Some e)
  then show ?thesis
    using validate_document_code [OF Some]
    by (simp add: persist_active_state_def encode_active_state_json_def legal_result_def pre_rename_failure_def)
qed

lemma disk_run_crash: "disk_run fs calls d d' \<Longrightarrow> crash_state fs calls (length calls) d d'"
  by (auto simp: crash_state_def)

lemma persisted_disk:
  assumes "persist_active_state fs inspect a operation_id = (r, calls)" and "disk_run fs calls d d'"
    and "validate_document a = None" and "doc_state a \<noteq> service_state.kActive"
  shows "active_content d' = (if active_name_replaced r then Some (build_canonical_json a) else active_content d)"
proof (cases "calls = []")
  case True
  with assms(1,2) show ?thesis
    by (auto simp: persist_active_state_def replace_active_file_def Let_def split: if_splits sum.splits)
next
  case False
  with assms(1,3,4) have "replace_active_file fs (''active.json.tmp.'' @ operation_id) (build_canonical_json a) = (r, calls)"
    by (auto simp: persist_active_state_def encode_active_state_json_def split: if_splits)
  from replace_active_file_crash [OF this disk_run_crash [OF assms(2)]] show ?thesis by auto
qed

lemma restart_same_content:
  "active_content d' = active_content d \<Longrightarrow> restart load cleanup inspect app d' = restart load cleanup inspect app d"
  by (simp add: restart_def read_disk_def)

section \<open>Properties\<close>

text \<open>C21: In every state that recovery, transitions, write outcomes and deployments can reach, the
  phase and the document belong together and the document is valid; requests are served, and workers
  replaced automatically, in the active phase only.\<close>

theorem lifecycle_consistent:
  assumes "reachable s"
  shows "document_matches_phase (phase s) (doc s)
    \<and> (service_route_disposition s = kServeActive \<longleftrightarrow> phase s = phase.kActive)
    \<and> (service_allows_automatic_replacement s \<longleftrightarrow> phase s = phase.kActive)"
  using reachable_consistent [OF assms] by (simp add: serves_iff service_allows_automatic_replacement_def)

definition sample_recovery :: recovery_result where
  "sample_recovery = \<lparr>recovery_ok = True, recovery_action = kActivate, recovery_document = sample_document,
     stale_temp_cleanup_failed = False, recovery_error = \<lparr>code = active_error_code.kNone, path = '''', message = ''''\<rparr>\<rparr>"

definition sample_active :: lifecycle where
  "sample_active = \<lparr>phase = phase.kActive, doc = Some sample_document\<rparr>"

lemma sample_state: "doc_state sample_document = service_state.kActive" "application sample_document = ''shop''"
  by (simp_all add: sample_document_def empty_document_def)

lemma sample_active_reachable: "reachable sample_active"
proof -
  have "plan_state (plan_service_recovery sample_recovery) = sample_active"
    by (simp add: plan_service_recovery_def sample_recovery_def sample_active_def Let_def sample_document_valid sample_state)
  then show ?thesis using reachable.recovered [of sample_recovery] by simp
qed

theorem lifecycle_consistent_witness:
  "reachable sample_active \<and> service_route_disposition sample_active = kServeActive"
  using lifecycle_consistent [OF sample_active_reachable] sample_active_reachable by (simp add: sample_active_def)

text \<open>C8: Quarantine and retirement hold: a service that is quarantining, quarantined, retired,
  failed closed or in a durability incident is not served and its workers are not replaced, whatever
  transitions and write outcomes follow, until an explicit deployment.\<close>

theorem withdrawn_service_stays_down:
  assumes "reachable s" and "withdrawn s" and "lifecycle_step\<^sup>*\<^sup>* s s'"
  shows "service_route_disposition s' \<noteq> kServeActive \<and> \<not> service_allows_automatic_replacement s'"
proof -
  from assms(3) have "reachable s' \<and> withdrawn s'"
  proof (induction rule: rtranclp_induct)
    case base
    then show ?case using assms(1,2) by simp
  next
    case (step t u)
    then show ?case using lifecycle_step_keeps [OF step.hyps(2)] reachable_consistent reachable.transition by blast
  qed
  then show ?thesis by (auto simp: serves_iff service_allows_automatic_replacement_def withdrawn_def)
qed

definition sample_quarantining :: lifecycle where
  "sample_quarantining = \<lparr>phase = kQuarantining, doc = Some sample_document\<rparr>"

lemma sample_quarantine: "ok (enter_service_quarantine sample_active)"
  "state (enter_service_quarantine sample_active) = sample_quarantining"
  by (simp_all add: enter_service_quarantine_def sample_active_def sample_quarantining_def matches_Some sample_document_valid
      sample_state)

theorem withdrawn_service_stays_down_witness:
  "service_route_disposition sample_quarantining \<noteq> kServeActive"
proof -
  have "lifecycle_step sample_active sample_quarantining"
    using lifecycle_step.quarantine [OF sample_quarantine(1)] by (simp add: sample_quarantine(2))
  then have "reachable sample_quarantining" by (rule reachable.transition [OF sample_active_reachable])
  then show ?thesis
    using withdrawn_service_stays_down [of sample_quarantining sample_quarantining]
    by (simp add: withdrawn_def sample_quarantining_def)
qed

definition version_mapping :: "lifecycle \<Rightarrow> (string \<times> string) option" where
  "version_mapping s =
     map_option (\<lambda>d. if phase s = phase.kRetired then (previous_version d, previous_generation d) else (version d, generation d))
       (doc s)"





end
