(* ===== verification/Worker_Recovery.thy ===== *)
theory Worker_Recovery
  imports Service_Lifecycle "HOL-Library.Signed_Division"
begin

text \<open>
  Recovering unstable workers (\<open>src/host/worker_recovery.cc\<close>): the crash budget of a generation, the
  backoff of its replacements, the retry of a failed request, and the queue that hands out the
  permits to start a worker, with the coordinator that drives it
  (\<open>StartupPermitCoordinator\<close> of \<open>src/host/managed_admin_backend.h\<close>). Times are
  milliseconds of a monotonic clock. An enumeration value outside its type has no counterpart.
\<close>

section \<open>Types\<close>

abbreviation (input) kMaxTrackedInstabilityEvents :: nat where "kMaxTrackedInstabilityEvents \<equiv> 1024"

record recovery_policy =
  max_events :: u32
  window_ms :: u64
  backoff_initial_ms :: u64
  backoff_maximum_ms :: u64
  jitter_basis_points :: u32
  stable_reset_ms :: u64
  replacements_concurrent_per_app :: u32

datatype instability_kind = kUnexpectedExit | kCgroupOom | kSynchronousCpuTimeout | kIpcFailure | kProtocolFailure
  | kHealthRecycle | kReplacementStartupFailure | kNormalDrain | kHostShutdown | kOperatorRetire

datatype recovery_error_code = kNone | kInvalidPolicy | kInvalidState | kClockRegression | kResourceLimit
  | kInvalidJitter | kInvalidRequest | kQueueFull

record recovery_error =
  rec_code :: recovery_error_code
  rec_path :: string
  rec_message :: string

record recovery_state =
  rec_application :: string
  rec_generation :: string
  instability_events_ms :: "u64 list"
  replacement_attempts_since_stable :: u32
  last_observed_ms :: u64
  has_last_observed_time :: bool

record observation =
  kind :: instability_kind
  worker_generation :: string
  now_ms :: u64
  ready_workers_after_removal :: u32
  target_ready_workers :: u32
  replacements_in_flight_for_app :: u32
  chosen_jitter_basis_points :: "32 word"

datatype recovery_disposition = kIgnoredExpectedEvent | kStaleGeneration | kContinueActive | kBeginQuarantine | kUnavailable

record recovery_decision =
  dec_ok :: bool
  dec_state :: recovery_state
  dec_kind :: instability_kind
  dec_disposition :: recovery_disposition
  event_counted :: bool
  events_in_window :: nat
  begin_quarantine :: bool
  schedule_replacement :: bool
  replacement_singleflight_exists :: bool
  acquire_startup_permit :: bool
  acquire_memory_permit :: bool
  replacement_delay :: u64
  dec_error :: recovery_error

abbreviation (input) recovery_error_of :: "recovery_error_code \<Rightarrow> string \<Rightarrow> string \<Rightarrow> recovery_error" where
  "recovery_error_of c p m \<equiv> \<lparr>rec_code = c, rec_path = p, rec_message = m\<rparr>"

abbreviation (input) no_error :: recovery_error where
  "no_error \<equiv> recovery_error_of recovery_error_code.kNone '''' ''''"

section \<open>Validation\<close>

definition valid_policy :: "recovery_policy \<Rightarrow> bool" where
  "valid_policy p =
     (if max_events p = 0 \<or> unat (max_events p) > kMaxTrackedInstabilityEvents then False
      else if window_ms p = 0 then False
      else if backoff_initial_ms p = 0 \<or> backoff_maximum_ms p < backoff_initial_ms p then False
      else if jitter_basis_points p > 10000 then False
      else if stable_reset_ms p = 0 then False
      else if replacements_concurrent_per_app p = 0 then False
      else let max_factor = ucast (10000 + jitter_basis_points p) :: u64; max_scaled = 0x7FFFFFFFFFFFFFFF :: u64 in
      \<not> backoff_maximum_ms p > max_scaled div max_factor)"

definition lifecycle_consistent_state :: "lifecycle \<Rightarrow> bool" where
  "lifecycle_consistent_state s =
     (case doc s of
        None \<Rightarrow> phase s = kAbsent \<or> phase s = kFailedClosed
      | Some d \<Rightarrow>
          if isl (encode_active_state_json d) then False
          else case phase s of
            kAbsent \<Rightarrow> False
          | phase.kActive \<Rightarrow> doc_state d = service_state.kActive
          | phase.kRetired \<Rightarrow> doc_state d = service_state.kRetired
          | phase.kQuarantined \<Rightarrow> doc_state d = service_state.kQuarantined
          | kRetiring \<Rightarrow> doc_state d = service_state.kActive \<or> doc_state d = service_state.kRetired
              \<or> doc_state d = service_state.kQuarantined
          | kQuarantining \<Rightarrow> doc_state d = service_state.kActive
          | phase.kDurabilityUncertain \<Rightarrow> True
          | kFailedClosed \<Rightarrow> True)"

definition events_sorted :: "u64 list \<Rightarrow> bool" where
  "events_sorted es = list_all (\<lambda>i. \<not> es ! i < es ! (i - 1)) [1..<length es]"

definition instability_kind_is_expected :: "instability_kind \<Rightarrow> bool" where
  "instability_kind_is_expected k \<longleftrightarrow> k = kNormalDrain \<or> k = kHostShutdown \<or> k = kOperatorRetire"

definition request_identifiers_valid :: "string \<Rightarrow> string \<Rightarrow> bool" where
  "request_identifiers_valid app gen \<longleftrightarrow>
     \<not> isl (encode_active_state_json
         (empty_document\<lparr>doc_state := service_state.kActive, application := app, version := ''v0'', generation := gen\<rparr>))"

definition kProbeGeneration :: string where
  "kProbeGeneration = ''sha256:'' @ replicate 64 CHR ''0''"

definition valid_queue_application :: "string \<Rightarrow> bool" where
  "valid_queue_application app \<longleftrightarrow> request_identifiers_valid app kProbeGeneration"

section \<open>Backoff\<close>

fun backoff_base :: "nat \<Rightarrow> u64 \<Rightarrow> u64 \<Rightarrow> u64" where
  "backoff_base 0 cap base = base"
| "backoff_base (Suc attempts) cap base =
     (if \<not> base < cap then base
      else if base > cap div 2 then cap
      else backoff_base attempts cap (base * 2))"

text \<open>The product is computed in 64-bit signed arithmetic; the division truncates.\<close>

definition replacement_delay_ms :: "recovery_policy \<Rightarrow> u32 \<Rightarrow> 32 word \<Rightarrow> u64" where
  "replacement_delay_ms p attempts jitter =
     (let base = backoff_base (unat attempts) (backoff_maximum_ms p) (backoff_initial_ms p);
          scaled = signed_take_bit 63 (sint base * (10000 + sint jitter)) in
      word_of_int (scaled sdiv 10000))"

section \<open>Recording an instability\<close>

definition new_decision :: "recovery_state \<Rightarrow> instability_kind \<Rightarrow> recovery_decision" where
  "new_decision s k = \<lparr>dec_ok = False, dec_state = s, dec_kind = k, dec_disposition = kUnavailable, event_counted = False,
     events_in_window = 0, begin_quarantine = False, schedule_replacement = False,
     replacement_singleflight_exists = False, acquire_startup_permit = False, acquire_memory_permit = False,
     replacement_delay = 0, dec_error = no_error\<rparr>"

text \<open>The checks that \<open>record_worker_instability\<close> and \<open>observe_worker_stability\<close> make of the event list and the clock.\<close>

definition events_error :: "recovery_state \<Rightarrow> u64 \<Rightarrow> recovery_error option" where
  "events_error s now =
     (if \<not> events_sorted (instability_events_ms s)
      then Some (recovery_error_of recovery_error_code.kInvalidState ''/state'' ''instability events are not sorted'')
      else if length (instability_events_ms s) > kMaxTrackedInstabilityEvents
      then Some (recovery_error_of recovery_error_code.kResourceLimit ''/state''
             ''instability event state exceeds the tracked limit'')
      else if \<exists>e \<in> set (instability_events_ms s). e > now
      then Some (recovery_error_of kClockRegression ''/state'' ''instability event lies in the future'')
      else if has_last_observed_time s \<and> now < last_observed_ms s
      then Some (recovery_error_of kClockRegression ''/state'' ''monotonic clock regressed'')
      else None)"

definition instability_error :: "recovery_state \<Rightarrow> recovery_policy \<Rightarrow> lifecycle \<Rightarrow> observation \<Rightarrow> recovery_error option" where
  "instability_error s p l ob =
     (if \<not> valid_policy p
      then Some (recovery_error_of kInvalidPolicy ''/policy'' ''recovery policy is invalid'')
      else if \<not> lifecycle_consistent_state l
      then Some (recovery_error_of recovery_error_code.kInvalidState ''/state'' ''lifecycle phase and document are inconsistent'')
      else let jitter = sint (chosen_jitter_basis_points ob); jitter_limit = sint (jitter_basis_points p) in
      if jitter < - jitter_limit \<or> jitter > jitter_limit
      then Some (recovery_error_of kInvalidJitter ''/jitter'' ''chosen jitter exceeds the policy jitter'')
      else case events_error s (now_ms ob) of
        Some e \<Rightarrow> Some e
      | None \<Rightarrow>
          if \<not> request_identifiers_valid (rec_application s) (rec_generation s)
          then Some (recovery_error_of recovery_error_code.kInvalidState ''/state'' ''recovery state identity is invalid'')
          else None)"

definition rolling_window :: "recovery_policy \<Rightarrow> u64 \<Rightarrow> u64 list \<Rightarrow> u64 list" where
  "rolling_window p now es = filter (\<lambda>e. now - e < window_ms p) es"

definition newest :: "u64 list \<Rightarrow> u64 list" where
  "newest window = (if length window > kMaxTrackedInstabilityEvents
     then drop (length window - kMaxTrackedInstabilityEvents) window else window)"

text \<open>An event that counts: it enters the window, then the budget is decided, then the replacement.\<close>

definition count_instability :: "recovery_decision \<Rightarrow> recovery_policy \<Rightarrow> observation \<Rightarrow> recovery_decision" where
  "count_instability d p ob =
     (let window = rolling_window p (now_ms ob) (instability_events_ms (dec_state d)) @ [now_ms ob];
          d = d\<lparr>event_counted := True, events_in_window := length window,
                dec_state := (dec_state d)\<lparr>instability_events_ms := newest window\<rparr>\<rparr> in
      if events_in_window d > unat (max_events p)
      then d\<lparr>dec_disposition := kBeginQuarantine, begin_quarantine := True\<rparr>
      else if ready_workers_after_removal ob \<ge> target_ready_workers ob
      then d\<lparr>dec_disposition := kContinueActive\<rparr>
      else if replacements_in_flight_for_app ob \<ge> replacements_concurrent_per_app p
      then d\<lparr>replacement_singleflight_exists := True, dec_disposition := kContinueActive\<rparr>
      else let attempts = replacement_attempts_since_stable (dec_state d) in
        d\<lparr>replacement_delay := replacement_delay_ms p attempts (chosen_jitter_basis_points ob),
          schedule_replacement := True, acquire_startup_permit := True, acquire_memory_permit := True,
          dec_state := (dec_state d)\<lparr>replacement_attempts_since_stable := (if attempts \<noteq> - 1 then attempts + 1 else attempts)\<rparr>,
          dec_disposition := kContinueActive\<rparr>)"

definition record_worker_instability :: "recovery_state \<Rightarrow> recovery_policy \<Rightarrow> lifecycle \<Rightarrow> observation \<Rightarrow> recovery_decision" where
  "record_worker_instability s p l ob =
     (let d = new_decision s (kind ob);
          seen = d\<lparr>dec_ok := True, dec_state := s\<lparr>last_observed_ms := now_ms ob, has_last_observed_time := True\<rparr>\<rparr> in
      case instability_error s p l ob of
        Some e \<Rightarrow> d\<lparr>dec_error := e\<rparr>
      | None \<Rightarrow>
          if phase l \<noteq> phase.kActive then seen\<lparr>dec_disposition := kUnavailable\<rparr>
          else let active = the (doc l) in
          if rec_application s \<noteq> application active
          then d\<lparr>dec_error := recovery_error_of recovery_error_code.kInvalidState ''/state''
                   ''recovery state does not match the active application''\<rparr>
          else if \<not> instability_kind_is_expected (kind ob) \<and> worker_generation ob \<noteq> generation active
                  \<and> \<not> request_identifiers_valid (rec_application s) (worker_generation ob)
          then d\<lparr>dec_error := recovery_error_of recovery_error_code.kInvalidState ''/worker-generation''
                   ''worker generation is malformed''\<rparr>
          else if instability_kind_is_expected (kind ob) then seen\<lparr>dec_disposition := kIgnoredExpectedEvent\<rparr>
          else if rec_generation s \<noteq> generation active then seen\<lparr>dec_disposition := kStaleGeneration\<rparr>
          else if worker_generation ob \<noteq> generation active then seen\<lparr>dec_disposition := kStaleGeneration\<rparr>
          else count_instability seen p ob)"

section \<open>Stability\<close>

record stability_result =
  stab_ok :: bool
  stab_state :: recovery_state
  backoff_reset :: bool
  stab_error :: recovery_error

definition observe_worker_stability :: "recovery_state \<Rightarrow> recovery_policy \<Rightarrow> u64 \<Rightarrow> u64 \<Rightarrow> stability_result" where
  "observe_worker_stability s p continuously_ready_since now =
     (let failed = (\<lambda>e. \<lparr>stab_ok = False, stab_state = s, backoff_reset = False, stab_error = e\<rparr>) in
      if \<not> valid_policy p then failed (recovery_error_of kInvalidPolicy ''/policy'' ''recovery policy is invalid'')
      else if \<not> request_identifiers_valid (rec_application s) (rec_generation s)
      then failed (recovery_error_of recovery_error_code.kInvalidState ''/state'' ''recovery state identity is invalid'')
      else case events_error s now of
        Some e \<Rightarrow> failed e
      | None \<Rightarrow>
          if continuously_ready_since > now
          then failed (recovery_error_of kClockRegression ''/state'' ''READY timestamp lies in the future'')
          else let s' = s\<lparr>last_observed_ms := now, has_last_observed_time := True\<rparr> in
            if now - continuously_ready_since \<ge> stable_reset_ms p
            then \<lparr>stab_ok = True, stab_state = s'\<lparr>replacement_attempts_since_stable := 0\<rparr>, backoff_reset = True,
                  stab_error = no_error\<rparr>
            else \<lparr>stab_ok = True, stab_state = s', backoff_reset = False, stab_error = no_error\<rparr>)"

section \<open>Failed requests\<close>

record retry_context =
  retry_method :: string
  response_head_sent :: bool
  request_body_present_or_started :: bool
  deadline_allows_retry :: bool
  same_active_generation_worker_available :: bool
  retries_already_attempted :: u32

datatype failed_request_action = kRetryOnceSameGeneration | kSynthesize503 | kAbortStartedResponse

definition decide_failed_request_action :: "recovery_decision \<Rightarrow> retry_context \<Rightarrow> failed_request_action" where
  "decide_failed_request_action d rq =
     (if response_head_sent rq then kAbortStartedResponse
      else if \<not> dec_ok d \<or> begin_quarantine d \<or> dec_disposition d \<noteq> kContinueActive then kSynthesize503
      else if dec_kind d \<noteq> kUnexpectedExit \<and> dec_kind d \<noteq> kIpcFailure \<and> dec_kind d \<noteq> kProtocolFailure
      then kSynthesize503
      else if (retry_method rq \<noteq> ''GET'' \<and> retry_method rq \<noteq> ''HEAD'') \<or> request_body_present_or_started rq
              \<or> \<not> deadline_allows_retry rq \<or> \<not> same_active_generation_worker_available rq
              \<or> retries_already_attempted rq > 0
      then kSynthesize503
      else kRetryOnceSameGeneration)"

section \<open>Start-up permits\<close>

datatype lane = kDeploy | kReplacement

record permit_request =
  ticket :: u64
  req_application :: string
  req_generation :: string
  lane :: lane

record permit_queue =
  queued :: "permit_request list"
  last_granted_application :: string

definition request_is_valid :: "permit_request \<Rightarrow> bool" where
  "request_is_valid r \<longleftrightarrow> request_identifiers_valid (req_application r) (req_generation r)"

definition same_replacement :: "permit_request \<Rightarrow> permit_request \<Rightarrow> bool" where
  "same_replacement a b \<longleftrightarrow> lane a = kReplacement \<and> lane b = kReplacement
     \<and> req_application a = req_application b \<and> req_generation a = req_generation b"

definition queue_invariants_ok :: "permit_queue \<Rightarrow> bool" where
  "queue_invariants_ok q =
     (if last_granted_application q \<noteq> '''' \<and> \<not> valid_queue_application (last_granted_application q) then False
      else list_all (\<lambda>i. request_is_valid (queued q ! i)
             \<and> list_all (\<lambda>j. ticket (queued q ! j) \<noteq> ticket (queued q ! i)
                  \<and> \<not> same_replacement (queued q ! j) (queued q ! i)) [0..<i]) [0..<length (queued q)])"

record enqueue_result =
  enq_ok :: bool
  enq_queue :: permit_queue
  joined_existing :: bool
  enq_deploys :: nat
  enq_replacements :: nat
  enq_error :: recovery_error

abbreviation (input) enqueue_failed :: "permit_queue \<Rightarrow> recovery_error \<Rightarrow> enqueue_result" where
  "enqueue_failed q e \<equiv> \<lparr>enq_ok = False, enq_queue = q, joined_existing = False, enq_deploys = 0, enq_replacements = 0,
     enq_error = e\<rparr>"

definition count_lane :: "lane \<Rightarrow> permit_queue \<Rightarrow> nat" where
  "count_lane l q = length (filter (\<lambda>r. lane r = l) (queued q))"

definition enqueue_startup_permit_request :: "permit_queue \<Rightarrow> permit_request \<Rightarrow> nat \<Rightarrow> enqueue_result" where
  "enqueue_startup_permit_request q r maximum_queued =
     (if \<not> queue_invariants_ok q
      then enqueue_failed q (recovery_error_of recovery_error_code.kInvalidState ''/queue'' ''existing permit queue is malformed'')
      else if \<not> request_identifiers_valid (req_application r) (req_generation r)
      then enqueue_failed q (recovery_error_of kInvalidRequest ''/request'' ''invalid App ID or generation'')
      else if \<exists>o' \<in> set (queued q). ticket o' = ticket r
      then enqueue_failed q (recovery_error_of kInvalidRequest ''/ticket'' ''duplicate startup permit ticket'')
      else let joined = (\<exists>o' \<in> set (queued q). same_replacement o' r) in
      if \<not> joined \<and> length (queued q) \<ge> maximum_queued
      then enqueue_failed q (recovery_error_of kQueueFull ''/queue'' ''startup permit queue is full'')
      else let q' = (if joined then q else q\<lparr>queued := queued q @ [r]\<rparr>) in
        \<lparr>enq_ok = True, enq_queue = q', joined_existing = joined, enq_deploys = count_lane kDeploy q',
         enq_replacements = count_lane kReplacement q', enq_error = no_error\<rparr>)"

record grant_result =
  grant_ok :: bool
  grant_queue :: permit_queue
  granted :: "permit_request option"
  grant_deploys :: nat
  grant_replacements :: nat
  grant_error :: recovery_error

text \<open>The index of the request to grant: the first of another application, or the head.\<close>

definition grant_index :: "permit_queue \<Rightarrow> nat" where
  "grant_index q =
     (case find (\<lambda>i. req_application (queued q ! i) \<noteq> last_granted_application q) [0..<length (queued q)] of
        Some i \<Rightarrow> i | None \<Rightarrow> 0)"

definition grant_next_startup_permit :: "permit_queue \<Rightarrow> bool \<Rightarrow> grant_result" where
  "grant_next_startup_permit q permit_available =
     (if \<not> queue_invariants_ok q
      then \<lparr>grant_ok = False, grant_queue = q, granted = None, grant_deploys = 0, grant_replacements = 0,
            grant_error = recovery_error_of recovery_error_code.kInvalidState ''/queue'' ''existing permit queue is malformed''\<rparr>
      else let (q', g) =
        (if permit_available \<and> queued q \<noteq> []
         then let i = grant_index q; r = queued q ! i in
           (q\<lparr>queued := take i (queued q) @ drop (i + 1) (queued q), last_granted_application := req_application r\<rparr>, Some r)
         else (q, None)) in
        \<lparr>grant_ok = True, grant_queue = q', granted = g, grant_deploys = count_lane kDeploy q',
         grant_replacements = count_lane kReplacement q', grant_error = no_error\<rparr>)"

section \<open>The coordinator\<close>

text \<open>
  The calls of the coordinator's lock: \<open>enqueue\<close> up to the wait, with the ticket to wait for;
  \<open>withdraw\<close> of a waiter whose wait was interrupted before its ticket was granted; \<open>release_grant\<close>.
\<close>

record permit_coordinator =
  next_ticket :: u64
  maximum_queued :: nat
  permit_queue :: permit_queue
  granted_ticket :: "u64 option"

definition StartupPermitCoordinator :: "nat \<Rightarrow> permit_coordinator" where
  "StartupPermitCoordinator maximum = \<lparr>next_ticket = 1, maximum_queued = maximum,
     permit_queue = \<lparr>queued = [], last_granted_application = ''''\<rparr>, granted_ticket = None\<rparr>"

definition coordinator_enqueue :: "permit_request \<Rightarrow> permit_coordinator \<Rightarrow> u64 option \<times> permit_coordinator" where
  "coordinator_enqueue request c =
     (let mine = request\<lparr>ticket := next_ticket c\<rparr>; c = c\<lparr>next_ticket := next_ticket c + 1\<rparr>;
          enqueued = enqueue_startup_permit_request (permit_queue c) mine (maximum_queued c) in
      if \<not> enq_ok enqueued then (None, c)
      else let c = c\<lparr>permit_queue := enq_queue enqueued\<rparr> in
      if joined_existing enqueued then (None, c)
      else if granted_ticket c = None
      then let g = grant_next_startup_permit (permit_queue c) True in
        (Some (ticket mine),
         if grant_ok g \<and> granted g \<noteq> None
         then c\<lparr>permit_queue := grant_queue g, granted_ticket := Some (ticket (the (granted g)))\<rparr> else c)
      else (Some (ticket mine), c))"

definition coordinator_withdraw :: "u64 \<Rightarrow> permit_coordinator \<Rightarrow> permit_coordinator" where
  "coordinator_withdraw my_ticket c =
     (if granted_ticket c = Some my_ticket then c
      else c\<lparr>permit_queue := (permit_queue c)\<lparr>queued := filter (\<lambda>r. ticket r \<noteq> my_ticket) (queued (permit_queue c))\<rparr>\<rparr>)"

definition release_grant :: "permit_coordinator \<Rightarrow> permit_coordinator" where
  "release_grant c =
     (let g = grant_next_startup_permit (permit_queue c) True in
      if grant_ok g then c\<lparr>permit_queue := grant_queue g, granted_ticket := map_option ticket (granted g)\<rparr> else c)"

section \<open>The backoff\<close>

lemma u64_bound: "unat (w :: u64) < 2 ^ 64"
  using unsigned_less [where ?'a = nat and w = w] by simp

lemma signed_take_bit_small: "0 \<le> k \<Longrightarrow> k < 2 ^ 63 \<Longrightarrow> signed_take_bit 63 (k :: int) = k"
  by (simp add: signed_take_bit_int_eq_self_iff)

lemma sdiv_nonneg: "0 \<le> k \<Longrightarrow> (k :: int) sdiv 10000 = k div 10000"
  by (cases "k = 0") (auto simp: signed_divide_int_def)

lemma backoff_base_eq:
  assumes "base \<le> cap"
  shows "unat (backoff_base n cap base) = (if unat base = 0 then 0 else min (unat cap) (unat base * 2 ^ n))"
  using assms
proof (induction n arbitrary: base)
  case 0
  then show ?case by (auto simp: word_le_nat_alt)
next
  case (Suc n)
  have le: "unat base \<le> unat cap" using Suc.prems by (simp add: word_le_nat_alt)
  consider "\<not> base < cap" | "base < cap" "base > cap div 2" | "base < cap" "\<not> base > cap div 2" by blast
  then show ?case
  proof cases
    case 1
    with le have "unat base = unat cap" by (simp add: word_less_nat_alt)
    with 1 show ?thesis by simp
  next
    case 2
    then have "unat cap < unat base * 2" by (simp add: word_less_nat_alt unat_div)
    also have "unat base * 2 \<le> unat base * 2 ^ Suc n" by simp
    finally show ?thesis using 2 by (auto simp: min_def)
  next
    case 3
    then have d: "unat base * 2 \<le> unat cap" by (simp add: word_less_nat_alt unat_div)
    then have u: "unat (base * 2) = unat base * 2"
      using u64_bound [of cap] by (simp add: unat_word_ariths)
    then have "base * 2 \<le> cap" using d by (simp add: word_le_nat_alt)
    from Suc.IH [OF this] 3 u show ?thesis by (simp add: mult.assoc)
  qed
qed

lemma replacement_delay_exact:
  assumes p: "valid_policy p" and j: "\<bar>sint j\<bar> \<le> int (unat (jitter_basis_points p))"
  shows "int (unat (replacement_delay_ms p attempts j)) =
    int (min (unat (backoff_maximum_ms p)) (unat (backoff_initial_ms p) * 2 ^ unat attempts)) * (10000 + sint j) div 10000"
proof -
  let ?cap = "unat (backoff_maximum_ms p)" and ?base = "backoff_base (unat attempts) (backoff_maximum_ms p) (backoff_initial_ms p)"
  from p have i: "backoff_initial_ms p \<noteq> 0" "backoff_initial_ms p \<le> backoff_maximum_ms p"
    and jb: "unat (jitter_basis_points p) \<le> 10000"
    and c: "\<not> backoff_maximum_ms p > 0x7FFFFFFFFFFFFFFF div ucast (10000 + jitter_basis_points p)"
    by (auto simp: valid_policy_def Let_def word_le_nat_alt word_less_nat_alt not_less split: if_splits)
  have f: "unat (ucast (10000 + jitter_basis_points p) :: u64) = 10000 + unat (jitter_basis_points p)"
    using jb by (simp add: unsigned_ucast_eq unat_word_ariths take_bit_nat_eq_self)
  have base: "unat ?base = min ?cap (unat (backoff_initial_ms p) * 2 ^ unat attempts)"
    using backoff_base_eq [OF i(2)] i(1) by (simp add: unat_eq_0)
  have cap: "?cap \<le> 0x7FFFFFFFFFFFFFFF div (10000 + unat (jitter_basis_points p))"
    using c by (simp add: word_less_nat_alt unat_div f)
  then have "?cap * (10000 + unat (jitter_basis_points p)) \<le> 0x7FFFFFFFFFFFFFFF"
    by (simp add: less_eq_div_iff_mult_less_eq)
  then have fits: "int ?cap * int (10000 + unat (jitter_basis_points p)) \<le> 0x7FFFFFFFFFFFFFFF"
    by (metis of_nat_le_iff of_nat_mult of_nat_numeral)
  have b: "int (unat ?base) \<le> int ?cap" unfolding base by (simp only: of_nat_le_iff min.cobounded1)
  have k: "0 \<le> 10000 + sint j" "10000 + sint j \<le> int (10000 + unat (jitter_basis_points p))" using j jb by linarith+
  have lo: "0 \<le> int (unat ?base) * (10000 + sint j)" using k(1) by simp
  have "int (unat ?base) * (10000 + sint j) \<le> int ?cap * int (10000 + unat (jitter_basis_points p))"
    using b k by (intro mult_mono) auto
  with fits have hi: "int (unat ?base) * (10000 + sint j) < 2 ^ 63" by simp
  have "int ?cap * 1 \<le> int ?cap * int (10000 + unat (jitter_basis_points p))" by (intro mult_left_mono) auto
  then have "int ?cap \<le> int ?cap * int (10000 + unat (jitter_basis_points p))" by (simp only: mult_1_right)
  from order.trans [OF b order.trans [OF this fits]] have "int (unat ?base) < 2 ^ 63" by simp
  then have s: "sint ?base = int (unat ?base)"
    using signed_take_bit_small [OF of_nat_0_le_iff, of "unat ?base"] by (simp add: sint_uint)
  have "replacement_delay_ms p attempts j = word_of_int (int (unat ?base) * (10000 + sint j) div 10000)"
    by (simp only: replacement_delay_ms_def Let_def s signed_take_bit_small [OF lo hi] sdiv_nonneg [OF lo])
  moreover have "0 \<le> int (unat ?base) * (10000 + sint j) div 10000" "int (unat ?base) * (10000 + sint j) div 10000 < 2 ^ 63"
    using lo hi by simp_all
  ultimately show ?thesis unfolding base by (simp add: unsigned_of_int take_bit_int_eq_self)
qed

section \<open>The window\<close>

definition in_window :: "recovery_policy \<Rightarrow> u64 \<Rightarrow> u64 \<Rightarrow> bool" where
  "in_window p now e \<longleftrightarrow> unat now < unat e + unat (window_ms p)"

lemma age_in_window: "e \<le> now \<Longrightarrow> now - e < window_ms p \<longleftrightarrow> in_window p now e"
  by (auto simp: in_window_def word_less_nat_alt word_le_nat_alt unat_sub)

lemma rolling_window_eq:
  assumes "\<forall>e \<in> set es. e \<le> now" shows "rolling_window p now es = filter (in_window p now) es"
  unfolding rolling_window_def by (rule filter_cong [OF refl]) (use assms age_in_window in auto)

lemma newest_eq: "newest es = drop (length es - 1024) es"
  by (simp add: newest_def)

lemma events_sorted_iff: "events_sorted es \<longleftrightarrow> sorted es"
proof -
  have "es ! i \<le> es ! Suc i" if "events_sorted es" "Suc i < length es" for i
    using that by (auto simp: events_sorted_def list_all_iff not_less dest!: bspec [of _ _ "Suc i"])
  moreover have "events_sorted es" if "\<forall>i. Suc i < length es \<longrightarrow> es ! i \<le> es ! Suc i"
  proof -
    have "es ! (i - 1) \<le> es ! i" if "i \<in> set [1..<length es]" for i
      by (cases i) (use that \<open>\<forall>i. Suc i < length es \<longrightarrow> es ! i \<le> es ! Suc i\<close> in auto)
    then show ?thesis by (simp add: events_sorted_def list_all_iff not_less)
  qed
  ultimately show ?thesis by (auto simp: sorted_iff_nth_Suc)
qed

text \<open>In a sorted list the events of a window are a suffix, so keeping the newest ones and restricting to a window commute.\<close>

lemma filter_newest:
  assumes "sorted es" shows "filter (in_window p now) (newest es) = newest (filter (in_window p now) es)"
proof -
  let ?f = "filter (in_window p now)"
  have "?f (drop n es) = drop (n - (length es - length (?f es))) (?f es)" for n
    using assms
  proof (induction es arbitrary: n)
    case (Cons e es)
    show ?case
    proof (cases n)
      case (Suc m)
      show ?thesis
      proof (cases "in_window p now e")
        case True
        with Cons.prems have "?f es = es"
          by (auto simp: in_window_def word_le_nat_alt filter_id_conv intro: order.strict_trans2)
        with True Suc Cons.IH [of m] Cons.prems show ?thesis by simp
      next
        case False
        have "length (?f es) \<le> length es" by simp
        with False Suc Cons.IH [of m] Cons.prems show ?thesis by (simp add: Suc_diff_le)
      qed
    qed simp
  qed simp
  from this [of "length es - 1024"]
  have "?f (newest es) = drop (length es - 1024 - (length es - length (?f es))) (?f es)" by (simp add: newest_eq)
  moreover have "length (?f es) \<le> length es" by simp
  then have "length es - 1024 - (length es - length (?f es)) = length (?f es) - 1024" by arith
  ultimately show ?thesis by (simp add: newest_eq)
qed

lemma newest_append: "newest (newest xs @ ys) = newest (xs @ ys)"
  by (cases "length xs \<le> 1024") (simp_all add: newest_eq add.commute)

section \<open>Runs of the recovery controller\<close>

text \<open>
  What the pool does with the controller: it records instabilities and stable periods, and adopts
  the state of every result that is ok.
\<close>

datatype recovery_op = Crash lifecycle observation | Stable u64 u64

fun recovery_step :: "recovery_policy \<Rightarrow> recovery_op \<Rightarrow> recovery_state \<Rightarrow> recovery_state" where
  "recovery_step p (Crash l ob) s =
     (let d = record_worker_instability s p l ob in if dec_ok d then dec_state d else s)"
| "recovery_step p (Stable since now) s =
     (let r = observe_worker_stability s p since now in if stab_ok r then stab_state r else s)"

text \<open>The times of the events counted so far, oldest first.\<close>

fun counted :: "recovery_policy \<Rightarrow> recovery_op list \<Rightarrow> recovery_state \<Rightarrow> u64 list" where
  "counted p [] s = []"
| "counted p (op # ops) s =
     (case op of
        Crash l ob \<Rightarrow> if event_counted (record_worker_instability s p l ob) then [now_ms ob] else []
      | Stable _ _ \<Rightarrow> []) @ counted p ops (recovery_step p op s)"

definition tracks :: "recovery_policy \<Rightarrow> u64 list \<Rightarrow> recovery_state \<Rightarrow> bool" where
  "tracks p hist s \<longleftrightarrow> sorted hist \<and> sorted (instability_events_ms s) \<and> length (instability_events_ms s) \<le> 1024
     \<and> (\<forall>e \<in> set hist. has_last_observed_time s \<and> e \<le> last_observed_ms s)
     \<and> (\<forall>now. (has_last_observed_time s \<longrightarrow> last_observed_ms s \<le> now) \<longrightarrow>
          filter (in_window p now) (instability_events_ms s) = newest (filter (in_window p now) hist))"

definition clock_ok :: "recovery_state \<Rightarrow> u64 \<Rightarrow> bool" where
  "clock_ok s now \<longleftrightarrow> (\<forall>e \<in> set (instability_events_ms s). e \<le> now) \<and> (has_last_observed_time s \<longrightarrow> last_observed_ms s \<le> now)
     \<and> sorted (instability_events_ms s) \<and> length (instability_events_ms s) \<le> 1024"

lemma events_error_None: "events_error s now = None \<longleftrightarrow> clock_ok s now"
  by (auto simp: events_error_def clock_ok_def events_sorted_iff simp flip: not_less)

lemma instability_error_None:
  "instability_error s p l ob = None \<Longrightarrow> valid_policy p \<and> clock_ok s (now_ms ob) \<and> lifecycle_consistent_state l"
  by (auto simp: instability_error_def Let_def events_error_None split: if_splits option.splits)

definition seen_at :: "recovery_state \<Rightarrow> u64 \<Rightarrow> recovery_state" where
  "seen_at s now = s\<lparr>last_observed_ms := now, has_last_observed_time := True\<rparr>"

text \<open>The outcomes of recording: rejected, seen only, or counted.\<close>

lemma record_cases:
  obtains (rejected) "\<not> dec_ok (record_worker_instability s p l ob)" "\<not> event_counted (record_worker_instability s p l ob)"
      "dec_state (record_worker_instability s p l ob) = s" "\<not> begin_quarantine (record_worker_instability s p l ob)"
      "\<not> schedule_replacement (record_worker_instability s p l ob)"
    | (seen) "dec_ok (record_worker_instability s p l ob)" "\<not> event_counted (record_worker_instability s p l ob)"
      "clock_ok s (now_ms ob)" "dec_state (record_worker_instability s p l ob) = seen_at s (now_ms ob)"
      "\<not> begin_quarantine (record_worker_instability s p l ob)" "\<not> schedule_replacement (record_worker_instability s p l ob)"
    | (counted) "valid_policy p" "clock_ok s (now_ms ob)" "lifecycle_consistent_state l" "phase l = phase.kActive"
      "worker_generation ob = generation (the (doc l))" "rec_generation s = generation (the (doc l))"
      "rec_application s = application (the (doc l))"
      "record_worker_instability s p l ob =
         count_instability ((new_decision s (kind ob))\<lparr>dec_ok := True, dec_state := seen_at s (now_ms ob)\<rparr>) p ob"
proof (cases "instability_error s p l ob")
  case (Some e)
  then show thesis using rejected by (simp add: record_worker_instability_def new_decision_def)
next
  case None
  note v = instability_error_None [OF None]
  let ?a = "the (doc l)"
  consider (off) "phase l \<noteq> phase.kActive"
    | (other) "phase l = phase.kActive" "rec_application s \<noteq> application ?a
        \<or> \<not> instability_kind_is_expected (kind ob) \<and> worker_generation ob \<noteq> generation ?a
          \<and> \<not> request_identifiers_valid (rec_application s) (worker_generation ob)"
    | (quiet) "phase l = phase.kActive" "rec_application s = application ?a"
        "instability_kind_is_expected (kind ob) \<or> request_identifiers_valid (rec_application s) (worker_generation ob)
          \<or> worker_generation ob = generation ?a"
        "instability_kind_is_expected (kind ob) \<or> rec_generation s \<noteq> generation ?a \<or> worker_generation ob \<noteq> generation ?a"
    | (real) "phase l = phase.kActive" "rec_application s = application ?a" "\<not> instability_kind_is_expected (kind ob)"
        "rec_generation s = generation ?a" "worker_generation ob = generation ?a"
    by blast
  then show thesis
  proof cases
    case off
    then show thesis using None v by (intro seen) (simp_all add: record_worker_instability_def new_decision_def seen_at_def)
  next
    case other
    then show thesis using None by (intro rejected) (auto simp: record_worker_instability_def new_decision_def Let_def)
  next
    case quiet
    then show thesis
      using None v by (intro seen) (auto simp: record_worker_instability_def new_decision_def seen_at_def Let_def)
  next
    case real
    then show thesis
      using None v by (intro counted) (simp_all add: record_worker_instability_def new_decision_def seen_at_def Let_def)
  qed
qed

lemma in_window_mono: "now \<le> later \<Longrightarrow> in_window p later e \<Longrightarrow> in_window p now e"
  by (auto simp: in_window_def word_le_nat_alt)

lemma filter_in_window_later:
  "now \<le> later \<Longrightarrow> filter (in_window p later) (filter (in_window p now) es) = filter (in_window p later) es"
  by (auto simp: in_window_mono intro: filter_cong)

lemma sorted_newest: "sorted es \<Longrightarrow> sorted (newest es)"
  by (simp add: newest_eq sorted_wrt_drop)

lemma length_newest: "length (newest es) = min 1024 (length es)"
  by (simp add: newest_eq)

lemma tracks_fresh: "instability_events_ms s = [] \<Longrightarrow> tracks p [] s"
  by (simp add: tracks_def newest_eq)

lemma tracks_seen:
  assumes "tracks p hist s" "clock_ok s now" "instability_events_ms s' = instability_events_ms s"
    "last_observed_ms s' = now" "has_last_observed_time s'"
  shows "tracks p hist s'"
  using assms by (auto simp: tracks_def clock_ok_def intro: order.trans)

lemma tracks_window:
  assumes "tracks p hist s" "clock_ok s now"
  shows "rolling_window p now (instability_events_ms s) = newest (filter (in_window p now) hist)"
  using assms rolling_window_eq by (auto simp: tracks_def clock_ok_def)

lemma tracks_counted:
  assumes t: "tracks p hist s" and c: "clock_ok s now"
    and s': "instability_events_ms s' = newest (rolling_window p now (instability_events_ms s) @ [now])"
      "last_observed_ms s' = now" "has_last_observed_time s'"
  shows "tracks p (hist @ [now]) s'"
proof -
  let ?w = "newest (filter (in_window p now) hist)"
  have es: "instability_events_ms s' = newest (?w @ [now])" by (simp add: s'(1) tracks_window [OF t c])
  have h: "sorted hist" "\<forall>e \<in> set hist. e \<le> now"
    using t c by (auto simp: tracks_def clock_ok_def intro: order.trans)
  have "set ?w \<subseteq> set hist" by (auto simp: newest_eq dest: in_set_dropD)
  with h have sw: "sorted ?w" "sorted (?w @ [now])" by (auto simp: sorted_append intro: sorted_newest sorted_wrt_filter)
  have "filter (in_window p later) (newest (?w @ [now])) = newest (filter (in_window p later) (hist @ [now]))"
    if "now \<le> later" for later
  proof -
    have "filter (in_window p later) ?w = newest (filter (in_window p later) hist)"
      by (simp only: filter_newest [OF sorted_wrt_filter [OF h(1)]] filter_in_window_later [OF that])
    then have "newest (filter (in_window p later) (?w @ [now])) = newest (filter (in_window p later) (hist @ [now]))"
      using newest_append by simp
    with filter_newest [OF sw(2)] show ?thesis by simp
  qed
  with h sw(2) show ?thesis
    unfolding tracks_def es by (auto simp: sorted_append s' sorted_newest length_newest)
qed

lemma observe_ok:
  assumes "stab_ok (observe_worker_stability s p since now)"
  shows "clock_ok s now
    \<and> instability_events_ms (stab_state (observe_worker_stability s p since now)) = instability_events_ms s
    \<and> last_observed_ms (stab_state (observe_worker_stability s p since now)) = now
    \<and> has_last_observed_time (stab_state (observe_worker_stability s p since now))"
  using assms
  by (cases "events_error s now")
     (auto simp: observe_worker_stability_def Let_def simp flip: events_error_None split: if_splits)

lemma count_instability_simps:
  "event_counted (count_instability d p ob)"
  "events_in_window (count_instability d p ob)
     = Suc (length (rolling_window p (now_ms ob) (instability_events_ms (dec_state d))))"
  "instability_events_ms (dec_state (count_instability d p ob))
     = newest (rolling_window p (now_ms ob) (instability_events_ms (dec_state d)) @ [now_ms ob])"
  "last_observed_ms (dec_state (count_instability d p ob)) = last_observed_ms (dec_state d)"
  "has_last_observed_time (dec_state (count_instability d p ob)) = has_last_observed_time (dec_state d)"
  "dec_ok (count_instability d p ob) = dec_ok d"
  by (simp_all add: count_instability_def Let_def)

lemma tracks_step:
  assumes "tracks p hist s"
  shows "tracks p (hist @ counted p [op] s) (recovery_step p op s)"
proof (cases op)
  case (Crash l ob)
  show ?thesis
    by (rule record_cases [of s p l ob])
       (use assms tracks_seen tracks_counted in \<open>auto simp: Crash seen_at_def count_instability_simps new_decision_def\<close>)
next
  case (Stable since now)
  show ?thesis
    using assms observe_ok [of s p since now] tracks_seen
    by (cases "stab_ok (observe_worker_stability s p since now)") (auto simp: Stable Let_def)
qed

lemma tracks_run:
  "tracks p hist s \<Longrightarrow> tracks p (hist @ counted p ops s) (fold (recovery_step p) ops s)"
proof (induction ops arbitrary: hist s)
  case (Cons op ops)
  from Cons.IH [OF tracks_step [OF Cons.prems]] show ?case by simp
qed simp


text \<open>C9: The crash budget is exact. Start from a recovery state with no events and let the controller
  record any sequence of instabilities and stable periods. When it then counts one more event, the
  number it reports is the number of events counted within the rolling window, this one included
  (up to 1025, the tracked limit and one more), and it orders the quarantine exactly when that number
  exceeds the policy's \<open>max_events\<close>. The bounded list of events, trimmed at each step,
  never makes the controller forget an event that matters.
\<close>

theorem quarantine_is_exact:
  assumes "instability_events_ms s\<^sub>0 = []"
    and "event_counted (record_worker_instability (fold (recovery_step p) ops s\<^sub>0) p l ob)"
  shows "events_in_window (record_worker_instability (fold (recovery_step p) ops s\<^sub>0) p l ob)
           = min 1025 (Suc (length (filter (in_window p (now_ms ob)) (counted p ops s\<^sub>0))))
       \<and> (begin_quarantine (record_worker_instability (fold (recovery_step p) ops s\<^sub>0) p l ob) \<longleftrightarrow>
           unat (max_events p) < Suc (length (filter (in_window p (now_ms ob)) (counted p ops s\<^sub>0))))"
    (is "?A \<and> ?B")
proof (rule record_cases [of "fold (recovery_step p) ops s\<^sub>0" p l ob])
  let ?s = "fold (recovery_step p) ops s\<^sub>0"
  assume v: "valid_policy p" "clock_ok ?s (now_ms ob)"
    and r: "record_worker_instability ?s p l ob =
      count_instability ((new_decision ?s (kind ob))\<lparr>dec_ok := True, dec_state := seen_at ?s (now_ms ob)\<rparr>) p ob"
  have "tracks p (counted p ops s\<^sub>0) ?s" using tracks_run [OF tracks_fresh [OF assms(1)]] by simp
  from tracks_window [OF this v(2)] have A: ?A
    by (simp add: r count_instability_simps seen_at_def length_newest)
  have "begin_quarantine (record_worker_instability ?s p l ob) \<longleftrightarrow>
      unat (max_events p) < events_in_window (record_worker_instability ?s p l ob)"
    by (simp add: r count_instability_def new_decision_def Let_def)
  moreover have "unat (max_events p) \<le> 1024" using v(1) by (simp add: valid_policy_def split: if_splits)
  ultimately show ?thesis using A by auto
qed (use assms(2) in auto)

definition sample_recovery_policy :: recovery_policy where
  "sample_recovery_policy = \<lparr>max_events = 2, window_ms = 1000, backoff_initial_ms = 100, backoff_maximum_ms = 800,
     jitter_basis_points = 500, stable_reset_ms = 5000, replacements_concurrent_per_app = 1\<rparr>"

definition sample_recovery_state :: recovery_state where
  "sample_recovery_state = \<lparr>rec_application = application sample_document, rec_generation = generation sample_document,
     instability_events_ms = [], replacement_attempts_since_stable = 0, last_observed_ms = 0, has_last_observed_time = False\<rparr>"

definition sample_exit :: "u64 \<Rightarrow> observation" where
  "sample_exit now = \<lparr>kind = kUnexpectedExit, worker_generation = generation sample_document, now_ms = now,
     ready_workers_after_removal = 1, target_ready_workers = 2, replacements_in_flight_for_app = 0, chosen_jitter_basis_points = 0\<rparr>"

text \<open>The exits at 10, 1005 and 1011: the first one has left the window of one second by the third.\<close>

theorem quarantine_is_exact_witness:
  "counted sample_recovery_policy [Crash sample_active (sample_exit 10), Crash sample_active (sample_exit 1005)] sample_recovery_state
     = [10, 1005]
   \<and> \<not> begin_quarantine (record_worker_instability
         (fold (recovery_step sample_recovery_policy) [Crash sample_active (sample_exit 10), Crash sample_active (sample_exit 1005)]
            sample_recovery_state) sample_recovery_policy sample_active (sample_exit 1011))"
proof -
  let ?ops = "[Crash sample_active (sample_exit 10), Crash sample_active (sample_exit 1005)]"
  have c: "counted sample_recovery_policy ?ops sample_recovery_state = [10, 1005]" by code_simp
  have e: "event_counted (record_worker_instability (fold (recovery_step sample_recovery_policy) ?ops sample_recovery_state)
     sample_recovery_policy sample_active (sample_exit 1011))" by code_simp
  have i: "instability_events_ms sample_recovery_state = []" by (simp add: sample_recovery_state_def)
  show ?thesis
    using quarantine_is_exact [OF i e] c by (simp add: in_window_def sample_recovery_policy_def sample_exit_def)
qed

text \<open>C20: The delay before a replacement is the policy's exponential backoff, capped and then jittered:
  with \<open>n\<close> attempts since the workers were last stable it is
  \<open>min cap (initial * 2 ^ n) * (10000 + jitter) / 10000\<close>, computed with no overflow in the
  64-bit arithmetic of the code, for every policy the validation accepts and every jitter it allows.
\<close>

theorem backoff_is_capped_exponential:
  assumes "valid_policy p" and "\<bar>sint j\<bar> \<le> int (unat (jitter_basis_points p))"
  shows "int (unat (replacement_delay_ms p attempts j))
    = int (min (unat (backoff_maximum_ms p)) (unat (backoff_initial_ms p) * 2 ^ unat attempts)) * (10000 + sint j) div 10000"
  by (rule replacement_delay_exact [OF assms])


theorem backoff_is_capped_exponential_witness:
  "int (unat (replacement_delay_ms sample_recovery_policy 2 (- 500))) = 380 \<and> int (unat (replacement_delay_ms sample_recovery_policy 9 0)) = 800"
proof -
  have v: "valid_policy sample_recovery_policy" by code_simp
  show ?thesis
    using backoff_is_capped_exponential [OF v, of "- 500" 2] backoff_is_capped_exponential [OF v, of 0 9]
    by (simp add: sample_recovery_policy_def)
qed

text \<open>What a decision may order, and in which service.\<close>

lemma count_orders:
  assumes "\<not> schedule_replacement d" "\<not> begin_quarantine d"
  shows "schedule_replacement (count_instability d p ob) \<Longrightarrow>
      ready_workers_after_removal ob < target_ready_workers ob
      \<and> replacements_in_flight_for_app ob < replacements_concurrent_per_app p
      \<and> \<not> begin_quarantine (count_instability d p ob)
      \<and> acquire_startup_permit (count_instability d p ob) \<and> acquire_memory_permit (count_instability d p ob)"
  using assms by (auto simp: count_instability_def Let_def split: if_splits)

lemma record_schedules:
  assumes "schedule_replacement (record_worker_instability s p l ob)"
  shows "ready_workers_after_removal ob < target_ready_workers ob
      \<and> replacements_in_flight_for_app ob < replacements_concurrent_per_app p
      \<and> \<not> begin_quarantine (record_worker_instability s p l ob)
      \<and> acquire_startup_permit (record_worker_instability s p l ob) \<and> acquire_memory_permit (record_worker_instability s p l ob)"
proof (rule record_cases [of s p l ob], goal_cases)
  case 3
  from assms show ?thesis unfolding 3(8) by (rule count_orders [rotated 2]) (simp_all add: new_decision_def)
qed (use assms in simp_all)

lemma consistent_active:
  "lifecycle_consistent_state l \<Longrightarrow> phase l = phase.kActive \<Longrightarrow> service_allows_automatic_replacement l"
  by (auto simp: lifecycle_consistent_state_def service_allows_automatic_replacement_def document_matches_phase_def
      split: option.splits if_splits)

text \<open>C19: A replacement or a retry is ordered only for a service that still serves. When the controller
  schedules a replacement, the service is active, the worker that failed belongs to its active
  generation and left the fleet short of its target, the concurrency limit of the policy holds, and no quarantine
  begins; and the start-up and memory permits are always asked for. When it begins a quarantine, the
  failed request is never sent again: it is answered 503, or aborted when the response has started.
  A request is sent a second time at most once, only a bodiless GET or HEAD, only before its
  response started, and only while the service is active.
\<close>

theorem recovery_orders_are_safe:
  "(schedule_replacement (record_worker_instability s p l ob) \<longrightarrow>
      service_allows_automatic_replacement l
      \<and> worker_generation ob = generation (the (doc l))
      \<and> ready_workers_after_removal ob < target_ready_workers ob
      \<and> replacements_in_flight_for_app ob < replacements_concurrent_per_app p
      \<and> \<not> begin_quarantine (record_worker_instability s p l ob)
      \<and> acquire_startup_permit (record_worker_instability s p l ob)
      \<and> acquire_memory_permit (record_worker_instability s p l ob))
   \<and> (begin_quarantine (record_worker_instability s p l ob) \<longrightarrow>
      decide_failed_request_action (record_worker_instability s p l ob) rq
        = (if response_head_sent rq then kAbortStartedResponse else kSynthesize503))
   \<and> (decide_failed_request_action (record_worker_instability s p l ob) rq = kRetryOnceSameGeneration \<longrightarrow>
      service_allows_automatic_replacement l \<and> \<not> response_head_sent rq \<and> retries_already_attempted rq = 0
      \<and> retry_method rq \<in> {''GET'', ''HEAD''} \<and> \<not> request_body_present_or_started rq \<and> deadline_allows_retry rq)"
proof (rule record_cases [of s p l ob], goal_cases)
  case 1
  then show ?thesis by (auto simp: decide_failed_request_action_def)
next
  case 2
  then have "dec_disposition (record_worker_instability s p l ob) \<noteq> kContinueActive"
    by (auto simp: record_worker_instability_def new_decision_def count_instability_simps Let_def split: option.splits if_splits)
  with 2 show ?thesis by (auto simp: decide_failed_request_action_def)
next
  case 3
  show ?thesis
    using record_schedules [of s p l ob] consistent_active [OF 3(3,4)] 3(5)
    by (simp add: decide_failed_request_action_def flip: word_neq_0_conv)
qed

theorem recovery_orders_are_safe_witness:
  "schedule_replacement (record_worker_instability sample_recovery_state sample_recovery_policy sample_active (sample_exit 10))
   \<and> service_allows_automatic_replacement sample_active"
proof -
  have "schedule_replacement (record_worker_instability sample_recovery_state sample_recovery_policy sample_active (sample_exit 10))"
    by code_simp
  with recovery_orders_are_safe [of sample_recovery_state sample_recovery_policy sample_active "sample_exit 10"] show ?thesis by simp
qed

section \<open>The permit queue\<close>

abbreviation (input) apart :: "permit_request \<Rightarrow> permit_request \<Rightarrow> bool" where
  "apart a b \<equiv> ticket a \<noteq> ticket b \<and> \<not> same_replacement a b"

lemma queue_invariants_iff:
  "queue_invariants_ok q \<longleftrightarrow>
     (last_granted_application q = '''' \<or> valid_queue_application (last_granted_application q))
     \<and> (\<forall>r \<in> set (queued q). request_is_valid r) \<and> sorted_wrt apart (queued q)"
  by (auto simp: queue_invariants_ok_def list_all_iff sorted_wrt_iff_nth_less all_set_conv_all_nth)

lemma valid_generation_probe: "valid_generation kProbeGeneration"
  by (simp add: kProbeGeneration_def valid_generation_def list_all_iff ascii_hex_lower_def ascii_digit_def)

lemma request_valid_application:
  "request_is_valid r \<Longrightarrow> valid_queue_application (req_application r)"
  using valid_generation_probe
  by (auto simp: request_is_valid_def valid_queue_application_def request_identifiers_valid_def encode_active_state_json_def
      validate_document_def Let_def empty_document_def split: if_splits option.splits)

lemma grant_index_less: "queued q \<noteq> [] \<Longrightarrow> grant_index q < length (queued q)"
  by (auto simp: grant_index_def find_Some_iff split: option.splits)

definition remove_nth :: "nat \<Rightarrow> 'a list \<Rightarrow> 'a list" where
  "remove_nth i xs = take i xs @ drop (i + 1) xs"

lemma set_remove_nth: "set (remove_nth i xs) \<subseteq> set xs"
  by (auto simp: remove_nth_def dest: in_set_takeD in_set_dropD)

lemma sorted_wrt_remove_nth: "sorted_wrt P xs \<Longrightarrow> sorted_wrt P (remove_nth i xs)"
  unfolding remove_nth_def sorted_wrt_append
  using id_take_nth_drop [of i xs]
  by (cases "i < length xs") (auto simp: sorted_wrt_take sorted_wrt_drop, metis sorted_wrt_append list.set_intros(2) sorted_wrt.simps(2))

lemma grant_eq:
  assumes "queue_invariants_ok q" "queued q \<noteq> []"
  shows "grant_ok (grant_next_startup_permit q True)"
    "granted (grant_next_startup_permit q True) = Some (queued q ! grant_index q)"
    "grant_queue (grant_next_startup_permit q True)
       = q\<lparr>queued := remove_nth (grant_index q) (queued q),
           last_granted_application := req_application (queued q ! grant_index q)\<rparr>"
  using assms by (simp_all add: grant_next_startup_permit_def remove_nth_def Let_def)

lemma grant_empty:
  assumes "queue_invariants_ok q" "queued q = []"
  shows "grant_ok (grant_next_startup_permit q True)" "granted (grant_next_startup_permit q True) = None"
    "grant_queue (grant_next_startup_permit q True) = q"
  using assms by (simp_all add: grant_next_startup_permit_def)

lemma grant_keeps_invariants:
  assumes "queue_invariants_ok q"
  shows "queue_invariants_ok (grant_queue (grant_next_startup_permit q True))"
proof (cases "queued q = []")
  case False
  then have "request_is_valid (queued q ! grant_index q)"
    using assms grant_index_less by (simp add: queue_invariants_iff)
  then show ?thesis
    using assms set_remove_nth [of "grant_index q" "queued q"]
    unfolding grant_eq(3) [OF assms False]
    by (auto simp: queue_invariants_iff request_valid_application intro: sorted_wrt_remove_nth)
qed (use assms grant_empty in simp)

section \<open>Runs of the coordinator\<close>

datatype permit_op = Enqueue permit_request | Withdraw u64 | Release

fun permit_step :: "permit_op \<Rightarrow> permit_coordinator \<Rightarrow> permit_coordinator" where
  "permit_step (Enqueue r) c = snd (coordinator_enqueue r c)"
| "permit_step (Withdraw t) c = coordinator_withdraw t c"
| "permit_step Release c = release_grant c"

definition tickets_ok :: "nat \<Rightarrow> permit_coordinator \<Rightarrow> bool" where
  "tickets_ok n c \<longleftrightarrow> queue_invariants_ok (permit_queue c)
     \<and> (\<forall>r \<in> set (queued (permit_queue c)). ticket r < next_ticket c \<and> granted_ticket c \<noteq> Some (ticket r))
     \<and> (\<forall>t. granted_ticket c = Some t \<longrightarrow> t < next_ticket c)
     \<and> length (queued (permit_queue c)) \<le> maximum_queued c \<and> unat (next_ticket c) \<le> n"

definition coordinator_ok :: "nat \<Rightarrow> permit_coordinator \<Rightarrow> bool" where
  "coordinator_ok n c \<longleftrightarrow> tickets_ok n c \<and> (granted_ticket c = None \<longrightarrow> queued (permit_queue c) = [])"

lemma coordinator_ok_init: "coordinator_ok 1 (StartupPermitCoordinator maximum)"
  by (simp add: coordinator_ok_def tickets_ok_def StartupPermitCoordinator_def queue_invariants_iff)

lemma ticket_of_remaining:
  assumes "sorted_wrt apart xs" "i < length xs" "r \<in> set (remove_nth i xs)"
  shows "ticket r \<noteq> ticket (xs ! i)"
proof -
  have "xs = take i xs @ xs ! i # drop (i + 1) xs" using assms(2) by (simp add: id_take_nth_drop)
  with assms(1) have "sorted_wrt apart (take i xs @ xs ! i # drop (i + 1) xs)" by simp
  with assms(3) show ?thesis by (auto simp: remove_nth_def sorted_wrt_append)
qed

lemma release_ok:
  assumes ok: "tickets_ok n c" shows "coordinator_ok n (release_grant c)"
proof (cases "queued (permit_queue c) = []")
  case True
  with ok grant_empty [of "permit_queue c"] show ?thesis
    by (simp add: coordinator_ok_def tickets_ok_def release_grant_def Let_def)
next
  case False
  have q: "queue_invariants_ok (permit_queue c)" using ok by (simp add: tickets_ok_def)
  let ?xs = "queued (permit_queue c)" and ?i = "grant_index (permit_queue c)"
  have i: "?i < length ?xs" using grant_index_less [OF False] .
  have "sorted_wrt apart ?xs" using q by (simp add: queue_invariants_iff)
  from ticket_of_remaining [OF this i]
  have rest: "\<forall>r \<in> set (remove_nth ?i ?xs). ticket (?xs ! ?i) \<noteq> ticket r" by metis
  have "length (remove_nth ?i ?xs) \<le> length ?xs" by (simp add: remove_nth_def)
  with ok i rest set_remove_nth [of ?i ?xs] grant_keeps_invariants [OF q] nth_mem [OF i]
  show ?thesis
    by (simp add: coordinator_ok_def tickets_ok_def release_grant_def Let_def grant_eq [OF q False] subset_iff)
qed

lemma withdraw_ok: "coordinator_ok n c \<Longrightarrow> coordinator_ok n (coordinator_withdraw t c)"
  by (auto simp: coordinator_ok_def tickets_ok_def coordinator_withdraw_def queue_invariants_iff intro: sorted_wrt_filter le_trans [OF length_filter_le])

lemma enqueue_ok:
  assumes "enq_ok (enqueue_startup_permit_request q r maximum)"
  shows "queue_invariants_ok q"
    "queue_invariants_ok (enq_queue (enqueue_startup_permit_request q r maximum))"
    "enq_queue (enqueue_startup_permit_request q r maximum)
       = (if joined_existing (enqueue_startup_permit_request q r maximum) then q else q\<lparr>queued := queued q @ [r]\<rparr>)"
    "\<not> joined_existing (enqueue_startup_permit_request q r maximum) \<Longrightarrow> length (queued q) < maximum"
  using assms
  by (auto simp: enqueue_startup_permit_request_def queue_invariants_iff request_is_valid_def sorted_wrt_append Let_def
      split: if_splits)


text \<open>Enqueueing leaves the queue, appends to it, or appends to it and grants like a release.\<close>

lemma enqueue_cases:
  fixes r c defines "c' \<equiv> c\<lparr>next_ticket := next_ticket c + 1\<rparr>"
  defines "c'' \<equiv> c'\<lparr>permit_queue := (permit_queue c)\<lparr>queued := queued (permit_queue c) @ [r\<lparr>ticket := next_ticket c\<rparr>]\<rparr>\<rparr>"
  obtains (kept) "snd (coordinator_enqueue r c) = c'"
    | (queued) "queue_invariants_ok (permit_queue c'')" "length (queued (permit_queue c)) < maximum_queued c"
        "snd (coordinator_enqueue r c) = (if granted_ticket c = None then release_grant c'' else c'')"
proof -
  let ?e = "enqueue_startup_permit_request (permit_queue c) (r\<lparr>ticket := next_ticket c\<rparr>) (maximum_queued c)"
  show thesis
  proof (cases "enq_ok ?e \<and> \<not> joined_existing ?e")
    case True
    note e = enqueue_ok [OF conjunct1 [OF True]]
    have q: "queue_invariants_ok (permit_queue c'')" using e(2,3) True by (simp add: c''_def)
    have ne: "queued (permit_queue c'') \<noteq> []" by (simp add: c''_def)
    from True e q grant_eq [OF q ne] show thesis
      by (intro queued) (simp_all add: coordinator_enqueue_def release_grant_def c'_def c''_def Let_def)
  next
    case False
    with enqueue_ok(3) [of "permit_queue c" "r\<lparr>ticket := next_ticket c\<rparr>" "maximum_queued c"] show thesis
      by (intro kept) (auto simp: coordinator_enqueue_def c'_def Let_def)
  qed
qed

lemma next_ticket_less: "unat t < 2 ^ 64 - 1 \<Longrightarrow> unat (t + 1) = Suc (unat (t :: u64))"
  by (simp add: unat_word_ariths)

lemma step_ok:
  assumes ok: "coordinator_ok n c" and n: "n < 2 ^ 64 - 1"
  shows "coordinator_ok (Suc n) (permit_step op c)"
proof -
  have mono: "tickets_ok n c \<Longrightarrow> tickets_ok (Suc n) c" for c by (simp add: tickets_ok_def)
  show ?thesis
  proof (cases op)
    case (Enqueue r)
    have nt: "unat (next_ticket c + 1) = Suc (unat (next_ticket c))"
      using ok n by (intro next_ticket_less) (simp add: coordinator_ok_def tickets_ok_def)
    then have less: "t < next_ticket c \<Longrightarrow> t < next_ticket c + 1 \<and> t \<noteq> next_ticket c" "next_ticket c < next_ticket c + 1" for t
      by (auto simp: word_less_nat_alt)
    show ?thesis
    proof (rule enqueue_cases [of r c], goal_cases)
      case 1
      with ok nt less show ?thesis by (auto simp: Enqueue coordinator_ok_def tickets_ok_def queue_invariants_iff)
    next
      case 2
      let ?c = "c\<lparr>next_ticket := next_ticket c + 1,
        permit_queue := (permit_queue c)\<lparr>queued := queued (permit_queue c) @ [r\<lparr>ticket := next_ticket c\<rparr>]\<rparr>\<rparr>"
      have "tickets_ok (Suc n) ?c"
        using 2(1,2) ok nt less by (auto simp: coordinator_ok_def tickets_ok_def)
      with release_ok [OF this] 2(3) show ?thesis by (auto simp: Enqueue coordinator_ok_def)
    qed
  qed (use ok mono release_ok withdraw_ok in \<open>auto simp: coordinator_ok_def\<close>)
qed

lemma run_ok:
  "coordinator_ok n c \<Longrightarrow> n + length ops < 2 ^ 64 \<Longrightarrow> coordinator_ok (n + length ops) (fold permit_step ops c)"
proof (induction ops arbitrary: n c)
  case (Cons op ops)
  from Cons.IH [OF step_ok [OF Cons.prems(1)], of op] Cons.prems(2) show ?case by simp
qed simp

section \<open>Waiting\<close>

text \<open>
  How many releases a request may still wait for: it moves forward with each of them, or the next one
  cannot pass it again.
\<close>

definition waits :: "u64 \<Rightarrow> nat \<Rightarrow> permit_coordinator \<Rightarrow> bool" where
  "waits t n c \<longleftrightarrow> (\<exists>i < length (queued (permit_queue c)). ticket (queued (permit_queue c) ! i) = t
     \<and> n = 2 * i + (if req_application (queued (permit_queue c) ! i) = last_granted_application (permit_queue c) then 1 else 0))"

lemma grant_index_cases:
  assumes "i < length (queued q)"
  obtains "grant_index q = i" | "grant_index q < i"
    | "i < grant_index q" "req_application (queued q ! i) = last_granted_application q"
      "req_application (queued q ! grant_index q) \<noteq> last_granted_application q" "grant_index q < length (queued q)"
proof (cases "find (\<lambda>i. req_application (queued q ! i) \<noteq> last_granted_application q) [0..<length (queued q)]")
  case None
  then have "grant_index q = 0" by (simp add: grant_index_def)
  with that show thesis by (cases i) auto
next
  case (Some j)
  have "grant_index q = j" by (simp add: grant_index_def Some)
  moreover from Some have "j < length (queued q)" "req_application (queued q ! j) \<noteq> last_granted_application q"
    "\<forall>k < j. req_application (queued q ! k) = last_granted_application q"
    by (auto simp: find_Some_iff)
  ultimately show thesis using that by (metis linorder_neqE_nat)
qed

lemma nth_remove_nth:
  "i < length xs \<Longrightarrow> j < length xs \<Longrightarrow> i \<noteq> j \<Longrightarrow>
     (let k = if j < i then i - 1 else i in k < length (remove_nth j xs) \<and> remove_nth j xs ! k = xs ! i)"
  by (auto simp: remove_nth_def nth_append Let_def min_def)

lemma release_advances:
  assumes q: "queue_invariants_ok (permit_queue c)" and w: "waits t n c"
  shows "granted_ticket (release_grant c) = Some t \<or> (\<exists>m < n. waits t m (release_grant c))"
proof -
  let ?q = "permit_queue c"
  from w obtain i where i: "i < length (queued ?q)" "ticket (queued ?q ! i) = t"
    "n = 2 * i + (if req_application (queued ?q ! i) = last_granted_application ?q then 1 else 0)"
    by (auto simp: waits_def)
  then have ne: "queued ?q \<noteq> []" by auto
  note g = grant_eq [OF q ne]
  let ?j = "grant_index ?q" let ?k = "if ?j < i then i - 1 else i"
  let ?m = "2 * ?k + (if req_application (queued ?q ! i) = req_application (queued ?q ! ?j) then 1 else 0)"
  have w': "waits t ?m (release_grant c)" if "?j \<noteq> i"
    using nth_remove_nth [OF i(1) grant_index_less [OF ne]] that i(2)
    by (auto simp: release_grant_def Let_def g waits_def intro!: exI [of _ ?k])
  from i(1) show ?thesis
  proof (cases rule: grant_index_cases)
    case 1
    then show ?thesis using i by (simp add: release_grant_def Let_def g)
  next
    case 2
    then have "?m < n" using i(3) by auto
    with w' 2 show ?thesis by blast
  next
    case 3
    then have "?m < n" using i(3) by auto
    with w' 3 show ?thesis by blast
  qed
qed

lemma nth_filter:
  assumes "i < length xs" "P (xs ! i)"
  obtains j where "j \<le> i" "j < length (filter P xs)" "filter P xs ! j = xs ! i"
proof
  let ?j = "length (filter P (take i xs))"
  have "xs = take i xs @ xs ! i # drop (Suc i) xs" using assms(1) by (rule id_take_nth_drop)
  then have f: "filter P xs = filter P (take i xs) @ xs ! i # filter P (drop (Suc i) xs)"
    using assms(2) by (metis filter.simps(2) filter_append)
  show "?j \<le> i" using length_filter_le [of P "take i xs"] by simp
  show "?j < length (filter P xs)" "filter P xs ! ?j = xs ! i" unfolding f by simp_all
qed

lemma others_keep_waiting:
  assumes ok: "coordinator_ok k c" and w: "waits t n c" and op: "op \<noteq> Release" "op \<noteq> Withdraw t"
  shows "\<exists>m \<le> n. waits t m (permit_step op c)"
proof -
  let ?q = "permit_queue c"
  from w obtain i where i: "i < length (queued ?q)" "ticket (queued ?q ! i) = t"
    "n = 2 * i + (if req_application (queued ?q ! i) = last_granted_application ?q then 1 else 0)"
    by (auto simp: waits_def)
  show ?thesis
  proof (cases op)
    case (Enqueue r)
    have "granted_ticket c \<noteq> None" using ok i by (auto simp: coordinator_ok_def)
    with i w Enqueue show ?thesis
      by (cases rule: enqueue_cases [of r c]) (auto simp: waits_def nth_append)
  next
    case (Withdraw u)
    with op i have "ticket (queued ?q ! i) \<noteq> u" by simp
    from nth_filter [where P = "\<lambda>r. ticket r \<noteq> u", OF i(1) this]
    obtain j where j: "j \<le> i" "j < length (filter (\<lambda>r. ticket r \<noteq> u) (queued ?q))"
      "filter (\<lambda>r. ticket r \<noteq> u) (queued ?q) ! j = queued ?q ! i" by blast
    have "waits t (2 * j + (n - 2 * i)) (permit_step op c) \<or> permit_step op c = c"
      using i j by (auto simp: Withdraw coordinator_withdraw_def waits_def)
    moreover have "2 * j + (n - 2 * i) \<le> n" using i(3) j(1) by auto
    ultimately show ?thesis using w by auto
  qed (use op in simp)
qed

lemma eventually_granted:
  assumes "coordinator_ok k c" "waits t n c" "n < count_list ops Release" "Withdraw t \<notin> set ops" "k + length ops < 2 ^ 64"
  shows "\<exists>j \<le> length ops. granted_ticket (fold permit_step (take j ops) c) = Some t"
  using assms
proof (induction ops arbitrary: k c n)
  case (Cons op ops)
  have ok: "coordinator_ok (Suc k) (permit_step op c)" using Cons.prems by (intro step_ok) simp_all
  have ?case if "waits t m (permit_step op c)" "m < count_list ops Release" for m
  proof -
    from Cons.IH [OF ok that] Cons.prems obtain j where "j \<le> length ops"
      "granted_ticket (fold permit_step (take j ops) (permit_step op c)) = Some t" by auto
    then show ?thesis by (intro exI [of _ "Suc j"]) simp
  qed
  moreover have ?case if "granted_ticket (permit_step op c) = Some t"
    using that by (intro exI [of _ 1]) simp
  moreover have "granted_ticket (permit_step op c) = Some t \<or> (\<exists>m < count_list ops Release. waits t m (permit_step op c))"
  proof (cases "op = Release")
    case True
    then show ?thesis
      using release_advances [of c t n] Cons.prems by (auto simp: coordinator_ok_def tickets_ok_def)
  next
    case False
    then show ?thesis
      using others_keep_waiting [OF Cons.prems(1,2) False] Cons.prems by (auto intro: le_less_trans)
  qed
  ultimately show ?case by blast
qed simp

text \<open>C10: The start-up permit is held by one caller at a time, is never lost, and never starves a waiter.
  Let the coordinator run any sequence of enqueues, withdrawals and releases from its initial
  state. While a request waits, some other ticket holds the permit; and the request at index
  \<open>i\<close> of the queue is granted by the time the permit has been released \<open>2 * i + 2\<close> times,
  whatever is enqueued or withdrawn in between, unless it is withdrawn itself.
\<close>

theorem permits_are_fair:
  fixes ops ops' maximum i
  defines "c \<equiv> fold permit_step ops (StartupPermitCoordinator maximum)"
  assumes "i < length (queued (permit_queue c))"
    and "Withdraw (ticket (queued (permit_queue c) ! i)) \<notin> set ops'"
    and "2 * i + 2 \<le> count_list ops' Release"
    and "length ops + length ops' < 2 ^ 64 - 1"
  shows "granted_ticket c \<notin> insert None (Some ` ticket ` set (queued (permit_queue c)))
    \<and> (\<exists>j \<le> length ops'. granted_ticket (fold permit_step (take j ops') c) = Some (ticket (queued (permit_queue c) ! i)))"
proof
  have ok: "coordinator_ok (1 + length ops) c"
    unfolding c_def using assms(5) by (intro run_ok coordinator_ok_init) simp
  then show "granted_ticket c \<notin> insert None (Some ` ticket ` set (queued (permit_queue c)))"
    using assms(2) by (auto simp: coordinator_ok_def tickets_ok_def)
  let ?n = "2 * i + (if req_application (queued (permit_queue c) ! i) = last_granted_application (permit_queue c) then 1 else 0)"
  have "waits (ticket (queued (permit_queue c) ! i)) ?n c" using assms(2) unfolding waits_def by blast
  moreover have "?n < count_list ops' Release" using assms(4) by auto
  ultimately
  show "\<exists>j \<le> length ops'. granted_ticket (fold permit_step (take j ops') c) = Some (ticket (queued (permit_queue c) ! i))"
    using assms(3,5) by (intro eventually_granted [OF ok]) simp_all
qed


definition sample_request :: "string \<Rightarrow> lane \<Rightarrow> permit_request" where
  "sample_request app ln = \<lparr>ticket = 0, req_application = app, req_generation = kProbeGeneration, lane = ln\<rparr>"

text \<open>The first application asks three times, another one once: the second permit goes to the other one.\<close>

definition sample_queueing :: "permit_op list" where
  "sample_queueing = [Enqueue (sample_request ''aa'' kDeploy), Enqueue (sample_request ''aa'' kDeploy),
     Enqueue (sample_request ''bb'' kDeploy)]"

theorem permits_are_fair_witness:
  "queued (permit_queue (fold permit_step sample_queueing (StartupPermitCoordinator 8)))
     = [(sample_request ''aa'' kDeploy)\<lparr>ticket := 2\<rparr>, (sample_request ''bb'' kDeploy)\<lparr>ticket := 3\<rparr>]
   \<and> (\<exists>j \<le> length [Release, Release]. granted_ticket (fold permit_step (take j [Release, Release])
          (fold permit_step sample_queueing (StartupPermitCoordinator 8))) = Some 2)"
proof
  show q: "queued (permit_queue (fold permit_step sample_queueing (StartupPermitCoordinator 8)))
     = [(sample_request ''aa'' kDeploy)\<lparr>ticket := 2\<rparr>, (sample_request ''bb'' kDeploy)\<lparr>ticket := 3\<rparr>]"
    by code_simp
  have len: "length sample_queueing = 3" by (simp add: sample_queueing_def)
  show "\<exists>j \<le> length [Release, Release]. granted_ticket (fold permit_step (take j [Release, Release])
          (fold permit_step sample_queueing (StartupPermitCoordinator 8))) = Some 2"
    using permits_are_fair [of 0 sample_queueing 8 "[Release, Release]"] len
    by (simp add: q)
qed

end
