(* ===== verification/Request_Normalization.thy ===== *)
theory Request_Normalization
  imports Active_State Ws_Codec
begin

text \<open>
  The identity of a public request (\<open>src/host/request_normalization.cc\<close>): the listener hands over the
  request target and the header fields of a parsed HTTP/1 request; the functions here route it to an
  application, build the URL the worker sees, and drop the fields that must not reach it. The
  helpers \<open>ascii_digit\<close>, \<open>ascii_lower\<close> and \<open>valid_application_id\<close> of that file have the same
  text as those of \<open>active_state.cc\<close> and are taken from there. Characters compare as
  \<open>unsigned char\<close>; all the ranges tested lie below 128, where that agrees with \<open>char\<close>.
\<close>

section \<open>Types\<close>

abbreviation (input) kMaxPublicRequestTargetBytes :: nat where "kMaxPublicRequestTargetBytes \<equiv> 16384"
abbreviation (input) kMaxPublicRequestHeaderFields :: nat where "kMaxPublicRequestHeaderFields \<equiv> 128"
abbreviation (input) kMaxPublicRequestHeaderBytes :: nat where "kMaxPublicRequestHeaderBytes \<equiv> 65536"
abbreviation (input) kMaxPublicAuthorityBytes :: nat where "kMaxPublicAuthorityBytes \<equiv> 259"

datatype routing_mode = kSubdomain | kPath | kHeader

record routing_policy =
  mode :: routing_mode
  public_scheme :: string
  subdomain_suffix :: string
  public_authority :: string
  trusted_header_routing :: bool

record header_view =
  hname :: string
  hvalue :: string

datatype upgrade_check = kNotUpgrade | kValid | kBadKey | kUnsupportedVersion

record normalized_request =
  req_app :: string
  url :: string
  headers :: "header_view list"

datatype normalization_error_code = kInvalidListenerPolicy | kInvalidTarget | kInvalidAuthority | kInvalidHeader
  | kResourceLimit | kRouteNotFound | kUntrustedHeaderRouting

record normalization_error =
  norm_code :: normalization_error_code
  norm_path :: string
  norm_message :: string

abbreviation (input) norm_error :: "normalization_error_code \<Rightarrow> string \<Rightarrow> string \<Rightarrow> normalization_error" where
  "norm_error c p m \<equiv> \<lparr>norm_code = c, norm_path = p, norm_message = m\<rparr>"

section \<open>Characters and text\<close>

definition ascii_hex :: "char \<Rightarrow> bool" where
  "ascii_hex c \<longleftrightarrow> ascii_digit c \<or> (CHR ''a'' \<le> c \<and> c \<le> CHR ''f'') \<or> (CHR ''A'' \<le> c \<and> c \<le> CHR ''F'')"

definition ascii_lower_char :: "char \<Rightarrow> char" where
  "ascii_lower_char c = (if CHR ''A'' \<le> c \<and> c \<le> CHR ''Z'' then char_of (of_char c - 65 + 97 :: nat) else c)"

definition token_char :: "char \<Rightarrow> bool" where
  "token_char c =
     (if ascii_digit c \<or> ascii_lower c \<or> (CHR ''A'' \<le> c \<and> c \<le> CHR ''Z'') then True
      else c \<in> set ''!#$%&*+-.^_`|~'' \<or> c = CHR 0x27)"

abbreviation (input) lowered :: "string \<Rightarrow> string" where "lowered s \<equiv> map ascii_lower_char s"

text \<open>\<open>std::to_string\<close> of an unsigned value.\<close>

fun to_string :: "nat \<Rightarrow> string" where
  "to_string n = (if n < 10 then [char_of (n + 48)] else to_string (n div 10) @ [char_of (n mod 10 + 48)])"

text \<open>
  The loop \<open>while (start <= s.size()) { end = s.find(sep, start); ... start = end + 1; }\<close> that the source
  writes five times: the pieces between the separators, in order, up to the first one the body rejects.
\<close>

function each_piece :: "char \<Rightarrow> (string \<Rightarrow> 'e option) \<Rightarrow> string \<Rightarrow> 'e option" where
  "each_piece sep check s =
     (case check (takeWhile (\<lambda>c. c \<noteq> sep) s) of
        Some e \<Rightarrow> Some e
      | None \<Rightarrow> (case dropWhile (\<lambda>c. c \<noteq> sep) s of [] \<Rightarrow> None | _ # rest \<Rightarrow> each_piece sep check rest))"
  by pat_completeness auto

termination
proof (relation "measure (\<lambda>(_, _, s). length s)")
  fix sep check s x rest assume "dropWhile (\<lambda>c. c \<noteq> sep) s = (x # rest :: string)"
  then have "Suc (length rest) \<le> length s" by (metis length_Cons length_dropWhile_le)
  then show "((sep, check, rest), (sep, check, s)) \<in> measure (\<lambda>(_, _, s). length s)" by simp
qed simp

declare each_piece.simps [simp del]

section \<open>Authorities\<close>

definition valid_label :: "string \<Rightarrow> bool" where
  "valid_label l =
     (if l = '''' \<or> length l > 63 \<or> hd l = CHR ''-'' \<or> last l = CHR ''-'' then False
      else list_all (\<lambda>c. ascii_lower c \<or> ascii_digit c \<or> c = CHR ''-'') l)"

definition valid_labels :: "string \<Rightarrow> bool" where
  "valid_labels name \<longleftrightarrow> each_piece (CHR ''.'') (\<lambda>l. if valid_label l then None else Some ()) name = None"

record authority =
  auth_host :: string
  auth_port :: "u16 option"

fun parse_port :: "string \<Rightarrow> u32 \<Rightarrow> u32 option" where
  "parse_port [] port = Some port"
| "parse_port (c # cs) port = (if \<not> ascii_digit c then None else parse_port cs (port * 10 + (of_char c - 48)))"

definition parse_authority :: "string \<Rightarrow> authority option" where
  "parse_authority v =
     (if v = '''' \<or> length v > kMaxPublicAuthorityBytes then None
      else let host_part = takeWhile (\<lambda>c. c \<noteq> CHR '':'') v;
               has_port = (CHR '':'' \<in> set v);
               port_part = tl (dropWhile (\<lambda>c. c \<noteq> CHR '':'') v);
               host = lowered host_part in
        if \<not> list_all (\<lambda>c. ascii_lower c \<or> ascii_digit c \<or> c = CHR ''-'' \<or> c = CHR ''.'') host then None
        else if length host > 253 then None
        else if \<not> valid_labels host then None
        else if has_port
        then if port_part = '''' \<or> length port_part > 5 then None
          else case parse_port port_part 0 of
            None \<Rightarrow> None
          | Some port \<Rightarrow> if port = 0 \<or> port > 65535 then None else Some \<lparr>auth_host = host, auth_port = Some (ucast port)\<rparr>
        else Some \<lparr>auth_host = host, auth_port = None\<rparr>)"

definition is_valid_public_authority :: "string \<Rightarrow> bool" where
  "is_valid_public_authority v \<longleftrightarrow> parse_authority v \<noteq> None"

section \<open>The listener's policy\<close>

definition validate_policy :: "routing_policy \<Rightarrow> normalization_error option" where
  "validate_policy p =
     (if public_scheme p \<noteq> ''http'' \<and> public_scheme p \<noteq> ''https''
      then Some (norm_error kInvalidListenerPolicy ''/listener/publicScheme'' ''public scheme must be exactly http or https'')
      else if mode p = kSubdomain
      then if subdomain_suffix p = '''' \<or> hd (subdomain_suffix p) \<noteq> CHR ''.''
        then Some (norm_error kInvalidListenerPolicy ''/listener/routing/suffix'' ''subdomain suffix must start with a dot'')
        else if CHR '':'' \<in> set (subdomain_suffix p)
        then Some (norm_error kInvalidListenerPolicy ''/listener/routing/suffix'' ''subdomain suffix must not contain a port'')
        else if \<not> valid_labels (lowered (tl (subdomain_suffix p)))
        then Some (norm_error kInvalidListenerPolicy ''/listener/routing/suffix'' ''subdomain suffix is not a valid domain'')
        else None
      else if public_authority p = '''' \<or> parse_authority (public_authority p) = None
      then Some (norm_error kInvalidListenerPolicy ''/listener/publicAuthority'' ''public authority must be host[:port]'')
      else if mode p = kHeader \<and> \<not> trusted_header_routing p
      then Some (norm_error kUntrustedHeaderRouting ''/listener/routing/mode'' ''header routing requires a trusted listener'')
      else None)"

definition is_valid_routing_policy :: "routing_policy \<Rightarrow> bool" where
  "is_valid_routing_policy p \<longleftrightarrow> validate_policy p = None"

section \<open>The request target\<close>

fun bad_target_byte :: "string \<Rightarrow> normalization_error option" where
  "bad_target_byte [] = None"
| "bad_target_byte (c # s) =
     (let ch = of_char c :: nat in
      if ch \<ge> 0x80 \<or> ch < 0x21 \<or> ch = 0x7f
      then Some (norm_error kInvalidTarget ''/target'' ''request target contains a space, control or non-ASCII byte'')
      else if c = CHR 0x5C \<or> c = CHR ''#''
      then Some (norm_error kInvalidTarget ''/target'' ''request target contains a forbidden byte'')
      else bad_target_byte s)"

fun bad_escape :: "string \<Rightarrow> bool" where
  "bad_escape [] = False"
| "bad_escape (c # s) =
     ((c = CHR ''%'' \<and> (case s of a # b # _ \<Rightarrow> \<not> ascii_hex a \<or> \<not> ascii_hex b | _ \<Rightarrow> True)) \<or> bad_escape s)"

definition hex_value :: "char \<Rightarrow> byte" where
  "hex_value c =
     (if CHR ''0'' \<le> c \<and> c \<le> CHR ''9'' then of_char c - 48
      else if CHR ''a'' \<le> c \<and> c \<le> CHR ''f'' then of_char c - 97 + 10
      else of_char c - 65 + 10)"

definition escaped_byte :: "char \<Rightarrow> char \<Rightarrow> byte" where
  "escaped_byte a b = push_bit 4 (hex_value a) OR hex_value b"

fun encoded_slash :: "string \<Rightarrow> bool" where
  "encoded_slash (c # a # b # s) =
     ((c = CHR ''%'' \<and> (escaped_byte a b = 0x2F \<or> escaped_byte a b = 0x5C)) \<or> encoded_slash (a # b # s))"
| "encoded_slash _ = False"

fun percent_decode :: "string \<Rightarrow> string" where
  "percent_decode (c # a # b # s) =
     (if c = CHR ''%'' then char_of (unat (escaped_byte a b)) # percent_decode s else c # percent_decode (a # b # s))"
| "percent_decode s = s"

definition dot_segment :: "string \<Rightarrow> normalization_error option" where
  "dot_segment segment =
     (if segment = ''.'' \<or> segment = ''..''
      then Some (norm_error kInvalidTarget ''/target'' ''request path contains a dot segment'')
      else if percent_decode segment = ''.'' \<or> percent_decode segment = ''..''
      then Some (norm_error kInvalidTarget ''/target'' ''request path contains an encoded dot segment'')
      else None)"

definition path_of :: "string \<Rightarrow> string" where
  "path_of target = takeWhile (\<lambda>c. c \<noteq> CHR ''?'') target"

definition validate_target :: "string \<Rightarrow> normalization_error option" where
  "validate_target target =
     (if length target > kMaxPublicRequestTargetBytes
      then Some (norm_error kResourceLimit ''/target'' ''request target exceeds the size limit'')
      else if target = '''' \<or> hd target \<noteq> CHR ''/''
      then Some (norm_error kInvalidTarget ''/target'' ''only origin-form request targets are accepted'')
      else case bad_target_byte target of
        Some e \<Rightarrow> Some e
      | None \<Rightarrow>
          if bad_escape target
          then Some (norm_error kInvalidTarget ''/target'' ''request target has a malformed percent escape'')
          else if encoded_slash (path_of target)
          then Some (norm_error kInvalidTarget ''/target'' ''request path contains an encoded slash'')
          else each_piece (CHR ''/'') dot_segment (path_of target))"

section \<open>Header fields\<close>

definition is_hop_by_hop :: "string \<Rightarrow> bool" where
  "is_hop_by_hop name \<longleftrightarrow> name = ''connection'' \<or> name = ''keep-alive'' \<or> name = ''proxy-connection'' \<or> name = ''te''
     \<or> name = ''trailer'' \<or> name = ''transfer-encoding'' \<or> name = ''upgrade''"

definition is_forwarding :: "string \<Rightarrow> bool" where
  "is_forwarding name \<longleftrightarrow> name = ''forwarded'' \<or> name = ''x-real-ip'' \<or> prefix ''x-forwarded-'' name"

definition is_ows :: "char \<Rightarrow> bool" where
  "is_ows c \<longleftrightarrow> c = CHR '' '' \<or> c = CHR 0x09"

text \<open>Dropping blanks at both ends.\<close>

definition trim :: "string \<Rightarrow> string" where
  "trim s = rev (dropWhile is_ows (rev (dropWhile is_ows s)))"

definition name_iequals :: "string \<Rightarrow> string \<Rightarrow> bool" where
  "name_iequals name lower = (if length name \<noteq> length lower then False else list_all2 (\<lambda>a b. ascii_lower_char a = b) name lower)"

definition header_value_has_token :: "string \<Rightarrow> string \<Rightarrow> bool" where
  "header_value_has_token v token \<longleftrightarrow>
     each_piece (CHR '','') (\<lambda>item. if length (trim item) = length token \<and> lowered (trim item) = lowered token
                                   then Some () else None) v \<noteq> None"

definition header_equals_token :: "string \<Rightarrow> string \<Rightarrow> bool" where
  "header_equals_token v token =
     (if length v \<noteq> length token then False
      else list_all2 (\<lambda>a b. ascii_lower_char a = ascii_lower_char b) v token)"

text \<open>The four fields of a WebSocket handshake seen so far, or the answer that ends the loop.\<close>

record upgrade_fields =
  connection_field :: "header_view option"
  upgrade_field :: "header_view option"
  key_field :: "header_view option"
  version_field :: "header_view option"

fun upgrade_scan :: "header_view list \<Rightarrow> upgrade_fields \<Rightarrow> upgrade_check + upgrade_fields" where
  "upgrade_scan [] f = Inr f"
| "upgrade_scan (view # views) f =
     (if name_iequals (hname view) ''connection''
      then if connection_field f \<noteq> None then Inl kNotUpgrade else upgrade_scan views (f\<lparr>connection_field := Some view\<rparr>)
      else if name_iequals (hname view) ''upgrade''
      then if upgrade_field f \<noteq> None then Inl kNotUpgrade else upgrade_scan views (f\<lparr>upgrade_field := Some view\<rparr>)
      else if name_iequals (hname view) ''sec-websocket-key''
      then if key_field f \<noteq> None then Inl kBadKey else upgrade_scan views (f\<lparr>key_field := Some view\<rparr>)
      else if name_iequals (hname view) ''sec-websocket-version''
      then if version_field f \<noteq> None then Inl kUnsupportedVersion else upgrade_scan views (f\<lparr>version_field := Some view\<rparr>)
      else upgrade_scan views f)"

definition check_websocket_upgrade :: "header_view list \<Rightarrow> upgrade_check" where
  "check_websocket_upgrade views =
     (case upgrade_scan views \<lparr>connection_field = None, upgrade_field = None, key_field = None, version_field = None\<rparr> of
        Inl answer \<Rightarrow> answer
      | Inr f \<Rightarrow>
          (case (connection_field f, upgrade_field f) of
             (Some connection, Some upgrade) \<Rightarrow>
               if \<not> header_value_has_token (hvalue connection) ''upgrade'' \<or> \<not> header_equals_token (hvalue upgrade) ''websocket''
               then kNotUpgrade
               else (case version_field f of
                  None \<Rightarrow> kUnsupportedVersion
                | Some ver \<Rightarrow>
                    if \<not> header_equals_token (hvalue ver) ''13'' then kUnsupportedVersion
                    else (case key_field f of
                       None \<Rightarrow> kBadKey
                     | Some key \<Rightarrow> if \<not> validate_client_key (hvalue key) then kBadKey else kValid))
           | _ \<Rightarrow> kNotUpgrade))"

section \<open>Normalisation\<close>

text \<open>What the loop over the header fields collects.\<close>

record collected =
  lowered_names :: "string list"
  host_index :: "nat option"
  capsid_app_index :: "nat option"
  capsid_app_count :: nat
  connection_nominated :: "string list"

text \<open>
  The tokens of a Connection field: each piece is trimmed, must be a token, and is kept in lower case.
  (The source skips the blanks before the piece by moving \<open>start\<close>, which never passes the comma.)
\<close>

definition connection_token :: "nat \<Rightarrow> string \<Rightarrow> normalization_error option" where
  "connection_token index item =
     (if trim item = ''''
      then Some (norm_error kInvalidHeader (''/headers/'' @ to_string index) ''Connection header contains an empty token'')
      else if \<not> list_all token_char (trim item)
      then Some (norm_error kInvalidHeader (''/headers/'' @ to_string index) ''Connection header contains an invalid token'')
      else None)"

function connection_tokens :: "nat \<Rightarrow> string \<Rightarrow> string list \<Rightarrow> normalization_error + string list" where
  "connection_tokens index s nominated =
     (let item = takeWhile (\<lambda>c. c \<noteq> CHR '','') s in
      case connection_token index item of
        Some e \<Rightarrow> Inl e
      | None \<Rightarrow>
          (case dropWhile (\<lambda>c. c \<noteq> CHR '','') s of
             [] \<Rightarrow> Inr (nominated @ [lowered (trim item)])
           | _ # rest \<Rightarrow> connection_tokens index rest (nominated @ [lowered (trim item)])))"
  by pat_completeness auto

termination
proof (relation "measure (\<lambda>(_, s, _). length s)")
  fix index :: nat and s x rest and nominated y :: "string list"
  assume "dropWhile (\<lambda>c. c \<noteq> CHR '','') s = x # rest"
  then have "Suc (length rest) \<le> length s" by (metis length_Cons length_dropWhile_le)
  then show "((index, rest, y), (index, s, nominated)) \<in> measure (\<lambda>(_, s, _). length s)" by simp
qed simp

declare connection_tokens.simps [simp del]

definition collect_header :: "nat \<Rightarrow> header_view \<Rightarrow> collected \<Rightarrow> normalization_error + collected" where
  "collect_header index hdr c =
     (if hname hdr = ''''
      then Inl (norm_error kInvalidHeader (''/headers/'' @ to_string index) ''header name must not be empty'')
      else if \<not> list_all token_char (hname hdr)
      then Inl (norm_error kInvalidHeader (''/headers/'' @ to_string index) ''header name is not a valid token'')
      else if \<not> list_all (\<lambda>ch. ch = CHR 0x09 \<or> (0x20 \<le> (of_char ch :: nat) \<and> (of_char ch :: nat) \<le> 0x7e)) (hvalue hdr)
      then Inl (norm_error kInvalidHeader (''/headers/'' @ to_string index) ''header value contains a forbidden byte'')
      else let name = lowered (hname hdr); c = c\<lparr>lowered_names := lowered_names c @ [name]\<rparr> in
      if name = ''host''
      then if host_index c \<noteq> None then Inl (norm_error kInvalidHeader ''/headers/host'' ''duplicate Host header'')
        else Inr (c\<lparr>host_index := Some index\<rparr>)
      else if name = ''capsid-app''
      then Inr (c\<lparr>capsid_app_index := (if capsid_app_index c = None then Some index else capsid_app_index c),
                  capsid_app_count := capsid_app_count c + 1\<rparr>)
      else if name = ''connection''
      then map_sum id (\<lambda>tokens. c\<lparr>connection_nominated := tokens\<rparr>)
             (connection_tokens index (hvalue hdr) (connection_nominated c))
      else Inr c)"

fun collect_headers :: "nat \<Rightarrow> header_view list \<Rightarrow> collected \<Rightarrow> normalization_error + collected" where
  "collect_headers index [] c = Inr c"
| "collect_headers index (hdr # hdrs) c =
     (case collect_header index hdr c of Inl e \<Rightarrow> Inl e | Inr c \<Rightarrow> collect_headers (index + 1) hdrs c)"

definition show_authority :: "authority \<Rightarrow> string" where
  "show_authority a = auth_host a @ (case auth_port a of Some port \<Rightarrow> '':'' @ to_string (unat port) | None \<Rightarrow> '''')"

text \<open>The application and the URL, per routing mode.\<close>

definition route_subdomain :: "routing_policy \<Rightarrow> string \<Rightarrow> nat \<Rightarrow> authority \<Rightarrow> normalization_error + string \<times> string" where
  "route_subdomain p target host_at host_authority =
     (let suffix = lowered (subdomain_suffix p); suffix_domain = tl suffix; host = auth_host host_authority;
          at = ''/headers/'' @ to_string host_at in
      if length host \<le> length suffix_domain
         \<or> drop (length host - length suffix_domain) host \<noteq> suffix_domain
         \<or> host ! (length host - length suffix_domain - 1) \<noteq> CHR ''.''
      then Inl (norm_error kInvalidAuthority at ''Host does not match the subdomain suffix'')
      else let app = take (length host - length suffix_domain - 1) host in
      if app = '''' \<or> CHR ''.'' \<in> set app
      then Inl (norm_error kInvalidAuthority at ''Host carries an ambiguous App label'')
      else if \<not> valid_application_id app
      then Inl (norm_error kInvalidAuthority at ''Host App label exceeds the App ID limits'')
      else Inr (app, public_scheme p @ ''://'' @ app @ suffix
             @ (case auth_port host_authority of Some port \<Rightarrow> '':'' @ to_string (unat port) | None \<Rightarrow> '''') @ target))"

abbreviation (input) kPathPrefix :: string where "kPathPrefix \<equiv> ''/@capsid/''"

definition rewritten_target :: "string \<Rightarrow> string" where
  "rewritten_target rest = (if rest = '''' then ''/'' else if hd rest = CHR ''/'' then rest else ''/'' @ rest)"

definition route_path :: "routing_policy \<Rightarrow> string \<Rightarrow> string \<Rightarrow> normalization_error + string \<times> string" where
  "route_path p target origin =
     (if take (length kPathPrefix) target \<noteq> kPathPrefix
      then Inl (norm_error kRouteNotFound ''/target'' ''path routing requires the /@capsid/{app} prefix'')
      else let after = drop (length kPathPrefix) target;
               app = takeWhile (\<lambda>c. c \<noteq> CHR ''/'' \<and> c \<noteq> CHR ''?'') after;
               rest = dropWhile (\<lambda>c. c \<noteq> CHR ''/'' \<and> c \<noteq> CHR ''?'') after in
      if app = '''' \<or> \<not> valid_application_id app
      then Inl (norm_error kRouteNotFound ''/target'' ''path routing requires a valid App segment'')
      else Inr (app, public_scheme p @ ''://'' @ origin @ rewritten_target rest))"

definition route_header ::
  "routing_policy \<Rightarrow> string \<Rightarrow> string \<Rightarrow> header_view list \<Rightarrow> collected \<Rightarrow> normalization_error + string \<times> string" where
  "route_header p target origin hs c =
     (if capsid_app_count c = 0
      then Inl (norm_error kRouteNotFound ''/headers/capsid-app'' ''header routing requires a Capsid-App header'')
      else if capsid_app_count c > 1
      then Inl (norm_error kInvalidHeader ''/headers/capsid-app'' ''duplicate Capsid-App header'')
      else let at = the (capsid_app_index c); app = hvalue (hs ! at) in
      if \<not> valid_application_id app
      then Inl (norm_error kRouteNotFound (''/headers/'' @ to_string at) ''Capsid-App is not a valid App ID'')
      else Inr (app, public_scheme p @ ''://'' @ origin @ target))"

definition route_application ::
  "routing_policy \<Rightarrow> string \<Rightarrow> header_view list \<Rightarrow> collected \<Rightarrow> nat \<Rightarrow> authority \<Rightarrow> normalization_error + string \<times> string" where
  "route_application p target hs c host_at host_authority =
     (if mode p = kSubdomain then route_subdomain p target host_at host_authority
      else case parse_authority (public_authority p) of
        None \<Rightarrow> Inl (norm_error kInvalidListenerPolicy ''/listener/publicAuthority'' ''public authority must be host[:port]'')
      | Some a \<Rightarrow>
          if mode p = kPath then route_path p target (show_authority a)
          else route_header p target (show_authority a) hs c)"

definition removed :: "string list \<Rightarrow> string \<Rightarrow> bool" where
  "removed nominated name \<longleftrightarrow> name = ''host'' \<or> name = ''capsid-app'' \<or> is_hop_by_hop name \<or> is_forwarding name
     \<or> name \<in> set nominated"

definition output_headers :: "header_view list \<Rightarrow> collected \<Rightarrow> header_view list" where
  "output_headers hs c =
     concat (map (\<lambda>(name, hdr). if removed (connection_nominated c) name then [] else [\<lparr>hname = name, hvalue = hvalue hdr\<rparr>])
       (zip (lowered_names c) hs))"

definition normalize_public_request ::
  "routing_policy \<Rightarrow> string \<Rightarrow> header_view list \<Rightarrow> normalization_error + normalized_request" where
  "normalize_public_request p target hs =
     (if length hs > kMaxPublicRequestHeaderFields
      then Inl (norm_error kResourceLimit ''/headers'' ''too many request header fields'')
      else if sum_list (map (\<lambda>hdr. length (hname hdr) + length (hvalue hdr)) hs) > kMaxPublicRequestHeaderBytes
      then Inl (norm_error kResourceLimit ''/headers'' ''request header bytes exceed the limit'')
      else case validate_policy p of
        Some e \<Rightarrow> Inl e
      | None \<Rightarrow>
      (case validate_target target of
        Some e \<Rightarrow> Inl e
      | None \<Rightarrow>
      (case collect_headers 0 hs \<lparr>lowered_names = [], host_index = None, capsid_app_index = None, capsid_app_count = 0,
              connection_nominated = []\<rparr> of
        Inl e \<Rightarrow> Inl e
      | Inr c \<Rightarrow>
      (case host_index c of
        None \<Rightarrow> Inl (norm_error kInvalidHeader ''/headers/host'' ''Host header is required'')
      | Some host_at \<Rightarrow>
      (case parse_authority (hvalue (hs ! host_at)) of
        None \<Rightarrow> Inl (norm_error kInvalidAuthority (''/headers/'' @ to_string host_at) ''Host header is not a valid authority'')
      | Some host_authority \<Rightarrow>
      (case route_application p target hs c host_at host_authority of
        Inl e \<Rightarrow> Inl e
      | Inr (app, u) \<Rightarrow> Inr \<lparr>req_app = app, url = u, headers = output_headers hs c\<rparr>))))))"

section \<open>Pieces\<close>

primrec pieces :: "char \<Rightarrow> string \<Rightarrow> string list" where
  "pieces sep [] = [[]]"
| "pieces sep (c # s) = (if c = sep then [] # pieces sep s else (c # hd (pieces sep s)) # tl (pieces sep s))"

lemma pieces_not_Nil [simp]: "pieces sep s \<noteq> []"
  by (induction s) auto

lemma pieces_unfold:
  "pieces sep s = takeWhile (\<lambda>c. c \<noteq> sep) s # (case dropWhile (\<lambda>c. c \<noteq> sep) s of [] \<Rightarrow> [] | _ # rest \<Rightarrow> pieces sep rest)"
  by (induction s) auto

lemma each_piece_None: "each_piece sep check s = None \<longleftrightarrow> (\<forall>x \<in> set (pieces sep s). check x = None)"
proof (induction sep check s rule: each_piece.induct)
  case (1 sep check s)
  show ?case
  proof (cases "dropWhile (\<lambda>c. c \<noteq> sep) s")
    case Nil
    show ?thesis by (subst each_piece.simps, subst pieces_unfold) (simp only: Nil list.case, simp split: option.split)
  next
    case (Cons x rest)
    show ?thesis
      by (subst each_piece.simps, subst pieces_unfold)
         (use 1 [OF _ Cons] in \<open>simp only: Cons list.case, auto split: option.split\<close>)
  qed
qed

lemma pieces_append_sep: "pieces sep (xs @ sep # ys) = pieces sep xs @ pieces sep ys"
proof (induction xs)
  case (Cons x xs)
  then show ?case by (cases "pieces sep xs") auto
qed simp

lemma pieces_no_sep: "sep \<notin> set s \<Longrightarrow> pieces sep s = [s]"
  by (induction s) auto

lemma sep_not_in_pieces: "x \<in> set (pieces sep s) \<Longrightarrow> sep \<notin> set x"
proof (induction s arbitrary: x)
  case (Cons c s)
  then show ?case by (cases "pieces sep s") (auto split: if_splits)
qed simp

lemma in_pieces_subset: "x \<in> set (pieces sep s) \<Longrightarrow> set x \<subseteq> set s"
proof (induction s arbitrary: x)
  case (Cons c s)
  then show ?case by (cases "pieces sep s") (fastforce split: if_splits)+
qed simp

section \<open>Targets\<close>

lemma bad_target_byte_None:
  "bad_target_byte s = None \<longleftrightarrow>
     (\<forall>c \<in> set s. 0x21 \<le> (of_char c :: nat) \<and> (of_char c :: nat) < 0x7f \<and> c \<noteq> CHR 0x5C \<and> c \<noteq> CHR ''#'')"
  by (induction s) (auto simp: Let_def)

lemma bad_escape_append: "\<not> bad_escape (xs @ ys) \<Longrightarrow> \<not> bad_escape ys"
  by (induction xs) auto

lemma encoded_slash_append: "\<not> encoded_slash (xs @ ys) \<Longrightarrow> \<not> encoded_slash ys"
proof (induction xs)
  case (Cons x xs)
  then show ?case by (cases "xs @ ys" rule: encoded_slash.cases; cases ys rule: encoded_slash.cases) auto
qed simp

lemma validate_target_None:
  "validate_target t = None \<longleftrightarrow>
     length t \<le> kMaxPublicRequestTargetBytes \<and> (\<exists>s. t = CHR ''/'' # s) \<and> bad_target_byte t = None \<and> \<not> bad_escape t
     \<and> \<not> encoded_slash (path_of t) \<and> (\<forall>x \<in> set (pieces (CHR ''/'') (path_of t)). dot_segment x = None)"
  by (cases t) (auto simp: validate_target_def each_piece_None split: option.splits if_splits)

lemma rewritten_target_valid:
  assumes v: "validate_target (pre @ rest) = None" and pre: "CHR ''?'' \<notin> set pre" "pre \<noteq> []"
    and rest: "rest = [] \<or> hd rest = CHR ''/'' \<or> hd rest = CHR ''?''"
  shows "validate_target (rewritten_target rest) = None"
proof -
  have p: "path_of (pre @ rest) = pre @ path_of rest" using pre by (auto simp: path_of_def takeWhile_append)
  consider "rest = []" | s where "rest = CHR ''/'' # s" | s where "rest = CHR ''?'' # s" using rest by (cases rest) auto
  then show ?thesis
  proof cases
    case 1
    then show ?thesis by (simp add: validate_target_None rewritten_target_def path_of_def dot_segment_def)
  next
    case 2
    have "pieces (CHR ''/'') (pre @ path_of rest) = pieces (CHR ''/'') pre @ pieces (CHR ''/'') (path_of s)"
      by (simp add: 2 path_of_def pieces_append_sep)
    with v p bad_escape_append [of pre rest] encoded_slash_append [of pre "path_of rest"] show ?thesis
      by (auto simp: 2 validate_target_None rewritten_target_def path_of_def dot_segment_def bad_target_byte_None)
  next
    case 3
    with v pre bad_escape_append [of pre rest] show ?thesis
      by (cases pre) (auto simp: validate_target_None rewritten_target_def path_of_def dot_segment_def bad_target_byte_None)
  qed
qed
text \<open>Decoding before or after cutting the path into segments makes no difference in a target that was accepted.\<close>

lemma percent_decode_Cons: "c \<noteq> CHR ''%'' \<Longrightarrow> percent_decode (c # s) = c # percent_decode s"
  by (cases "c # s" rule: percent_decode.cases) auto

lemma percent_decode_short: "length s < 3 \<Longrightarrow> percent_decode s = s"
  by (cases s rule: percent_decode.cases) auto

lemma ascii_hex_not_slash: "ascii_hex c \<Longrightarrow> c \<noteq> CHR ''/''"
  by (auto simp: ascii_hex_def ascii_digit_def less_eq_char_def)

lemma escaped_slash: "char_of (unat (escaped_byte a b)) = CHR ''/'' \<longleftrightarrow> escaped_byte a b = 0x2F"
  "char_of (unat (escaped_byte a b)) = CHR 0x5C \<longleftrightarrow> escaped_byte a b = 0x5C"
proof -
  have "char_of (unat (w :: byte)) = char_of (unat v) \<longleftrightarrow> w = v" for w v
  proof
    assume "char_of (unat w) = char_of (unat v)"
    then have "(of_char (char_of (unat w)) :: nat) = of_char (char_of (unat v))" by simp
    then have "unat w mod 256 = unat v mod 256" by (simp only: of_char_of)
    then show "w = v"
      using unsigned_less [where ?'a = nat and w = w] unsigned_less [where ?'a = nat and w = v] by (simp add: word_unat_eq_iff)
  qed simp
  moreover have "CHR ''/'' = char_of (unat (0x2F :: byte))" "CHR 0x5C = char_of (unat (0x5C :: byte))" by code_simp+
  ultimately show
    "char_of (unat (escaped_byte a b)) = CHR ''/'' \<longleftrightarrow> escaped_byte a b = 0x2F"
    "char_of (unat (escaped_byte a b)) = CHR 0x5C \<longleftrightarrow> escaped_byte a b = 0x5C"
    by metis+
qed

lemma decode_pieces:
  assumes "\<not> bad_escape s" "\<not> encoded_slash s"
  shows "pieces (CHR ''/'') (percent_decode s) = map percent_decode (pieces (CHR ''/'') s)"
  using assms
proof (induction s rule: percent_decode.induct)
  case (1 c a b s)
  show ?case
  proof (cases "c = CHR ''%''")
    case True
    have e: "\<not> encoded_slash s" using 1 encoded_slash_append [of "[c, a, b]" s] by simp
    have hex: "a \<noteq> CHR ''/''" "b \<noteq> CHR ''/''" using 1 True ascii_hex_not_slash by auto
    have sl: "escaped_byte a b \<noteq> 0x2F" using 1 True by auto
    show ?thesis
      using 1(1) [OF True] 1(3) e True hex sl by (cases "pieces (CHR ''/'') s") (auto simp: escaped_slash)
  next
    case False
    then show ?thesis
      using 1(2) [OF False] 1(3,4)
      by (cases "pieces (CHR ''/'') (a # b # s)") (auto simp: percent_decode_Cons)
  qed
qed (auto simp: percent_decode_short)

lemma decode_no_backslash:
  assumes "\<not> encoded_slash s" "CHR 0x5C \<notin> set s"
  shows "CHR 0x5C \<notin> set (percent_decode s)"
  using assms
proof (induction s rule: percent_decode.induct)
  case (1 c a b s)
  have "\<not> encoded_slash s" using 1 encoded_slash_append [of "[c, a, b]" s] by simp
  with 1 show ?case using escaped_slash(2) [of a b] by (cases "c = CHR ''%''") auto
qed auto

lemma path_of_append: "t = path_of t @ dropWhile (\<lambda>c. c \<noteq> CHR ''?'') t"
  by (simp add: path_of_def)

lemma bad_escape_prefix: "\<not> bad_escape (xs @ ys) \<Longrightarrow> ys = [] \<or> hd ys = CHR ''?'' \<Longrightarrow> \<not> bad_escape xs"
proof (induction xs)
  case (Cons x xs)
  have q: "\<not> ascii_hex (CHR ''?'')" by (simp add: ascii_hex_def ascii_digit_def)
  from Cons q show ?case
    by (cases xs; cases "tl xs"; cases ys) (auto split: list.splits)
qed simp

lemma accepted_path:
  assumes "validate_target t = None"
  shows "pieces (CHR ''/'') (percent_decode (path_of t)) = map percent_decode (pieces (CHR ''/'') (path_of t))
    \<and> (\<forall>x \<in> set (pieces (CHR ''/'') (percent_decode (path_of t))). x \<notin> {''.'', ''..''} \<and> CHR 0x5C \<notin> set x)"
proof -
  let ?q = "dropWhile (\<lambda>c. c \<noteq> CHR ''?'') t"
  from assms have v: "\<not> bad_escape t" "\<not> encoded_slash (path_of t)" "CHR 0x5C \<notin> set t"
    "\<forall>x \<in> set (pieces (CHR ''/'') (path_of t)). dot_segment x = None"
    by (auto simp: validate_target_None bad_target_byte_None)
  have "\<not> bad_escape (path_of t)"
    using v(1) bad_escape_prefix [of "path_of t" ?q] path_of_append [of t] hd_dropWhile [of "\<lambda>c. c \<noteq> CHR ''?''" t] by auto
  then have p: "pieces (CHR ''/'') (percent_decode (path_of t)) = map percent_decode (pieces (CHR ''/'') (path_of t))"
    using v(2) by (rule decode_pieces)
  have "set (path_of t) \<subseteq> set t" by (auto simp: path_of_def dest: set_takeWhileD)
  then have "CHR 0x5C \<notin> set (percent_decode (path_of t))" using v(2,3) by (intro decode_no_backslash) auto
  then have "\<forall>x \<in> set (pieces (CHR ''/'') (percent_decode (path_of t))). CHR 0x5C \<notin> set x"
    using in_pieces_subset by blast
  moreover have "\<forall>x \<in> set (pieces (CHR ''/'') (percent_decode (path_of t))). x \<notin> {''.'', ''..''}"
    using v(4) by (auto simp: p dot_segment_def split: if_splits)
  ultimately show ?thesis using p by auto
qed

section \<open>Headers\<close>

definition named :: "string \<Rightarrow> header_view \<Rightarrow> bool" where
  "named name hdr \<longleftrightarrow> lowered (hname hdr) = name"

definition nominated :: "header_view list \<Rightarrow> string set" where
  "nominated hs = {lowered (trim x) | x hdr. hdr \<in> set hs \<and> named ''connection'' hdr \<and> x \<in> set (pieces (CHR '','') (hvalue hdr))}"

definition clean_header :: "header_view \<Rightarrow> bool" where
  "clean_header hdr \<longleftrightarrow> hname hdr \<noteq> '''' \<and> list_all token_char (hname hdr)
     \<and> list_all (\<lambda>ch. ch = CHR 0x09 \<or> (0x20 \<le> (of_char ch :: nat) \<and> (of_char ch :: nat) \<le> 0x7e)) (hvalue hdr)"

lemma connection_tokens_Inr:
  "connection_tokens index s acc = Inr tokens \<Longrightarrow> tokens = acc @ map (\<lambda>x. lowered (trim x)) (pieces (CHR '','') s)"
proof (induction index s acc rule: connection_tokens.induct)
  case (1 index s acc)
  let ?item = "takeWhile (\<lambda>c. c \<noteq> CHR '','') s"
  have ok: "connection_token index ?item = None"
    using 1(2) by (subst (asm) connection_tokens.simps) (simp add: Let_def split: option.splits)
  show ?case
  proof (cases "dropWhile (\<lambda>c. c \<noteq> CHR '','') s")
    case Nil
    have "connection_tokens index s acc = Inr (acc @ [lowered (trim ?item)])"
      by (subst connection_tokens.simps) (simp only: Let_def ok Nil option.case list.case)
    with 1(2) show ?thesis by (subst pieces_unfold) (simp add: Nil)
  next
    case (Cons x rest)
    have "connection_tokens index s acc = connection_tokens index rest (acc @ [lowered (trim ?item)])"
      by (subst connection_tokens.simps) (simp only: Let_def ok Cons option.case list.case)
    with 1(2) 1(1) [OF refl ok Cons] show ?thesis by (subst pieces_unfold) (simp add: Cons)
  qed
qed

lemma collect_header_Inr:
  assumes "collect_header index hdr c = Inr c'"
  shows "clean_header hdr" "lowered_names c' = lowered_names c @ [lowered (hname hdr)]"
    "set (connection_nominated c') = set (connection_nominated c) \<union> nominated [hdr]"
    "named ''host'' hdr \<Longrightarrow> host_index c = None \<and> host_index c' = Some index"
    "\<not> named ''host'' hdr \<Longrightarrow> host_index c' = host_index c"
    "named ''capsid-app'' hdr \<Longrightarrow> capsid_app_count c' = Suc (capsid_app_count c)
       \<and> capsid_app_index c' = (if capsid_app_index c = None then Some index else capsid_app_index c)"
    "\<not> named ''capsid-app'' hdr \<Longrightarrow> capsid_app_count c' = capsid_app_count c \<and> capsid_app_index c' = capsid_app_index c"
  using assms
  by (auto simp: collect_header_def clean_header_def nominated_def named_def Let_def map_sum_def dest!: connection_tokens_Inr
      split: if_splits sum.splits)
lemma collect_headers_Inr:
  assumes "collect_headers index hs c = Inr c'"
  shows "(\<forall>hdr \<in> set hs. clean_header hdr) \<and> lowered_names c' = lowered_names c @ map (\<lambda>hdr. lowered (hname hdr)) hs
    \<and> set (connection_nominated c') = set (connection_nominated c) \<union> nominated hs"
  using assms
proof (induction hs arbitrary: index c)
  case (Cons hdr hs)
  then obtain d where d: "collect_header index hdr c = Inr d" "collect_headers (index + 1) hs d = Inr c'"
    by (auto split: sum.splits)
  have "nominated (hdr # hs) = nominated [hdr] \<union> nominated hs" by (auto simp: nominated_def)
  with Cons.IH [OF d(2)] collect_header_Inr [OF d(1)] show ?case by auto
qed (simp add: nominated_def)

lemma collect_host_index:
  assumes "collect_headers index hs c = Inr c'"
  shows "case host_index c of
      Some k \<Rightarrow> host_index c' = Some k \<and> filter (named ''host'') hs = []
    | None \<Rightarrow> (host_index c' = None \<and> filter (named ''host'') hs = [])
        \<or> (\<exists>k < length hs. host_index c' = Some (index + k) \<and> filter (named ''host'') hs = [hs ! k])"
  using assms
proof (induction hs arbitrary: index c)
  case (Cons hdr hs)
  then obtain d where d: "collect_header index hdr c = Inr d" "collect_headers (index + 1) hs d = Inr c'"
    by (auto split: sum.splits)
  note h = collect_header_Inr(4,5) [OF d(1)] and IH = Cons.IH [OF d(2)]
  show ?case
  proof (cases "named ''host'' hdr")
    case True
    with h(1) IH show ?thesis by (auto intro!: exI [of _ 0])
  next
    case False
    with h(2) IH show ?thesis
      by (auto split: option.splits intro: exI [of _ "Suc _"])
  qed
qed (simp split: option.splits)

lemma collect_app_index:
  assumes "collect_headers index hs c = Inr c'"
  shows "capsid_app_count c' = capsid_app_count c + length (filter (named ''capsid-app'') hs)
    \<and> (case capsid_app_index c of
        Some k \<Rightarrow> capsid_app_index c' = Some k
      | None \<Rightarrow> filter (named ''capsid-app'') hs \<noteq> [] \<longrightarrow>
          (\<exists>k < length hs. capsid_app_index c' = Some (index + k) \<and> hs ! k = hd (filter (named ''capsid-app'') hs)))"
  using assms
proof (induction hs arbitrary: index c)
  case (Cons hdr hs)
  then obtain d where d: "collect_header index hdr c = Inr d" "collect_headers (index + 1) hs d = Inr c'"
    by (auto split: sum.splits)
  note h = collect_header_Inr(6,7) [OF d(1)] and IH = Cons.IH [OF d(2)]
  show ?case
  proof (cases "named ''capsid-app'' hdr")
    case True
    with h(1) IH show ?thesis by (auto split: option.splits if_splits intro!: exI [of _ 0])
  next
    case False
    with h(2) IH show ?thesis by (auto split: option.splits intro: exI [of _ "Suc _"])
  qed
qed (simp split: option.splits)
section \<open>The whole function\<close>

abbreviation (input) nothing_collected :: collected where
  "nothing_collected \<equiv> \<lparr>lowered_names = [], host_index = None, capsid_app_index = None, capsid_app_count = 0,
     connection_nominated = []\<rparr>"

lemma normalize_Inr:
  assumes "normalize_public_request p t hs = Inr r"
  obtains c k a where "validate_policy p = None" "validate_target t = None" "collect_headers 0 hs nothing_collected = Inr c"
    "host_index c = Some k" "parse_authority (hvalue (hs ! k)) = Some a"
    "route_application p t hs c k a = Inr (req_app r, url r)" "headers r = output_headers hs c"
  using assms
  by (auto simp: normalize_public_request_def split: if_splits option.splits sum.splits)

lemma token_char_lower: "token_char c \<Longrightarrow> token_char (ascii_lower_char c)"
proof (cases "CHR ''A'' \<le> c \<and> c \<le> CHR ''Z''")
  case True
  then have n: "65 \<le> (of_char c :: nat)" "(of_char c :: nat) \<le> 90" by (auto simp: less_eq_char_def)
  then have "(of_char (ascii_lower_char c) :: nat) = of_char c + 32" using True by (simp add: ascii_lower_char_def)
  with n have "ascii_lower (ascii_lower_char c)" by (simp add: ascii_lower_def less_eq_char_def)
  then show ?thesis by (simp add: token_char_def)
qed (auto simp: ascii_lower_char_def)

lemma concat_filter: "concat (map (\<lambda>x. if P x then [] else [f x]) xs) = map f (filter (\<lambda>x. \<not> P x) xs)"
  by (induction xs) auto

lemma output_headers_eq:
  assumes "lowered_names c = map (\<lambda>hdr. lowered (hname hdr)) hs" "set (connection_nominated c) = nominated hs"
  shows "output_headers hs c = map (\<lambda>hdr. hdr\<lparr>hname := lowered (hname hdr)\<rparr>)
    (filter (\<lambda>hdr. \<not> removed (connection_nominated c) (lowered (hname hdr))) hs)"
proof -
  have "zip (map f xs) xs = map (\<lambda>x. (f x, x)) xs" for f :: "header_view \<Rightarrow> string" and xs
    by (induction xs) auto
  then show ?thesis
    by (simp add: output_headers_def assms(1) comp_def concat_filter)
qed

definition end_to_end :: "header_view list \<Rightarrow> header_view \<Rightarrow> bool" where
  "end_to_end hs hdr \<longleftrightarrow> lowered (hname hdr) \<notin> {''host'', ''capsid-app'', ''connection'', ''keep-alive'', ''proxy-connection'', ''te'',
       ''trailer'', ''transfer-encoding'', ''upgrade'', ''forwarded'', ''x-real-ip''}
     \<and> \<not> prefix ''x-forwarded-'' (lowered (hname hdr)) \<and> lowered (hname hdr) \<notin> nominated hs"

text \<open>C27: The header fields a worker sees are exactly the end-to-end fields of the request. They are the
  fields of the request in their order, with names in lower case and values unchanged, without Host,
  Capsid-App, the hop-by-hop fields, every forwarding field (so that no client can forge its origin)
  and every field that some Connection field nominates. Every field that remains has a token as name and a
  value without control bytes, so that no line break can be smuggled to the worker; and the request has exactly one Host field.\<close>

theorem normalized_headers:
  assumes "normalize_public_request p t hs = Inr r"
  shows "headers r = map (\<lambda>hdr. hdr\<lparr>hname := lowered (hname hdr)\<rparr>) (filter (end_to_end hs) hs)
    \<and> (\<forall>hdr \<in> set (headers r). clean_header hdr)
    \<and> (\<exists>k < length hs. filter (named ''host'') hs = [hs ! k] \<and> is_valid_public_authority (hvalue (hs ! k)))"
proof (rule normalize_Inr [OF assms])
  fix c k a assume c: "collect_headers 0 hs nothing_collected = Inr c" "host_index c = Some k"
    "parse_authority (hvalue (hs ! k)) = Some a" "headers r = output_headers hs c"
  note col = collect_headers_Inr [OF c(1), simplified]
  have "(\<not> removed (connection_nominated c) (lowered (hname hdr))) = end_to_end hs hdr" for hdr
    using col by (auto simp: removed_def end_to_end_def is_hop_by_hop_def is_forwarding_def)
  then have h: "headers r = map (\<lambda>hdr. hdr\<lparr>hname := lowered (hname hdr)\<rparr>) (filter (end_to_end hs) hs)"
    using output_headers_eq [of c hs] col by (simp add: c(4))
  moreover have "\<forall>hdr \<in> set (headers r). clean_header hdr"
    using col by (auto simp: h clean_header_def list_all_iff token_char_lower)
  moreover have "\<exists>k < length hs. filter (named ''host'') hs = [hs ! k] \<and> is_valid_public_authority (hvalue (hs ! k))"
    using collect_host_index [OF c(1)] c(2,3) by (auto simp: is_valid_public_authority_def)
  ultimately show ?thesis by blast
qed

section \<open>Authorities\<close>

declare to_string.simps [simp del]

lemma digit_char: "n < 10 \<Longrightarrow> ascii_digit (char_of (n + 48 :: nat))" "n < 10 \<Longrightarrow> of_char (char_of (n + 48 :: nat)) = (of_nat (n + 48) :: u32)"
proof -
  assume n: "n < 10"
  then have e: "(of_char (char_of (n + 48)) :: nat) = n + 48" by (simp add: of_char_of)
  with n show "ascii_digit (char_of (n + 48))" by (simp add: ascii_digit_def less_eq_char_def)
  have "(of_char (char_of (n + 48)) :: u32) = of_nat (of_char (char_of (n + 48)) :: nat)" by (rule of_nat_of_char [symmetric])
  then show "of_char (char_of (n + 48)) = (of_nat (n + 48) :: u32)" by (simp only: e)
qed

lemma to_string_digits: "list_all ascii_digit (to_string n)"
  by (induction n rule: to_string.induct) (subst to_string.simps, auto simp: digit_char)

lemma to_string_not_Nil: "to_string n \<noteq> []"
  by (subst to_string.simps) simp

lemma length_to_string: "n < 10 ^ Suc k \<Longrightarrow> length (to_string n) \<le> Suc k"
proof (induction k arbitrary: n)
  case 0
  then show ?case by (subst to_string.simps) simp
next
  case (Suc k)
  have "n div 10 < 10 ^ Suc k" using Suc.prems by (simp add: less_mult_imp_div_less)
  from Suc.IH [OF this] show ?case by (subst to_string.simps) simp
qed

lemma parse_port_append: "parse_port (xs @ ys) v = Option.bind (parse_port xs v) (parse_port ys)"
  by (induction xs arbitrary: v) auto

lemma parse_port_to_string: "parse_port (to_string n) 0 = Some (of_nat n)"
proof (induction n rule: to_string.induct)
  case (1 n)
  show ?case
  proof (cases "n < 10")
    case True
    then show ?thesis by (subst to_string.simps) (simp add: digit_char)
  next
    case False
    have "(of_nat (n div 10) * 10 + of_nat (n mod 10) :: u32) = of_nat (n div 10 * 10 + n mod 10)"
      by (simp only: of_nat_add of_nat_mult of_nat_numeral)
    also have "\<dots> = of_nat n" by (simp only: div_mult_mod_eq)
    finally have "(of_nat (n div 10) * 10 + of_nat (n mod 10) :: u32) = of_nat n" .
    then show ?thesis
      using False 1 by (subst to_string.simps) (simp add: parse_port_append digit_char)
  qed
qed

definition host_text :: "string \<Rightarrow> bool" where
  "host_text name \<longleftrightarrow> list_all (\<lambda>c. ascii_lower c \<or> ascii_digit c \<or> c = CHR ''-'' \<or> c = CHR ''.'') name"

lemma lowered_host_text: "host_text name \<Longrightarrow> lowered name = name"
  by (auto simp: host_text_def list_all_iff ascii_lower_char_def ascii_lower_def ascii_digit_def less_eq_char_def intro!: map_idI)

lemma host_text_no_colon: "host_text name \<Longrightarrow> CHR '':'' \<notin> set name"
  by (auto simp: host_text_def list_all_iff ascii_lower_def ascii_digit_def less_eq_char_def)

lemma parse_authority_Some:
  "parse_authority v = Some a \<Longrightarrow> host_text (auth_host a) \<and> length (auth_host a) \<le> 253 \<and> valid_labels (auth_host a)
    \<and> auth_host a \<noteq> '''' \<and> auth_port a \<noteq> Some 0"
proof -
  have e: "valid_labels '''' = False" by (simp add: valid_labels_def each_piece.simps valid_label_def)
  have z: "ucast (port :: u32) = (0 :: u16) \<longleftrightarrow> port = 0" if "\<not> 65535 < port" for port
    using that by (auto simp: word_unat_eq_iff word_less_nat_alt unsigned_ucast_eq take_bit_nat_eq_self)
  show "parse_authority v = Some a \<Longrightarrow> ?thesis"
    using e z by (auto simp: parse_authority_def host_text_def Let_def split: if_splits option.splits)
qed

lemma parse_show_authority:
  assumes "parse_authority v = Some a"
  shows "parse_authority (show_authority a) = Some a"
proof -
  note a = parse_authority_Some [OF assms]
  note id = lowered_host_text [OF conjunct1 [OF a]] and nc = host_text_no_colon [OF conjunct1 [OF a]]
  show ?thesis
  proof (cases "auth_port a")
    case None
    have "takeWhile (\<lambda>c. c \<noteq> CHR '':'') (auth_host a) = auth_host a" using nc by (auto simp: takeWhile_eq_all_conv)
    with None a id nc show ?thesis
      by (cases a)
         (simp add: parse_authority_def show_authority_def host_text_def Let_def takeWhile_eq_all_conv [THEN iffD2])
  next
    case (Some port)
    let ?ps = "to_string (unat port)"
    have u: "unat port < 65536" using unsigned_less [where ?'a = nat and w = port] by simp
    have len: "length ?ps \<le> 5" using length_to_string [of "unat port" 4] u by simp
    have v: "parse_port ?ps 0 = Some (ucast port)" by (simp add: parse_port_to_string)
    have t: "takeWhile (\<lambda>c. c \<noteq> CHR '':'') (auth_host a @ CHR '':'' # ?ps) = auth_host a"
      "dropWhile (\<lambda>c. c \<noteq> CHR '':'') (auth_host a @ CHR '':'' # ?ps) = CHR '':'' # ?ps"
      using nc by (auto simp: takeWhile_append dropWhile_append)
    have p: "(ucast port :: u32) \<noteq> 0" "\<not> 65535 < (ucast port :: u32)" "ucast (ucast port :: u32) = port"
      using a Some u by (auto simp: word_unat_eq_iff word_less_nat_alt unsigned_ucast_eq take_bit_nat_eq_self take_bit_word_eq_self)
    show ?thesis
      using a id len v t p Some to_string_not_Nil [of "unat port"]
      by (cases a) (simp add: parse_authority_def show_authority_def host_text_def Let_def)
  qed
qed

lemma authority_text:
  assumes "parse_authority v = Some a"
  shows "set (show_authority a) \<inter> {CHR ''/'', CHR ''?'', CHR ''@'', CHR 0x5C} = {}"
proof -
  have "c \<notin> {CHR ''/'', CHR ''?'', CHR ''@'', CHR 0x5C}" if "ascii_lower c \<or> ascii_digit c \<or> c = CHR ''-'' \<or> c = CHR ''.'' \<or> c = CHR '':''" for c
    using that by (auto simp: ascii_lower_def ascii_digit_def less_eq_char_def)
  moreover have "\<forall>c \<in> set (show_authority a). ascii_lower c \<or> ascii_digit c \<or> c = CHR ''-'' \<or> c = CHR ''.'' \<or> c = CHR '':''"
    using parse_authority_Some [OF assms] to_string_digits
    by (auto simp: show_authority_def host_text_def list_all_iff split: option.splits)
  ultimately show ?thesis by blast
qed

section \<open>The WebSocket handshake\<close>

lemma name_iequals_eq: "name_iequals name lower \<longleftrightarrow> lowered name = lower"
  by (auto simp: name_iequals_def list_all2_conv_all_nth list_eq_iff_nth_eq)

lemma header_equals_token_eq: "header_equals_token v token \<longleftrightarrow> lowered v = lowered token"
  by (auto simp: header_equals_token_def list_all2_conv_all_nth list_eq_iff_nth_eq)

definition olist :: "'a option \<Rightarrow> 'a list" where
  "olist x = (case x of None \<Rightarrow> [] | Some v \<Rightarrow> [v])"

lemma olist_simps [simp]: "olist None = []" "olist (Some v) = [v]" "olist x = [] \<longleftrightarrow> x = None" "olist x = [v] \<longleftrightarrow> x = Some v"
  by (auto simp: olist_def split: option.splits)

lemma iequals_named: "name_iequals (hname hdr) lower \<longleftrightarrow> named lower hdr"
  by (simp add: name_iequals_eq named_def)

lemma named_eq: "named a hdr \<Longrightarrow> named b hdr \<longleftrightarrow> a = b"
  by (auto simp: named_def)

lemma handshake_name_cases:
  obtains (connection) "named ''connection'' hdr" "\<not> named ''upgrade'' hdr" "\<not> named ''sec-websocket-key'' hdr"
      "\<not> named ''sec-websocket-version'' hdr"
    | (upgrade) "\<not> named ''connection'' hdr" "named ''upgrade'' hdr" "\<not> named ''sec-websocket-key'' hdr"
      "\<not> named ''sec-websocket-version'' hdr"
    | (key) "\<not> named ''connection'' hdr" "\<not> named ''upgrade'' hdr" "named ''sec-websocket-key'' hdr"
      "\<not> named ''sec-websocket-version'' hdr"
    | (version) "\<not> named ''connection'' hdr" "\<not> named ''upgrade'' hdr" "\<not> named ''sec-websocket-key'' hdr"
      "named ''sec-websocket-version'' hdr"
    | (other) "\<not> named ''connection'' hdr" "\<not> named ''upgrade'' hdr" "\<not> named ''sec-websocket-key'' hdr"
      "\<not> named ''sec-websocket-version'' hdr"
  unfolding named_def by (cases "lowered (hname hdr) \<in> {''connection'', ''upgrade'', ''sec-websocket-key'', ''sec-websocket-version''}") auto

lemma upgrade_scan_Inr:
  "upgrade_scan views f = Inr g \<Longrightarrow>
     olist (connection_field g) = olist (connection_field f) @ filter (named ''connection'') views
   \<and> olist (upgrade_field g) = olist (upgrade_field f) @ filter (named ''upgrade'') views
   \<and> olist (key_field g) = olist (key_field f) @ filter (named ''sec-websocket-key'') views
   \<and> olist (version_field g) = olist (version_field f) @ filter (named ''sec-websocket-version'') views"
proof (induction views arbitrary: f)
  case (Cons view views)
  show ?case
    by (cases view rule: handshake_name_cases) (use Cons in \<open>simp_all add: iequals_named split: if_splits\<close>)
qed simp

lemma upgrade_scan_total:
  assumes "length (olist (connection_field f) @ filter (named ''connection'') views) \<le> 1"
    "length (olist (upgrade_field f) @ filter (named ''upgrade'') views) \<le> 1"
    "length (olist (key_field f) @ filter (named ''sec-websocket-key'') views) \<le> 1"
    "length (olist (version_field f) @ filter (named ''sec-websocket-version'') views) \<le> 1"
  shows "\<exists>g. upgrade_scan views f = Inr g"
  using assms
proof (induction views arbitrary: f)
  case (Cons view views)
  show ?case
    by (cases view rule: handshake_name_cases) (use Cons in \<open>auto simp: iequals_named\<close>)
qed simp

lemma upgrade_scan_Inl: "upgrade_scan views f = Inl x \<Longrightarrow> x \<noteq> kValid"
  by (induction views arbitrary: f) (auto simp: iequals_named split: if_splits)

lemma has_token_iff:
  "header_value_has_token v token \<longleftrightarrow> lowered token \<in> (\<lambda>x. lowered (trim x)) ` set (pieces (CHR '','') v)"
proof -
  have "length (trim item) = length token \<and> lowered (trim item) = lowered token \<longleftrightarrow> lowered token = lowered (trim item)" for item
    by (metis length_map)
  then show ?thesis
    by (auto simp: header_value_has_token_def each_piece_None split: if_splits)
qed

lemma lowered_13: "lowered v = ''13'' \<longleftrightarrow> v = ''13''"
proof -
  have "ascii_lower_char c = d \<longleftrightarrow> c = d" if "ascii_digit d" for c d
  proof (cases "CHR ''A'' \<le> c \<and> c \<le> CHR ''Z''")
    case True
    then have n: "65 \<le> (of_char c :: nat)" "(of_char c :: nat) \<le> 90" by (auto simp: less_eq_char_def)
    then have "(of_char (ascii_lower_char c) :: nat) = of_char c + 32" using True by (simp add: ascii_lower_char_def)
    with n that show ?thesis by (auto simp: ascii_digit_def less_eq_char_def)
  qed (auto simp: ascii_lower_char_def)
  from this [of "CHR ''1''"] this [of "CHR ''3''"] show ?thesis
    by (auto simp: map_eq_Cons_conv ascii_digit_def)
qed

abbreviation (input) no_fields :: upgrade_fields where
  "no_fields \<equiv> \<lparr>connection_field = None, upgrade_field = None, key_field = None, version_field = None\<rparr>"

lemma lowered_tokens: "lowered ''upgrade'' = ''upgrade''" "lowered ''websocket'' = ''websocket''" "lowered ''13'' = ''13''"
  by code_simp+

lemma token_iffs:
  "header_value_has_token v ''upgrade'' \<longleftrightarrow> ''upgrade'' \<in> (\<lambda>x. lowered (trim x)) ` set (pieces (CHR '','') v)"
  "header_equals_token v ''websocket'' \<longleftrightarrow> lowered v = ''websocket''" "header_equals_token v ''13'' \<longleftrightarrow> v = ''13''"
  by (simp_all only: has_token_iff header_equals_token_eq lowered_tokens lowered_13)

lemma check_websocket_valid:
  "check_websocket_upgrade views = kValid \<longleftrightarrow>
     (\<exists>g c u k v. upgrade_scan views no_fields = Inr g \<and> connection_field g = Some c \<and> upgrade_field g = Some u
        \<and> key_field g = Some k \<and> version_field g = Some v \<and> header_value_has_token (hvalue c) ''upgrade''
        \<and> header_equals_token (hvalue u) ''websocket'' \<and> header_equals_token (hvalue v) ''13'' \<and> validate_client_key (hvalue k))"
  by (cases "upgrade_scan views no_fields")
     (auto simp: check_websocket_upgrade_def upgrade_scan_Inl split: option.splits)

text \<open>C28: A WebSocket handshake is accepted exactly when the request carries one Connection, one Upgrade,
  one Sec-WebSocket-Key and one Sec-WebSocket-Version field, whatever the case of their names, with an
  \<open>upgrade\<close> token, the value \<open>websocket\<close>, a well-formed key and version 13. A request that repeats one of
  the four fields is never upgraded.\<close>

theorem upgrade_is_exact:
  "check_websocket_upgrade views = kValid \<longleftrightarrow>
     (\<exists>c u k v. filter (named ''connection'') views = [c] \<and> filter (named ''upgrade'') views = [u]
        \<and> filter (named ''sec-websocket-key'') views = [k] \<and> filter (named ''sec-websocket-version'') views = [v]
        \<and> ''upgrade'' \<in> (\<lambda>x. lowered (trim x)) ` set (pieces (CHR '','') (hvalue c))
        \<and> lowered (hvalue u) = ''websocket'' \<and> validate_client_key (hvalue k) \<and> hvalue v = ''13'')"
    (is "_ \<longleftrightarrow> ?fields")
proof
  assume "check_websocket_upgrade views = kValid"
  then obtain g c u k v where g: "upgrade_scan views no_fields = Inr g" "connection_field g = Some c" "upgrade_field g = Some u"
    "key_field g = Some k" "version_field g = Some v" "header_value_has_token (hvalue c) ''upgrade''"
    "header_equals_token (hvalue u) ''websocket''" "header_equals_token (hvalue v) ''13''" "validate_client_key (hvalue k)"
    unfolding check_websocket_valid by blast
  have "filter (named ''connection'') views = [c]" "filter (named ''upgrade'') views = [u]"
    "filter (named ''sec-websocket-key'') views = [k]" "filter (named ''sec-websocket-version'') views = [v]"
    using upgrade_scan_Inr [OF g(1)] g(2-5) by simp_all
  with g(6-9) show ?fields
    unfolding token_iffs by (intro exI [of _ c] exI [of _ u] exI [of _ k] exI [of _ v] conjI)
next
  assume ?fields
  then show "check_websocket_upgrade views = kValid"
  proof (elim exE conjE)
    fix c u k v assume f: "filter (named ''connection'') views = [c]" "filter (named ''upgrade'') views = [u]"
      "filter (named ''sec-websocket-key'') views = [k]" "filter (named ''sec-websocket-version'') views = [v]"
      "''upgrade'' \<in> (\<lambda>x. lowered (trim x)) ` set (pieces (CHR '','') (hvalue c))"
      "lowered (hvalue u) = ''websocket''" "validate_client_key (hvalue k)" "hvalue v = ''13''"
    obtain g where g: "upgrade_scan views no_fields = Inr g" using upgrade_scan_total [of no_fields views] f by auto
    have "connection_field g = Some c" "upgrade_field g = Some u" "key_field g = Some k" "version_field g = Some v"
      using upgrade_scan_Inr [OF g] f(1-4) by simp_all
    with g f(5-8) show "check_websocket_upgrade views = kValid"
      unfolding check_websocket_valid token_iffs
      by (intro exI [of _ g] exI [of _ c] exI [of _ u] exI [of _ k] exI [of _ v] conjI)
  qed
qed

section \<open>The routed URL\<close>

definition routed_by :: "routing_policy \<Rightarrow> string \<Rightarrow> header_view list \<Rightarrow> string \<Rightarrow> string \<Rightarrow> string \<Rightarrow> bool" where
  "routed_by p t hs app origin t' \<longleftrightarrow>
     (case mode p of
        kSubdomain \<Rightarrow> t' = t \<and> (\<exists>hdr a. filter (named ''host'') hs = [hdr] \<and> parse_authority (hvalue hdr) = Some a
          \<and> auth_host a = app @ lowered (subdomain_suffix p) \<and> CHR ''.'' \<notin> set app \<and> origin = show_authority a)
      | kPath \<Rightarrow> (\<exists>rest. t = ''/@capsid/'' @ app @ rest \<and> t' = rewritten_target rest)
          \<and> parse_authority (public_authority p) \<noteq> None \<and> origin = show_authority (the (parse_authority (public_authority p)))
      | kHeader \<Rightarrow> t' = t \<and> trusted_header_routing p \<and> (\<exists>hdr. filter (named ''capsid-app'') hs = [hdr] \<and> hvalue hdr = app)
          \<and> parse_authority (public_authority p) \<noteq> None \<and> origin = show_authority (the (parse_authority (public_authority p))))"

lemma route_path_Inr:
  assumes "route_path p t origin = Inr (app, u)" "validate_target t = None"
  obtains rest where "t = ''/@capsid/'' @ app @ rest" "u = public_scheme p @ ''://'' @ origin @ rewritten_target rest"
    "valid_application_id app" "validate_target (rewritten_target rest) = None"
proof -
  let ?sep = "\<lambda>c. c \<noteq> CHR ''/'' \<and> c \<noteq> CHR ''?''" let ?n = "length ''/@capsid/''" let ?after = "drop ?n t"
  let ?rest = "dropWhile ?sep ?after"
  have pre: "take ?n t = ''/@capsid/''" and app: "app = takeWhile ?sep ?after" "valid_application_id app"
    and u: "u = public_scheme p @ ''://'' @ origin @ rewritten_target ?rest"
    using assms(1) by (auto simp: route_path_def Let_def split: if_splits)
  have "t = take ?n t @ takeWhile ?sep ?after @ ?rest" by (simp only: takeWhile_dropWhile_id append_take_drop_id)
  then have t: "t = ''/@capsid/'' @ app @ ?rest" unfolding pre app(1) .
  have "CHR ''?'' \<notin> set (''/@capsid/'' @ app)" using app by (auto dest: set_takeWhileD)
  moreover have "?rest = [] \<or> hd ?rest = CHR ''/'' \<or> hd ?rest = CHR ''?''" using hd_dropWhile [of ?sep ?after] by auto
  moreover have "validate_target ((''/@capsid/'' @ app) @ ?rest) = None"
    unfolding append_assoc t [symmetric] by (rule assms(2))
  ultimately have "validate_target (rewritten_target ?rest) = None"
    by (intro rewritten_target_valid [of "''/@capsid/'' @ app" ?rest]) simp_all
  with that t u app(2) show thesis by blast
qed

lemma route_subdomain_Inr:
  assumes "route_subdomain p t k a = Inr (app, u)" "validate_policy p = None" "mode p = kSubdomain"
  shows "auth_host a = app @ lowered (subdomain_suffix p)" "u = public_scheme p @ ''://'' @ show_authority a @ t"
    "valid_application_id app" "CHR ''.'' \<notin> set app"
proof -
  let ?s = "subdomain_suffix p" let ?n = "length (auth_host a) - length (tl (lowered ?s))"
  obtain s where s: "?s = CHR ''.'' # s" using assms(2,3) by (cases ?s) (auto simp: validate_policy_def split: if_splits)
  have dot: "ascii_lower_char (CHR ''.'') = CHR ''.''" by code_simp
  have h: "length (lowered s) < length (auth_host a)" "drop ?n (auth_host a) = lowered s"
    "auth_host a ! (?n - 1) = CHR ''.''" and app: "app = take (?n - 1) (auth_host a)" "valid_application_id app" "CHR ''.'' \<notin> set app"
    and u: "u = public_scheme p @ ''://'' @ app @ lowered ?s
       @ (case auth_port a of Some port \<Rightarrow> '':'' @ to_string (unat port) | None \<Rightarrow> '''') @ t"
    using assms(1) s dot by (auto simp: route_subdomain_def Let_def split: if_splits)
  have "auth_host a = take (?n - 1) (auth_host a) @ auth_host a ! (?n - 1) # drop (Suc (?n - 1)) (auth_host a)"
    using h(1) s by (intro id_take_nth_drop) simp
  also have "\<dots> = app @ lowered ?s" using h s app dot by (simp add: Suc_diff_Suc)
  finally show a: "auth_host a = app @ lowered ?s" .
  show "u = public_scheme p @ ''://'' @ show_authority a @ t" using u a by (simp add: show_authority_def split: option.splits)
  show "valid_application_id app" "CHR ''.'' \<notin> set app" by fact+
qed


text \<open>C29: The authority grammar has a normal form: printing what the parser read, in lower case and
  with the port in plain decimal, gives a text that the parser reads as the same host and port.\<close>

theorem authority_normal_form:
  "parse_authority v = Some a \<Longrightarrow> parse_authority (show_authority a) = Some a \<and> host_text (auth_host a)"
  using parse_show_authority parse_authority_Some by blast

definition sample_listener :: routing_policy where
  "sample_listener = \<lparr>mode = kPath, public_scheme = ''https'', subdomain_suffix = '''', public_authority = ''Example.com:08443'',
     trusted_header_routing = False\<rparr>"

definition sample_headers :: "header_view list" where
  "sample_headers = [\<lparr>hname = ''Host'', hvalue = ''evil.test''\<rparr>, \<lparr>hname = ''X-Forwarded-For'', hvalue = ''10.0.0.1''\<rparr>,
     \<lparr>hname = ''Connection'', hvalue = ''close, X-Secret''\<rparr>, \<lparr>hname = ''X-Secret'', hvalue = ''1''\<rparr>, \<lparr>hname = ''Accept'', hvalue = ''*/*''\<rparr>]"

definition sample_normal :: normalized_request where
  "sample_normal = \<lparr>req_app = ''shop'', url = ''https://example.com:8443/cart?x=1'', headers = [\<lparr>hname = ''accept'', hvalue = ''*/*''\<rparr>]\<rparr>"

lemma sample_normalized: "normalize_public_request sample_listener ''/@capsid/shop/cart?x=1'' sample_headers = Inr sample_normal"
proof -
  let ?t = "''/@capsid/shop/cart?x=1''"
  let ?c = "\<lparr>lowered_names = [''host'', ''x-forwarded-for'', ''connection'', ''x-secret'', ''accept''], host_index = Some 0,
    capsid_app_index = None, capsid_app_count = 0, connection_nominated = [''close'', ''x-secret'']\<rparr>"
  have p: "validate_policy sample_listener = None" by code_simp
  have "\<not> bad_escape ?t \<and> bad_target_byte ?t = None \<and> \<not> encoded_slash (path_of ?t)
     \<and> list_all (\<lambda>x. dot_segment x = None) (pieces (CHR ''/'') (path_of ?t))" by code_simp
  then have t: "validate_target ?t = None" by (simp add: validate_target_None list_all_iff)
  have c: "collect_headers 0 sample_headers nothing_collected = Inr ?c" by code_simp
  have h: "parse_authority (hvalue (sample_headers ! 0)) = Some \<lparr>auth_host = ''evil.test'', auth_port = None\<rparr>" by code_simp
  have r: "route_application sample_listener ?t sample_headers ?c 0 \<lparr>auth_host = ''evil.test'', auth_port = None\<rparr>
     = Inr (''shop'', ''https://example.com:8443/cart?x=1'')"
  proof -
    have a: "parse_authority (public_authority sample_listener) = Some \<lparr>auth_host = ''example.com'', auth_port = Some 8443\<rparr>"
      by code_simp
    have s: "show_authority \<lparr>auth_host = ''example.com'', auth_port = Some 8443\<rparr> = ''example.com:8443''"
      by (simp add: show_authority_def to_string.simps) code_simp
    have m: "mode sample_listener = kPath" by (simp add: sample_listener_def)
    have "route_path sample_listener ?t ''example.com:8443'' = Inr (''shop'', ''https://example.com:8443/cart?x=1'')" by code_simp
    with a s m show ?thesis by (simp add: route_application_def)
  qed
  have o: "output_headers sample_headers ?c = headers sample_normal" by code_simp
  have l: "length sample_headers \<le> 128" "sum_list (map (\<lambda>hdr. length (hname hdr) + length (hvalue hdr)) sample_headers) \<le> 65536"
    by (simp_all add: sample_headers_def)
  show ?thesis
    using l by (simp add: normalize_public_request_def p t c h r o) (simp add: sample_normal_def)
qed

theorem normalized_headers_witness:
  "headers sample_normal = map (\<lambda>hdr. hdr\<lparr>hname := lowered (hname hdr)\<rparr>) (filter (end_to_end sample_headers) sample_headers)"
  using normalized_headers [OF sample_normalized] by blast


theorem authority_normal_form_witness:
  "parse_authority (show_authority \<lparr>auth_host = ''example.com'', auth_port = Some 8443\<rparr>)
     = Some \<lparr>auth_host = ''example.com'', auth_port = Some 8443\<rparr>"
proof -
  have "parse_authority ''Example.com:08443'' = Some \<lparr>auth_host = ''example.com'', auth_port = Some 8443\<rparr>" by code_simp
  from authority_normal_form [OF this] show ?thesis by blast
qed

end
