(* ===== verification/Generation_Pool.thy ===== *)
theory Generation_Pool
  imports Worker_Recovery
begin

text \<open>
  The pool of workers of one generation (\<open>src/host/generation_pool.cc\<close>): its slots, the replacements of
  crashed and unhealthy workers, quarantine and drain. Each definition is one critical section of the
  pool mutex, or the part of one that the source names; the interleaving of the pump, the spawn threads,
  the listener and the supervisor is a step relation over them.

  Executors are identified by numbers and their worker threads belong to the environment: whether one has
  exited and how loaded it is are arguments. The calls the pool makes on executors and observers
  (\<open>request_shutdown\<close>, \<open>on_worker_started\<close>, \<open>on_quarantine\<close>, ...) are kept in order in \<open>calls\<close>. Logs and
  metrics have no counterpart, and the clock is read once where the source reads it several times in a row. A slot index out of range is undefined behaviour in C++ and \<open>None\<close> here.
\<close>

section \<open>Types\<close>

type_synonym executor = nat

abbreviation (input) kNoDue :: u64 where "kNoDue \<equiv> 0"

datatype pool_phase = kPrepared | kActive | kDraining | kDead

record pool_options =
  application_id :: string
  pool_version :: string
  generation_digest :: string
  workers :: u32
  pool_recovery :: recovery_policy
  has_factory :: bool

record slot =
  executor :: executor
  ready :: bool
  replacement_in_flight :: bool
  shutdown_issued :: bool
  replacement_reason :: string

datatype pool_call = RequestShutdown executor | StopAndJoin executor | DestroyWorker nat | WorkerStarted executor
  | WorkerExited executor | OnQuarantine | OnDrainComplete

record generation_pool =
  options :: pool_options
  pool_policy :: recovery_policy
  recovery_state :: recovery_state
  pool_lifecycle :: lifecycle
  slots :: "slot list"
  retired :: "executor list"
  replacements_scheduled :: u64
  replacements_in_flight :: u64
  replacement_due_ms :: "u64 list"
  active_flag :: bool
  pool_state :: pool_phase
  stable_since_ms :: u64
  calls :: "pool_call list"

abbreviation (input) call :: "pool_call list \<Rightarrow> generation_pool \<Rightarrow> generation_pool" where
  "call cs p \<equiv> p\<lparr>calls := calls p @ cs\<rparr>"

section \<open>Creation\<close>

definition new_pool :: "pool_options \<Rightarrow> generation_pool" where
  "new_pool opts = \<lparr>options = opts, pool_policy = pool_recovery opts,
     recovery_state = \<lparr>rec_application = application_id opts, rec_generation = generation_digest opts,
       instability_events_ms = [], replacement_attempts_since_stable = 0, last_observed_ms = 0, has_last_observed_time = False\<rparr>,
     pool_lifecycle = \<lparr>phase = phase.kActive, doc = Some (empty_document\<lparr>doc_state := service_state.kActive,
       application := application_id opts, version := pool_version opts, generation := generation_digest opts\<rparr>)\<rparr>,
     slots = [], retired = [], replacements_scheduled = 0, replacements_in_flight = 0, replacement_due_ms = [],
     active_flag = True, pool_state = kPrepared, stable_since_ms = 0, calls = []\<rparr>"

definition bad_recovery_policy :: "recovery_policy \<Rightarrow> bool" where
  "bad_recovery_policy p \<longleftrightarrow> max_events p = 0 \<or> window_ms p = 0 \<or> backoff_initial_ms p = 0
     \<or> backoff_maximum_ms p < backoff_initial_ms p \<or> jitter_basis_points p > 10000 \<or> stable_reset_ms p = 0
     \<or> replacements_concurrent_per_app p = 0"

definition policy_refused :: string where
  "policy_refused = ''invalid recovery policy (mirrors the controller'' @ CHR 0x27 # ''s contract: max_events/window_ms/backoff_initial_ms/''
     @ ''stable_reset_ms/replacements_concurrent_per_app non-zero, backoff_maximum_ms >= backoff_initial_ms, jitter_basis_points <= 10000)''"

definition new_slot :: "executor \<Rightarrow> slot" where
  "new_slot e = \<lparr>executor = e, ready = True, replacement_in_flight = False, shutdown_issued = False, replacement_reason = ''''\<rparr>"

text \<open>
  Starting the slots in order; the executor of slot \<open>i\<close> is number \<open>i\<close>, and \<open>start i\<close> says whether its worker became
  READY. The first failure stops the slots started so far.
\<close>

fun start_slots :: "(nat \<Rightarrow> bool) \<Rightarrow> nat \<Rightarrow> nat \<Rightarrow> generation_pool \<Rightarrow> bool \<times> generation_pool" where
  "start_slots start index 0 p = (True, p)"
| "start_slots start index (Suc left) p =
     (if \<not> start index
      then (False, call (map (\<lambda>s. StopAndJoin (executor s)) (slots p)) p\<lparr>pool_state := kDead\<rparr>)
      else start_slots start (index + 1) left
             (call [WorkerStarted index] (p\<lparr>slots := slots p @ [new_slot index]\<rparr>)))"

definition activate_pool :: "u64 \<Rightarrow> generation_pool \<Rightarrow> generation_pool" where
  "activate_pool now p = p\<lparr>replacement_due_ms := replicate (length (slots p)) kNoDue, pool_state := kActive, stable_since_ms := now\<rparr>"

definition create_pool :: "pool_options \<Rightarrow> (nat \<Rightarrow> bool) \<Rightarrow> u64 \<Rightarrow> string + bool \<times> generation_pool" where
  "create_pool opts start now =
     (if workers opts = 0 then Inl ''generation pool requires at least one worker''
      else if application_id opts = '''' \<or> generation_digest opts = '''' \<or> pool_version opts = ''''
      then Inl ''generation pool identity is incomplete''
      else if bad_recovery_policy (pool_recovery opts) then Inl policy_refused
      else if \<not> has_factory opts then Inl ''generation pool requires a worker factory''
      else case start_slots start 0 (unat (workers opts)) (new_pool opts) of
        (False, p) \<Rightarrow> Inr (False, p)
      | (True, p) \<Rightarrow> Inr (True, activate_pool now p))"

text \<open>
  The pool over workers warmed elsewhere, which it owns from the call on; \<open>adopt i\<close> is the outcome of adopting the
  \<open>i\<close>-th of them. A worker that was not adopted is destroyed, one that was is stopped with its executor.
\<close>

fun adopt_slots :: "(nat \<Rightarrow> bool) \<Rightarrow> nat list \<Rightarrow> nat \<Rightarrow> generation_pool \<Rightarrow> bool \<times> generation_pool" where
  "adopt_slots adopt [] index p = (True, p)"
| "adopt_slots adopt (w # warmed) index p =
     (if \<not> adopt index
      then (False, call ([DestroyWorker w] @ map (\<lambda>s. StopAndJoin (executor s)) (slots p)) p\<lparr>pool_state := kDead\<rparr>)
      else adopt_slots adopt warmed (index + 1)
             (call [WorkerStarted index] (p\<lparr>slots := slots p @ [new_slot index]\<rparr>)))"

definition create_adopted :: "pool_options \<Rightarrow> nat list \<Rightarrow> (nat \<Rightarrow> bool) \<Rightarrow> u64 \<Rightarrow> (string \<times> pool_call list) + bool \<times> generation_pool" where
  "create_adopted opts warmed adopt now =
     (let refuse = (\<lambda>m. Inl (m, map DestroyWorker warmed)) in
      if workers opts = 0 \<or> length warmed \<noteq> unat (workers opts)
      then refuse ''adopted generation pool requires exactly options.workers pre-warmed workers''
      else if application_id opts = '''' \<or> generation_digest opts = '''' \<or> pool_version opts = ''''
      then refuse ''generation pool identity is incomplete''
      else if bad_recovery_policy (pool_recovery opts) then refuse policy_refused
      else if \<not> has_factory opts then refuse ''generation pool requires a worker factory (for replacements)''
      else case adopt_slots adopt warmed 0 (new_pool opts) of
        (False, p) \<Rightarrow> Inr (False, p)
      | (True, p) \<Rightarrow> Inr (True, activate_pool now p))"

section \<open>Drain and scheduling\<close>

definition shut_all :: "generation_pool \<Rightarrow> generation_pool" where
  "shut_all p = call (map (\<lambda>s. RequestShutdown (executor s)) (slots p))
     (p\<lparr>slots := map (\<lambda>s. s\<lparr>shutdown_issued := True\<rparr>) (slots p)\<rparr>)"

definition request_drain :: "generation_pool \<Rightarrow> generation_pool" where
  "request_drain p =
     (if pool_state p = kDraining \<or> pool_state p = kDead then p
      else shut_all (p\<lparr>pool_state := kDraining, active_flag := False, stable_since_ms := 0\<rparr>))"

text \<open>The scan for the least loaded worker: \<open>available e\<close> and \<open>load e\<close> are the executor's state at the time.\<close>

fun pick_scan :: "(executor \<Rightarrow> bool) \<Rightarrow> (executor \<Rightarrow> u64) \<Rightarrow> slot list \<Rightarrow> executor option \<Rightarrow> u64 \<Rightarrow> executor option" where
  "pick_scan available load [] best best_load = best"
| "pick_scan available load (s # ss) best best_load =
     (if \<not> ready s \<or> \<not> available (executor s) then pick_scan available load ss best best_load
      else if load (executor s) < best_load then pick_scan available load ss (Some (executor s)) (load (executor s))
      else pick_scan available load ss best best_load)"

text \<open>The load: requests in flight and the bytes that wait for the client, added in 64 bits.\<close>

definition pick_worker :: "(executor \<Rightarrow> bool) \<Rightarrow> (executor \<Rightarrow> u64) \<Rightarrow> (executor \<Rightarrow> u64) \<Rightarrow> generation_pool \<Rightarrow> executor option" where
  "pick_worker available inflight client_bytes p =
     (if pool_state p \<noteq> kActive then None
      else pick_scan available (\<lambda>e. inflight e + client_bytes e) (slots p) None (- 1))"

definition current_worker :: "(executor \<Rightarrow> bool) \<Rightarrow> generation_pool \<Rightarrow> executor option" where
  "current_worker available p =
     (if pool_state p \<noteq> kActive then None
      else map_option executor (find (\<lambda>s. ready s \<and> available (executor s)) (slots p)))"

definition ready_workers :: "generation_pool \<Rightarrow> u32" where
  "ready_workers p = of_nat (length (filter ready (slots p)))"

definition fleet_exited :: "(executor \<Rightarrow> bool) \<Rightarrow> generation_pool \<Rightarrow> bool" where
  "fleet_exited exited p \<longleftrightarrow> list_all (\<lambda>s. exited (executor s)) (slots p)"

section \<open>Instabilities\<close>

definition begin_quarantine_pool :: "generation_pool \<Rightarrow> generation_pool" where
  "begin_quarantine_pool p =
     (let p = shut_all (call [OnQuarantine] p) in
      if pool_state p = kActive then p\<lparr>pool_state := kDraining, active_flag := False, stable_since_ms := 0\<rparr> else p)"

definition record_instability :: "nat \<Rightarrow> observation \<Rightarrow> string \<Rightarrow> generation_pool \<Rightarrow> generation_pool option" where
  "record_instability i ob why p =
     (let d = record_worker_instability (recovery_state p) (pool_policy p) (pool_lifecycle p) ob in
      if \<not> dec_ok d then Some p
      else let p = p\<lparr>recovery_state := dec_state d\<rparr> in
      if begin_quarantine d then Some (begin_quarantine_pool p)
      else if schedule_replacement d
      then if i < length (slots p)
        then Some (p\<lparr>slots := (slots p)[i := (slots p ! i)\<lparr>replacement_in_flight := True, replacement_reason := why\<rparr>],
                     replacements_scheduled := replacements_scheduled p + 1,
                     replacement_due_ms := (replacement_due_ms p)[i := now_ms ob + replacement_delay d]\<rparr>)
        else None
      else Some p)"

definition pool_observation :: "instability_kind \<Rightarrow> u64 \<Rightarrow> generation_pool \<Rightarrow> observation" where
  "pool_observation k now p = \<lparr>kind = k, worker_generation = generation_digest (options p), now_ms = now,
     ready_workers_after_removal = ready_workers p, target_ready_workers = workers (options p),
     replacements_in_flight_for_app = ucast (replacements_scheduled p), chosen_jitter_basis_points = 0\<rparr>"

text \<open>An unhealthy worker: the slot leaves the READY set before the decision, and is shut down whatever it is.\<close>

definition recycle_worker :: "executor \<Rightarrow> u64 \<Rightarrow> generation_pool \<Rightarrow> (bool \<times> generation_pool) option" where
  "recycle_worker target now p =
     (if pool_state p \<noteq> kActive then Some (False, p)
      else case find (\<lambda>i. executor (slots p ! i) = target \<and> ready (slots p ! i)) [0..<length (slots p)] of
        None \<Rightarrow> Some (False, p)
      | Some i \<Rightarrow>
          let p = p\<lparr>slots := (slots p)[i := (slots p ! i)\<lparr>shutdown_issued := True, ready := False\<rparr>]\<rparr> in
          map_option (\<lambda>p. (True, call [RequestShutdown target] p))
            (record_instability i (pool_observation kHealthRecycle now p) ''unhealthy'' p))"

definition handle_executor_exit :: "nat \<Rightarrow> u64 \<Rightarrow> generation_pool \<Rightarrow> generation_pool option" where
  "handle_executor_exit i now p =
     (if \<not> i < length (slots p) then None
      else if \<not> ready (slots p ! i) then Some p
      else let p = call [WorkerExited (executor (slots p ! i))]
                 (p\<lparr>slots := (slots p)[i := (slots p ! i)\<lparr>ready := False\<rparr>], stable_since_ms := 0\<rparr>) in
      if shutdown_issued (slots p ! i) then Some p
      else record_instability i (pool_observation kUnexpectedExit now p) ''crashed'' p)"

section \<open>Replacements\<close>

text \<open>The bookkeeping of a spawn thread that gives up.\<close>

definition abandon :: "nat \<Rightarrow> generation_pool \<Rightarrow> generation_pool option" where
  "abandon i p =
     (if \<not> i < length (slots p) then None
      else Some (p\<lparr>slots := (slots p)[i := (slots p ! i)\<lparr>replacement_in_flight := False\<rparr>],
             replacements_scheduled := (if replacements_scheduled p > 0 then replacements_scheduled p - 1
                                        else replacements_scheduled p),
             replacements_in_flight := replacements_in_flight p - 1\<rparr>))"

definition replacement_failed :: "nat \<Rightarrow> u64 \<Rightarrow> generation_pool \<Rightarrow> generation_pool option" where
  "replacement_failed i now p = record_instability i (pool_observation kReplacementStartupFailure now p) ''crashed'' p"

text \<open>Dead slots that no replacement covers get one once the replacement in flight is installed.\<close>

definition cover_slot :: "u64 \<Rightarrow> nat \<Rightarrow> generation_pool \<Rightarrow> generation_pool" where
  "cover_slot now i p =
     (if \<not> ready (slots p ! i) \<and> \<not> replacement_in_flight (slots p ! i)
      then p\<lparr>slots := (slots p)[i := (slots p ! i)\<lparr>replacement_in_flight := True\<rparr>],
             replacements_scheduled := replacements_scheduled p + 1,
             replacement_due_ms := (replacement_due_ms p)[i := now]\<rparr>
      else p)"

definition install_replacement :: "nat \<Rightarrow> executor \<Rightarrow> u64 \<Rightarrow> generation_pool \<Rightarrow> generation_pool option" where
  "install_replacement i e now p =
     (if \<not> i < length (slots p) then None
      else let p = p\<lparr>retired := retired p @ [executor (slots p ! i)],
                 slots := (slots p)[i := (slots p ! i)\<lparr>executor := e, ready := True, replacement_in_flight := False,
                                                      replacement_reason := ''''\<rparr>]\<rparr>;
               p = (if pool_state p = kDraining then call [RequestShutdown e] p else p);
               p = p\<lparr>replacements_scheduled := (if replacements_scheduled p > 0 then replacements_scheduled p - 1
                                                else replacements_scheduled p),
                     replacements_in_flight := replacements_in_flight p - 1\<rparr>;
               p = (if ready_workers p = workers (options p) then p\<lparr>stable_since_ms := now\<rparr> else p);
               p = (if pool_state p = kActive then fold (cover_slot now) [0..<length (slots p)] p else p)
           in Some (call [WorkerStarted e] p))"

section \<open>The pump\<close>

text \<open>
  The pump from the head of its loop to its wait: shut the slots of a draining pool down again, reset the backoff
  after a stable period, launch the replacements that are due. The second result is the slots whose spawn thread starts;
  the third tells that the drain is complete and \<open>finalize_drain\<close> comes next.
\<close>

definition drain_sweep :: "(executor \<Rightarrow> bool) \<Rightarrow> generation_pool \<Rightarrow> generation_pool" where
  "drain_sweep exited p =
     call (map (\<lambda>s. RequestShutdown (executor s)) (filter (\<lambda>s. \<not> exited (executor s)) (slots p))) p"

definition observe_stability :: "u64 \<Rightarrow> generation_pool \<Rightarrow> generation_pool" where
  "observe_stability now p =
     (if stable_since_ms p \<noteq> 0 \<and> stable_reset_ms (pool_policy p) \<noteq> 0 \<and> now - stable_since_ms p \<ge> stable_reset_ms (pool_policy p)
      then let r = observe_worker_stability (recovery_state p) (pool_policy p) (stable_since_ms p) now;
               p = (if stab_ok r then p\<lparr>recovery_state := stab_state r\<rparr> else p) in
        p\<lparr>stable_since_ms := 0\<rparr>
      else p)"

definition launch_due :: "u64 \<Rightarrow> nat \<Rightarrow> generation_pool \<times> nat list \<Rightarrow> generation_pool \<times> nat list" where
  "launch_due now i = (\<lambda>(p, launched).
     if replacement_due_ms p ! i \<noteq> kNoDue \<and> replacement_due_ms p ! i \<le> now
     then (p\<lparr>replacement_due_ms := (replacement_due_ms p)[i := kNoDue],
             replacements_in_flight := replacements_in_flight p + 1\<rparr>, launched @ [i])
     else (p, launched))"

definition pump_sweep :: "(executor \<Rightarrow> bool) \<Rightarrow> u64 \<Rightarrow> u64 \<Rightarrow> generation_pool \<Rightarrow> generation_pool \<times> nat list \<times> bool" where
  "pump_sweep exited now now' p =
     (let p = (if pool_state p = kDraining then drain_sweep exited p else p) in
      if pool_state p = kDraining \<and> fleet_exited exited p \<and> replacements_in_flight p = 0 then (p, [], True)
      else let p = observe_stability now p;
               (p, launched) = (if pool_state p = kActive then fold (launch_due now') [0..<length (slots p)] (p, []) else (p, []))
        in (p, launched, False))"

text \<open>The pump after its wait: \<open>has_exit e\<close> tells that the queue of executor \<open>e\<close> holds its \<open>kExit\<close>.\<close>

definition exited_slots :: "(executor \<Rightarrow> bool) \<Rightarrow> generation_pool \<Rightarrow> nat list" where
  "exited_slots has_exit p = filter (\<lambda>i. has_exit (executor (slots p ! i))) [0..<length (slots p)]"

definition pump_events :: "(executor \<Rightarrow> bool) \<Rightarrow> u64 \<Rightarrow> generation_pool \<Rightarrow> generation_pool option" where
  "pump_events has_exit now p =
     fold (\<lambda>i q. Option.bind q (handle_executor_exit i now)) (exited_slots has_exit p) (Some p)"

definition finalize_drain :: "generation_pool \<Rightarrow> generation_pool" where
  "finalize_drain p = call [OnDrainComplete] (p\<lparr>pool_state := kDead, slots := [], retired := []\<rparr>)"

section \<open>Interleavings\<close>

text \<open>
  The pool among its threads: \<open>threads\<close> are the spawn threads by slot, with \<open>True\<close> once the spawn failed and
  its bookkeeping was released but the failure is not recorded yet; \<open>gone\<close> the executors that have exited; \<open>finalizing\<close>
  that the pump has left its loop and not yet taken the mutex in \<open>finalize_drain\<close>.
\<close>

record world =
  pool :: generation_pool
  threads :: "(nat \<times> bool) list"
  next_executor :: executor
  gone :: "executor set"
  finalizing :: bool

inductive gen_step :: "world \<Rightarrow> world \<Rightarrow> bool" where
  drain: "gen_step w (w\<lparr>pool := request_drain (pool w)\<rparr>)"
| exit: "gen_step w (w\<lparr>gone := insert e (gone w)\<rparr>)"
| recycle: "recycle_worker e now (pool w) = Some (b, p) \<Longrightarrow> gen_step w (w\<lparr>pool := p\<rparr>)"
| events: "\<not> finalizing w \<Longrightarrow> pool_state (pool w) \<noteq> kDead \<Longrightarrow> (\<And>e. has_exit e \<Longrightarrow> e \<in> gone w)
    \<Longrightarrow> pump_events has_exit now (pool w) = Some p \<Longrightarrow> gen_step w (w\<lparr>pool := p\<rparr>)"
| sweep: "\<not> finalizing w \<Longrightarrow> pool_state (pool w) \<noteq> kDead \<Longrightarrow> pump_sweep (\<lambda>e. e \<in> gone w) now now' (pool w) = (p, launched, complete)
    \<Longrightarrow> gen_step w (w\<lparr>pool := p, threads := threads w @ map (\<lambda>i. (i, False)) launched, finalizing := complete\<rparr>)"
| finalize: "finalizing w \<Longrightarrow> gen_step w (w\<lparr>pool := finalize_drain (pool w), finalizing := False\<rparr>)"
| give_up: "(i, False) \<in> set (threads w) \<Longrightarrow> abandon i (pool w) = Some p
    \<Longrightarrow> gen_step w (w\<lparr>pool := p, threads := remove1 (i, False) (threads w)\<rparr>)"
| fails: "(i, False) \<in> set (threads w) \<Longrightarrow> abandon i (pool w) = Some p
    \<Longrightarrow> gen_step w (w\<lparr>pool := p, threads := remove1 (i, False) (threads w) @ [(i, True)]\<rparr>)"
| failure_recorded: "(i, True) \<in> set (threads w) \<Longrightarrow> replacement_failed i now (pool w) = Some p
    \<Longrightarrow> gen_step w (w\<lparr>pool := p, threads := remove1 (i, True) (threads w)\<rparr>)"
| install: "(i, False) \<in> set (threads w) \<Longrightarrow> install_replacement i (next_executor w) now (pool w) = Some p
    \<Longrightarrow> gen_step w (w\<lparr>pool := p, threads := remove1 (i, False) (threads w), next_executor := Suc (next_executor w)\<rparr>)"

definition created :: "generation_pool \<Rightarrow> world" where
  "created p = \<lparr>pool = p, threads = [], next_executor = length (slots p), gone = {}, finalizing = False\<rparr>"

inductive pool_reachable :: "pool_options \<Rightarrow> world \<Rightarrow> bool" for opts where
  start: "create_pool opts start now = Inr (True, p) \<Longrightarrow> pool_reachable opts (created p)"
| adopted: "create_adopted opts warmed adopt now = Inr (True, p) \<Longrightarrow> pool_reachable opts (created p)"
| step: "pool_reachable opts w \<Longrightarrow> gen_step w w' \<Longrightarrow> pool_reachable opts w'"

section \<open>Pools just created\<close>

lemma start_slots_True:
  "start_slots start index n p = (True, q) \<Longrightarrow>
     q = p\<lparr>slots := slots p @ map new_slot [index..<index + n], calls := calls p @ map WorkerStarted [index..<index + n]\<rparr>
     \<and> (\<forall>i \<in> {index..<index + n}. start i)"
proof (induction n arbitrary: index p)
  case (Suc n)
  from Suc.prems have s: "start index" by (auto split: if_splits)
  with Suc.prems Suc.IH show ?case by (fastforce simp: upt_conv_Cons not_less_eq_eq)
qed simp

lemma adopt_slots_True:
  "adopt_slots adopt warmed index p = (True, q) \<Longrightarrow>
     q = p\<lparr>slots := slots p @ map new_slot [index..<index + length warmed],
           calls := calls p @ map WorkerStarted [index..<index + length warmed]\<rparr>"
proof (induction warmed arbitrary: index p)
  case (Cons a warmed)
  from Cons.prems have s: "adopt index" by (auto split: if_splits)
  with Cons.prems have "adopt_slots adopt warmed (index + 1)
      (call [WorkerStarted index] (p\<lparr>slots := slots p @ [new_slot index]\<rparr>)) = (True, q)" by simp
  from Cons.IH [OF this] show ?case by (simp add: upt_conv_Cons del: upt_Suc)
qed simp

definition fresh_pool :: "pool_options \<Rightarrow> u64 \<Rightarrow> generation_pool" where
  "fresh_pool opts now = (new_pool opts)\<lparr>slots := map new_slot [0..<unat (workers opts)],
     replacement_due_ms := replicate (unat (workers opts)) 0, pool_state := kActive, stable_since_ms := now,
     calls := map WorkerStarted [0..<unat (workers opts)]\<rparr>"

lemma create_pool_fresh:
  "create_pool opts start now = Inr (True, p) \<Longrightarrow> p = fresh_pool opts now \<and> workers opts \<noteq> 0"
  by (auto simp: create_pool_def activate_pool_def fresh_pool_def new_pool_def dest!: start_slots_True
      split: if_splits prod.splits bool.splits)

lemma create_adopted_fresh:
  "create_adopted opts warmed adopt now = Inr (True, p) \<Longrightarrow> p = fresh_pool opts now \<and> workers opts \<noteq> 0"
  by (auto simp: create_adopted_def activate_pool_def fresh_pool_def new_pool_def Let_def dest!: adopt_slots_True
      split: if_splits prod.splits bool.splits)

section \<open>What the steps keep\<close>

definition spawners :: "(nat \<times> bool) list \<Rightarrow> nat list" where
  "spawners ts = map fst (filter (\<lambda>t. \<not> snd t) ts)"

abbreviation (input) spawning :: "world \<Rightarrow> nat list" where "spawning w \<equiv> spawners (threads w)"

definition covered :: "generation_pool \<Rightarrow> nat" where
  "covered p = length (filter replacement_in_flight (slots p))"

lemma spawners_simps [simp]:
  "spawners [] = []" "spawners (ts @ map (\<lambda>i. (i, False)) is) = spawners ts @ is" "spawners (ts @ [(i, True)]) = spawners ts"
  by (simp_all add: spawners_def filter_map comp_def)

lemma spawners_remove [simp]:
  "spawners (remove1 (i, False) ts) = remove1 i (spawners ts)" "spawners (remove1 (i, True) ts) = spawners ts"
  by (induction ts) (auto simp: spawners_def)

lemma in_spawners: "i \<in> set (spawners ts) \<longleftrightarrow> (i, False) \<in> set ts"
  by (force simp: spawners_def)

text \<open>Well-formedness of a pool with \<open>k\<close> spawn threads under way.\<close>

definition gen_ok :: "pool_options \<Rightarrow> nat \<Rightarrow> generation_pool \<Rightarrow> bool" where
  "gen_ok opts k p \<longleftrightarrow> options p = opts \<and> pool_policy p = pool_recovery opts \<and> pool_state p \<noteq> kPrepared
     \<and> length (replacement_due_ms p) = unat (workers opts)
     \<and> length (slots p) = (if pool_state p = kDead then 0 else unat (workers opts))
     \<and> replacements_in_flight p = of_nat k \<and> active_flag p = (pool_state p = kActive)
     \<and> (pool_state p \<noteq> kActive \<longrightarrow> (\<forall>s \<in> set (slots p). RequestShutdown (executor s) \<in> set (calls p)))
     \<and> count_list (calls p) OnDrainComplete = (if pool_state p = kDead then 1 else 0)"

lemma count_calls [simp]:
  "count_list (map (\<lambda>s. RequestShutdown (f s)) ss) OnDrainComplete = 0" "count_list (map WorkerStarted es) OnDrainComplete = 0"
  by (induction ss, auto) (induction es, auto)

lemma fresh_gen_ok: "gen_ok opts 0 (fresh_pool opts now)"
  by (simp add: gen_ok_def fresh_pool_def new_pool_def)

lemma shut_all_ok: "gen_ok opts k p \<Longrightarrow> gen_ok opts k (shut_all p)"
  by (auto simp: gen_ok_def shut_all_def)

lemma request_drain_ok: "gen_ok opts k p \<Longrightarrow> gen_ok opts k (request_drain p)"
  by (auto simp: gen_ok_def request_drain_def shut_all_def)

lemma begin_quarantine_ok: "gen_ok opts k p \<Longrightarrow> gen_ok opts k (begin_quarantine_pool p)"
  by (auto simp: gen_ok_def begin_quarantine_pool_def shut_all_def Let_def)

lemma recovery_update_ok: "gen_ok opts k (p\<lparr>recovery_state := r\<rparr>) = gen_ok opts k p"
  by (simp add: gen_ok_def)

lemma record_instability_Some:
  assumes "record_instability i ob why p = Some q"
  obtains r where "q = p\<lparr>recovery_state := r\<rparr>" | r where "q = begin_quarantine_pool (p\<lparr>recovery_state := r\<rparr>)"
    | r d where "i < length (slots p)" "replacements_in_flight_for_app ob < replacements_concurrent_per_app (pool_policy p)"
      "q = p\<lparr>recovery_state := r, slots := (slots p)[i := (slots p ! i)\<lparr>replacement_in_flight := True, replacement_reason := why\<rparr>],
             replacements_scheduled := replacements_scheduled p + 1, replacement_due_ms := (replacement_due_ms p)[i := d]\<rparr>"
proof -
  let ?d = "record_worker_instability (recovery_state p) (pool_policy p) (pool_lifecycle p) ob"
  have lim: "schedule_replacement ?d \<Longrightarrow> replacements_in_flight_for_app ob < replacements_concurrent_per_app (pool_policy p)"
    using record_schedules by blast
  consider "\<not> dec_ok ?d" | "dec_ok ?d" "begin_quarantine ?d" | "dec_ok ?d" "\<not> begin_quarantine ?d" "schedule_replacement ?d"
    | "dec_ok ?d" "\<not> begin_quarantine ?d" "\<not> schedule_replacement ?d" by blast
  then show thesis
  proof cases
    case 1
    with assms have "q = p\<lparr>recovery_state := recovery_state p\<rparr>" by (simp add: record_instability_def Let_def)
    then show thesis by (rule that(1))
  next
    case 2
    with assms have "q = begin_quarantine_pool (p\<lparr>recovery_state := dec_state ?d\<rparr>)" by (simp add: record_instability_def Let_def)
    then show thesis by (rule that(2))
  next
    case 3
    with assms have i: "i < length (slots p)" by (simp add: record_instability_def Let_def split: if_splits)
    with assms 3 have "q = p\<lparr>recovery_state := dec_state ?d, slots := (slots p)[i := (slots p ! i)\<lparr>replacement_in_flight := True, replacement_reason := why\<rparr>],
             replacements_scheduled := replacements_scheduled p + 1, replacement_due_ms := (replacement_due_ms p)[i := now_ms ob + replacement_delay ?d]\<rparr>"
      by (simp add: record_instability_def Let_def)
    then show thesis by (rule that(3) [OF i lim [OF 3(3)]])
  next
    case 4
    with assms have "q = p\<lparr>recovery_state := dec_state ?d\<rparr>" by (simp add: record_instability_def Let_def)
    then show thesis by (rule that(1))
  qed
qed

lemma slot_update_ok:
  assumes "gen_ok opts k p" "executor s' = executor (slots p ! i)"
  shows "gen_ok opts k (p\<lparr>slots := (slots p)[i := s']\<rparr>)"
proof (cases "i < length (slots p)")
  case True
  then have "slots p ! i \<in> set (slots p)" by simp
  moreover have "set ((slots p)[i := s']) \<subseteq> insert s' (set (slots p))" by (rule set_update_subset_insert)
  ultimately show ?thesis using assms by (auto simp: gen_ok_def)
next
  case False
  then have "(slots p)[i := s'] = slots p" by (simp add: list_update_beyond not_less)
  with assms show ?thesis by simp
qed

lemma fields_ok:
  "gen_ok opts k (p\<lparr>replacements_scheduled := n\<rparr>) = gen_ok opts k p"
  "gen_ok opts k (p\<lparr>stable_since_ms := t\<rparr>) = gen_ok opts k p"
  "gen_ok opts k (p\<lparr>retired := rs\<rparr>) = gen_ok opts k p"
  "gen_ok opts k (p\<lparr>replacement_due_ms := (replacement_due_ms p)[i := d]\<rparr>) = gen_ok opts k p"
  by (simp_all add: gen_ok_def)

lemma calls_ok: "gen_ok opts k p \<Longrightarrow> OnDrainComplete \<notin> set cs \<Longrightarrow> gen_ok opts k (call cs p)"
  by (auto simp: gen_ok_def count_list_0_iff)

lemma record_instability_ok:
  assumes "gen_ok opts k p" "record_instability i ob why p = Some q"
  shows "gen_ok opts k q"
  using assms(2)
proof (cases rule: record_instability_Some)
  case (2 r)
  then show ?thesis using begin_quarantine_ok [of opts k "p\<lparr>recovery_state := r\<rparr>"] assms(1) by (simp add: recovery_update_ok)
next
  case (3 r d)
  let ?s = "(slots p ! i)\<lparr>replacement_in_flight := True, replacement_reason := why\<rparr>"
  have "gen_ok opts k (p\<lparr>slots := (slots p)[i := ?s]\<rparr>)" using assms(1) by (intro slot_update_ok) simp_all
  with 3 show ?thesis by (simp add: gen_ok_def)
qed (use assms(1) in \<open>simp add: recovery_update_ok\<close>)


lemma recycle_worker_ok:
  assumes ok: "gen_ok opts k p" and r: "recycle_worker e now p = Some (b, q)"
  shows "gen_ok opts k q"
proof (cases "pool_state p = kActive \<and> (\<exists>i. find (\<lambda>i. executor (slots p ! i) = e \<and> ready (slots p ! i)) [0..<length (slots p)] = Some i)")
  case True
  then obtain i where i: "pool_state p = kActive"
    "find (\<lambda>i. executor (slots p ! i) = e \<and> ready (slots p ! i)) [0..<length (slots p)] = Some i" by blast
  let ?p = "p\<lparr>slots := (slots p)[i := (slots p ! i)\<lparr>shutdown_issued := True, ready := False\<rparr>]\<rparr>"
  obtain q' where q: "record_instability i (pool_observation kHealthRecycle now ?p) ''unhealthy'' ?p = Some q'"
    "q = call [RequestShutdown e] q'"
    using r i by (auto simp: recycle_worker_def Let_def)
  have "gen_ok opts k ?p" using ok by (intro slot_update_ok) simp_all
  from record_instability_ok [OF this q(1)] show ?thesis unfolding q(2) by (intro calls_ok) simp_all
next
  case False
  with r have "q = p" by (auto simp: recycle_worker_def split: if_splits option.splits)
  with ok show ?thesis by simp
qed

lemma handle_executor_exit_ok:
  assumes ok: "gen_ok opts k p" and r: "handle_executor_exit i now p = Some q"
  shows "gen_ok opts k q"
proof -
  let ?p = "call [WorkerExited (executor (slots p ! i))]
    (p\<lparr>slots := (slots p)[i := (slots p ! i)\<lparr>ready := False\<rparr>], stable_since_ms := 0\<rparr>)"
  have "gen_ok opts k (p\<lparr>slots := (slots p)[i := (slots p ! i)\<lparr>ready := False\<rparr>]\<rparr>)" using ok by (intro slot_update_ok) simp_all
  then have p: "gen_ok opts k ?p"
    by (intro calls_ok) (simp_all add: fields_ok)
  have "q = p \<or> q = ?p \<or> record_instability i (pool_observation kUnexpectedExit now ?p) ''crashed'' ?p = Some q"
    using r by (auto simp: handle_executor_exit_def Let_def split: if_splits)
  then show ?thesis using ok p record_instability_ok by blast
qed

lemma pump_events_keeps:
  assumes "pump_events has_exit now p = Some q" "P p" "\<And>i p q. P p \<Longrightarrow> handle_executor_exit i now p = Some q \<Longrightarrow> P q"
  shows "P q"
proof -
  have none: "fold (\<lambda>i q. Option.bind q (handle_executor_exit i now)) js None = None" for js by (induction js) auto
  have "fold (\<lambda>i q. Option.bind q (handle_executor_exit i now)) is (Some p) = Some q \<Longrightarrow> P p \<Longrightarrow> P q" for "is" p
  proof (induction "is" arbitrary: p)
    case (Cons i "is")
    then obtain p' where "handle_executor_exit i now p = Some p'" using none by (cases "handle_executor_exit i now p") auto
    with Cons assms(3) show ?case by simp
  qed simp
  with assms(1,2) show ?thesis by (auto simp: pump_events_def)
qed

lemma pump_events_ok:
  assumes "gen_ok opts k p" "pump_events has_exit now p = Some q" shows "gen_ok opts k q"
  using pump_events_keeps [OF assms(2), of "gen_ok opts k"] assms(1) handle_executor_exit_ok by blast

lemma abandon_ok:
  assumes "gen_ok opts (Suc k) p" "abandon i p = Some q" shows "gen_ok opts k q"
proof -
  have "gen_ok opts (Suc k) (p\<lparr>slots := (slots p)[i := (slots p ! i)\<lparr>replacement_in_flight := False\<rparr>]\<rparr>)"
    using assms(1) by (intro slot_update_ok) simp_all
  with assms(2) show ?thesis by (auto simp: abandon_def gen_ok_def split: if_splits)
qed

lemma cover_slot_ok: "gen_ok opts k p \<Longrightarrow> gen_ok opts k (cover_slot now i p)"
  using slot_update_ok [of opts k p "(slots p ! i)\<lparr>replacement_in_flight := True\<rparr>" i]
  by (simp add: cover_slot_def fields_ok) (simp add: gen_ok_def)

lemma cover_slots_ok: "gen_ok opts k p \<Longrightarrow> gen_ok opts k (fold (cover_slot now) is p)"
  by (induction "is" arbitrary: p) (simp_all add: cover_slot_ok)

lemma observe_stability_ok: "gen_ok opts k p \<Longrightarrow> gen_ok opts k (observe_stability now p)"
  by (simp add: observe_stability_def Let_def fields_ok recovery_update_ok)

lemma drain_sweep_ok: "gen_ok opts k p \<Longrightarrow> gen_ok opts k (drain_sweep exited p)"
  unfolding drain_sweep_def by (intro calls_ok) auto

lemma launch_due_ok:
  "gen_ok opts k p \<Longrightarrow> fold (launch_due now) is (p, ls) = (q, ls')
     \<Longrightarrow> \<exists>new. ls' = ls @ new \<and> gen_ok opts (k + length new) q \<and> pool_state q = pool_state p"
proof (induction "is" arbitrary: k p ls)
  case (Cons i "is")
  show ?case
  proof (cases "replacement_due_ms p ! i \<noteq> kNoDue \<and> replacement_due_ms p ! i \<le> now")
    case True
    let ?p = "p\<lparr>replacement_due_ms := (replacement_due_ms p)[i := kNoDue], replacements_in_flight := replacements_in_flight p + 1\<rparr>"
    have "gen_ok opts (Suc k) ?p" using Cons.prems(1) by (simp add: gen_ok_def)
    from Cons.IH [OF this, of "ls @ [i]"] True Cons.prems(2) show ?thesis
      by (auto simp: launch_due_def)
  next
    case False
    with Cons.IH [OF Cons.prems(1), of ls] Cons.prems(2) show ?thesis by (auto simp: launch_due_def)
  qed
qed simp

lemma pump_sweep_ok:
  assumes "gen_ok opts k p" "pump_sweep exited now now' p = (q, launched, complete)"
  shows "gen_ok opts (k + length launched) q \<and> pool_state q = pool_state p \<and> (pool_state p \<noteq> kActive \<longrightarrow> launched = [])
    \<and> (complete \<longleftrightarrow> pool_state p = kDraining \<and> fleet_exited exited p \<and> of_nat k = (0 :: u64))"
proof -
  let ?p = "if pool_state p = kDraining then drain_sweep exited p else p"
  have p: "gen_ok opts k ?p" "pool_state ?p = pool_state p" "fleet_exited exited ?p = fleet_exited exited p"
    "replacements_in_flight ?p = of_nat k"
    using assms(1) drain_sweep_ok by (auto simp: drain_sweep_def fleet_exited_def gen_ok_def)
  have o: "gen_ok opts k (observe_stability now ?p)" "pool_state (observe_stability now ?p) = pool_state p"
    using p observe_stability_ok by (auto simp: observe_stability_def Let_def)
  show ?thesis
  proof (cases "pool_state p = kDraining \<and> fleet_exited exited p \<and> of_nat k = (0 :: u64)")
    case True
    with assms(2) p show ?thesis by (auto simp: pump_sweep_def Let_def)
  next
    case False
    then have "(q, launched) = (if pool_state p = kActive
        then fold (launch_due now') [0..<length (slots (observe_stability now ?p))] (observe_stability now ?p, [])
        else (observe_stability now ?p, []))" "\<not> complete"
      using assms(2) p o by (auto simp: pump_sweep_def Let_def split: prod.splits if_splits)
    with launch_due_ok [OF o(1), of now' _ "[]" q launched] o False show ?thesis by (auto split: if_splits)
  qed
qed

lemma install_ok:
  assumes ok: "gen_ok opts (Suc k) p" and r: "install_replacement i e now p = Some q"
  shows "gen_ok opts k q"
proof -
  have i: "i < length (slots p)" using r by (auto simp: install_replacement_def split: if_splits)
  let ?s = "(slots p ! i)\<lparr>executor := e, ready := True, replacement_in_flight := False, replacement_reason := ''''\<rparr>"
  let ?p = "p\<lparr>retired := retired p @ [executor (slots p ! i)], slots := (slots p)[i := ?s]\<rparr>"
  let ?p2 = "if pool_state ?p = kDraining then call [RequestShutdown e] ?p else ?p"
  let ?p3 = "?p2\<lparr>replacements_scheduled := (if replacements_scheduled ?p2 > 0 then replacements_scheduled ?p2 - 1 else replacements_scheduled ?p2),
    replacements_in_flight := replacements_in_flight ?p2 - 1\<rparr>"
  let ?p4 = "if ready_workers ?p3 = workers (options ?p3) then ?p3\<lparr>stable_since_ms := now\<rparr> else ?p3"
  let ?p5 = "if pool_state ?p4 = kActive then fold (cover_slot now) [0..<length (slots ?p4)] ?p4 else ?p4"
  have q: "q = call [WorkerStarted e] ?p5" using r i by (simp add: install_replacement_def Let_def)
  have "set ((slots p)[i := ?s]) \<subseteq> insert ?s (set (slots p))" by (rule set_update_subset_insert)
  moreover have "pool_state p \<noteq> kDead" using ok i by (auto simp: gen_ok_def split: if_splits)
  ultimately have "gen_ok opts k ?p3" using ok by (cases "pool_state p") (auto simp: gen_ok_def)
  then have "gen_ok opts k ?p4" by (simp add: fields_ok)
  then have "gen_ok opts k ?p5" using cover_slots_ok by simp
  then show ?thesis unfolding q by (rule calls_ok) simp
qed

lemma finalize_ok: "gen_ok opts k p \<Longrightarrow> pool_state p = kDraining \<Longrightarrow> gen_ok opts k (finalize_drain p)"
  by (simp add: gen_ok_def finalize_drain_def)

text \<open>A pool goes from active to draining, and dies only in \<open>finalize_drain\<close>.\<close>

definition moves :: "generation_pool \<Rightarrow> generation_pool \<Rightarrow> bool" where
  "moves p q \<longleftrightarrow> pool_state q = pool_state p \<or> (pool_state p = kActive \<and> pool_state q = kDraining)"

lemma moves_refl [simp]: "moves p p" and moves_trans: "moves p q \<Longrightarrow> moves q r \<Longrightarrow> moves p r"
  by (auto simp: moves_def)

lemma request_drain_moves: "pool_state p \<noteq> kPrepared \<Longrightarrow> moves p (request_drain p)"
  by (cases "pool_state p") (auto simp: moves_def request_drain_def shut_all_def)

lemma record_instability_moves: "record_instability i ob why p = Some q \<Longrightarrow> moves p q"
  by (erule record_instability_Some) (auto simp: moves_def begin_quarantine_pool_def shut_all_def Let_def)

lemma recycle_worker_moves: "recycle_worker e now p = Some (b, q) \<Longrightarrow> moves p q"
  by (auto simp: recycle_worker_def Let_def moves_def dest!: record_instability_moves split: if_splits option.splits)

lemma handle_executor_exit_moves: "handle_executor_exit i now p = Some q \<Longrightarrow> moves p q"
  by (auto simp: handle_executor_exit_def Let_def moves_def dest!: record_instability_moves split: if_splits)

lemma pump_events_moves:
  assumes "pump_events has_exit now p = Some q" shows "moves p q"
  using pump_events_keeps [OF assms, of "moves p"] moves_refl moves_trans handle_executor_exit_moves by blast

lemma abandon_moves: "abandon i p = Some q \<Longrightarrow> moves p q"
  by (auto simp: abandon_def moves_def split: if_splits)

lemma cover_slots_state: "pool_state (fold (cover_slot now) is p) = pool_state p"
  by (induction "is" arbitrary: p) (auto simp: cover_slot_def)

lemma install_moves: "install_replacement i e now p = Some q \<Longrightarrow> moves p q"
  by (auto simp: install_replacement_def moves_def Let_def cover_slots_state split: if_splits)

section \<open>Reachable worlds\<close>

definition world_ok :: "pool_options \<Rightarrow> world \<Rightarrow> bool" where
  "world_ok opts w \<longleftrightarrow> gen_ok opts (length (spawning w)) (pool w) \<and> (finalizing w \<longrightarrow> pool_state (pool w) = kDraining)"

lemma length_spawning_remove:
  "(i, False) \<in> set (threads w) \<Longrightarrow> length (spawning w) = Suc (length (remove1 i (spawning w)))"
  using in_spawners [of i "threads w"] by (simp add: length_remove1) (metis Suc_pred length_pos_if_in_set)

lemma step_world_ok:
  assumes "gen_step w w'" "world_ok opts w"
  shows "world_ok opts w'"
  using assms
proof (cases rule: gen_step.cases)
  case drain
  then show ?thesis using assms(2) request_drain_ok request_drain_moves [of "pool w"] by (auto simp: world_ok_def moves_def gen_ok_def)
next
  case (exit e)
  then show ?thesis using assms(2) by (simp add: world_ok_def)
next
  case (recycle e now b p)
  then show ?thesis using assms(2) recycle_worker_ok recycle_worker_moves by (fastforce simp: world_ok_def moves_def)
next
  case (events has_exit now p)
  then show ?thesis using assms(2) pump_events_ok by (simp add: world_ok_def)
next
  case (sweep now now' p launched complete)
  have "gen_ok opts (length (spawning w)) (pool w)" using assms(2) by (simp add: world_ok_def)
  from pump_sweep_ok [OF this sweep(4)] sweep show ?thesis by (simp add: world_ok_def)
next
  case finalize
  then show ?thesis using assms(2) finalize_ok by (simp add: world_ok_def)
next
  case (give_up i p)
  then show ?thesis
    using assms(2) abandon_ok [of opts "length (remove1 i (spawning w))" "pool w" i p] abandon_moves [of i "pool w" p]
      length_spawning_remove [of i w]
    by (auto simp: world_ok_def moves_def)
next
  case (fails i p)
  then show ?thesis
    using assms(2) abandon_ok [of opts "length (remove1 i (spawning w))" "pool w" i p] abandon_moves [of i "pool w" p]
      length_spawning_remove [of i w]
    by (auto simp: world_ok_def moves_def)
next
  case (failure_recorded i now p)
  then show ?thesis
    using assms(2) record_instability_ok record_instability_moves
    by (fastforce simp: world_ok_def moves_def replacement_failed_def)
next
  case (install i now p)
  then show ?thesis
    using assms(2) install_ok [of opts "length (remove1 i (spawning w))" "pool w" i "next_executor w" now p]
      install_moves [of i "next_executor w" now "pool w" p] length_spawning_remove [of i w]
    by (auto simp: world_ok_def moves_def)
qed

lemma reachable_world_ok: "pool_reachable opts w \<Longrightarrow> world_ok opts w"
proof (induction rule: pool_reachable.induct)
  case (start start now p)
  then have "p = fresh_pool opts now" using create_pool_fresh by blast
  then show ?case by (simp add: world_ok_def created_def fresh_gen_ok)
next
  case (adopted warmed adopt now p)
  then have "p = fresh_pool opts now" using create_adopted_fresh by blast
  then show ?case by (simp add: world_ok_def created_def fresh_gen_ok)
next
  case (step w w')
  then show ?case using step_world_ok by blast
qed

section \<open>One replacement at a time\<close>

text \<open>
  With a limit of one concurrent replacement: the slots a replacement covers are counted exactly, every spawn thread has
  a covered slot of its own, and a slot waits for its due time or has a thread, never both.
\<close>

definition cover_ok :: "nat list \<Rightarrow> generation_pool \<Rightarrow> bool" where
  "cover_ok sp p \<longleftrightarrow> (pool_state p \<noteq> kDead \<longrightarrow> replacements_scheduled p = of_nat (covered p)) \<and> distinct sp
     \<and> (\<forall>i \<in> set sp. i < length (slots p) \<and> replacement_in_flight (slots p ! i) \<and> replacement_due_ms p ! i = 0)
     \<and> (\<forall>i < length (slots p). replacement_due_ms p ! i \<noteq> 0 \<longrightarrow> replacement_in_flight (slots p ! i))"

lemma covered_le: "gen_ok opts k p \<Longrightarrow> covered p < 2 ^ 32"
proof -
  assume "gen_ok opts k p"
  then have "length (slots p) \<le> unat (workers opts)" by (auto simp: gen_ok_def)
  moreover have "covered p \<le> length (slots p)" by (simp add: covered_def)
  moreover have "unat (workers opts) < 2 ^ 32" using unsigned_less [where ?'a = nat and w = "workers opts"] by simp
  ultimately show ?thesis by linarith
qed

lemma covered_0: "covered p = 0 \<longleftrightarrow> (\<forall>i < length (slots p). \<not> replacement_in_flight (slots p ! i))"
  by (auto simp: covered_def filter_empty_conv all_set_conv_all_nth)

lemma length_filter_update:
  "i < length xs \<Longrightarrow> length (filter P (xs[i := x])) + (if P (xs ! i) then 1 else 0) = length (filter P xs) + (if P x then 1 else 0)"
proof (induction xs arbitrary: i)
  case (Cons y xs)
  then show ?case
  proof (cases i)
    case (Suc j)
    with Cons.IH [of j] Cons.prems show ?thesis by (auto split: if_splits)
  qed auto
qed simp

lemma covered_flags: "covered p = length (filter id (map replacement_in_flight (slots p)))"
  by (simp add: covered_def filter_map comp_def)

lemma cover_ok_same_flags:
  assumes "cover_ok sp p" "map replacement_in_flight (slots q) = map replacement_in_flight (slots p)"
    "replacements_scheduled q = replacements_scheduled p" "replacement_due_ms q = replacement_due_ms p" "pool_state q = kDead \<longleftrightarrow> pool_state p = kDead"
  shows "cover_ok sp q"
proof -
  have l: "length (slots q) = length (slots p)" using assms(2) by (metis length_map)
  have f: "replacement_in_flight (slots q ! i) = replacement_in_flight (slots p ! i)" if "i < length (slots p)" for i
    using assms(2) that l by (metis nth_map)
  have "covered q = covered p"
    by (simp only: covered_flags assms(2))
  with assms l f show ?thesis by (auto simp: cover_ok_def)
qed

lemma cover_ok_record:
  assumes c: "cover_ok sp p" and ok: "gen_ok opts k p" and one: "replacements_concurrent_per_app (pool_recovery opts) = 1"
    and ob: "replacements_in_flight_for_app ob = ucast (replacements_scheduled p)"
    and r: "record_instability i ob why p = Some q"
  shows "cover_ok sp q"
  using r
proof (cases rule: record_instability_Some)
  case (1 r)
  then show ?thesis by (intro cover_ok_same_flags [OF c]) simp_all
next
  case (2 r)
  then show ?thesis
    by (intro cover_ok_same_flags [OF c]) (simp_all add: begin_quarantine_pool_def shut_all_def Let_def)
next
  case (3 r d)
  have nd: "pool_state p \<noteq> kDead" using 3(1) ok by (auto simp: gen_ok_def)
  have "(ucast (replacements_scheduled p) :: u32) < 1" using 3(2) ob ok one by (simp add: gen_ok_def)
  then have "unat (ucast (of_nat (covered p) :: u64) :: u32) = 0" using c nd by (simp add: cover_ok_def word_less_nat_alt)
  then have 0: "covered p = 0"
    using covered_le [OF ok] by (simp add: unsigned_ucast_eq unsigned_of_nat take_bit_nat_eq_self)
  then have nf: "\<forall>j < length (slots p). \<not> replacement_in_flight (slots p ! j)" by (simp add: covered_0)
  have "sp = []" using c nf by (cases sp) (auto simp: cover_ok_def)
  moreover have "covered q = 1"
    using length_filter_update [OF 3(1), of replacement_in_flight "(slots p ! i)\<lparr>replacement_in_flight := True, replacement_reason := why\<rparr>"] 0 nf 3(1)
    by (simp add: 3(3) covered_def)
  moreover have "replacements_scheduled p = 0" using c nd 0 by (simp add: cover_ok_def)
  ultimately show ?thesis
    using c nf 3(1) nd by (auto simp: cover_ok_def 3(3) nth_list_update)
qed

lemma cover_ok_release:
  assumes c: "cover_ok sp p" and i: "i \<in> set sp" and nd: "pool_state p \<noteq> kDead"
    and s': "\<not> replacement_in_flight s'" and q: "slots q = (slots p)[i := s']" "replacement_due_ms q = replacement_due_ms p"
      "replacements_scheduled q = (if replacements_scheduled p > 0 then replacements_scheduled p - 1 else replacements_scheduled p)"
      "pool_state q = pool_state p" and ok: "gen_ok opts k p"
  shows "cover_ok (remove1 i sp) q"
proof -
  have il: "i < length (slots p)" "replacement_in_flight (slots p ! i)" "replacement_due_ms p ! i = 0" and d: "distinct sp"
    using c i by (auto simp: cover_ok_def)
  have n: "Suc (covered q) = covered p" using length_filter_update [OF il(1), of replacement_in_flight s'] il(2) s' q(1) by (simp add: covered_def)
  have "replacements_scheduled p = of_nat (covered p)" using c nd by (simp add: cover_ok_def)
  moreover from this n covered_le [OF ok] have "replacements_scheduled p > 0"
    by (simp add: word_less_nat_alt unsigned_of_nat take_bit_nat_eq_self del: of_nat_Suc)
  ultimately have "replacements_scheduled q = of_nat (covered q)" using n q(3) by (metis of_nat_Suc add_diff_cancel_left')
  with c d il s' show ?thesis by (auto simp: cover_ok_def q nth_list_update)
qed

lemma cover_ok_cover_slot:
  assumes c: "cover_ok sp p" and i: "i < length (slots p)" and nd: "pool_state p \<noteq> kDead"
  shows "cover_ok sp (cover_slot now i p)"
proof (cases "\<not> ready (slots p ! i) \<and> \<not> replacement_in_flight (slots p ! i)")
  case True
  have "covered (cover_slot now i p) = Suc (covered p)"
    using length_filter_update [OF i, of replacement_in_flight "(slots p ! i)\<lparr>replacement_in_flight := True\<rparr>"] True
    by (simp add: cover_slot_def covered_def)
  with c True nd i show ?thesis
    by (auto simp: cover_ok_def cover_slot_def nth_list_update)
qed (use c in \<open>auto simp: cover_slot_def\<close>)

lemma cover_ok_cover_slots:
  "cover_ok sp p \<Longrightarrow> pool_state p \<noteq> kDead \<Longrightarrow> set is \<subseteq> {..<length (slots p)} \<Longrightarrow> cover_ok sp (fold (cover_slot now) is p)"
proof (induction "is" arbitrary: p)
  case (Cons i "is")
  have "length (slots (cover_slot now i p)) = length (slots p)" "pool_state (cover_slot now i p) = pool_state p"
    by (simp_all add: cover_slot_def)
  with Cons cover_ok_cover_slot [of sp p i now] show ?case by auto
qed simp

lemma cover_ok_cover_all:
  "cover_ok sp p \<Longrightarrow> pool_state p \<noteq> kDead
     \<Longrightarrow> cover_ok sp (if pool_state p = kActive then fold (cover_slot now) [0..<length (slots p)] p else p)"
  by (auto intro!: cover_ok_cover_slots)

lemma cover_ok_install:
  assumes c: "cover_ok sp p" and i: "i \<in> set sp" and ok: "gen_ok opts k p" and r: "install_replacement i e now p = Some q"
  shows "cover_ok (remove1 i sp) q"
proof -
  have il: "i < length (slots p)" using r by (auto simp: install_replacement_def split: if_splits)
  have nd: "pool_state p \<noteq> kDead" using ok il by (auto simp: gen_ok_def split: if_splits)
  let ?s = "(slots p ! i)\<lparr>executor := e, ready := True, replacement_in_flight := False, replacement_reason := ''''\<rparr>"
  let ?p = "p\<lparr>retired := retired p @ [executor (slots p ! i)], slots := (slots p)[i := ?s]\<rparr>"
  let ?p2 = "if pool_state ?p = kDraining then call [RequestShutdown e] ?p else ?p"
  let ?p3 = "?p2\<lparr>replacements_scheduled := (if replacements_scheduled ?p2 > 0 then replacements_scheduled ?p2 - 1 else replacements_scheduled ?p2),
    replacements_in_flight := replacements_in_flight ?p2 - 1\<rparr>"
  let ?p4 = "if ready_workers ?p3 = workers (options ?p3) then ?p3\<lparr>stable_since_ms := now\<rparr> else ?p3"
  let ?p5 = "if pool_state ?p4 = kActive then fold (cover_slot now) [0..<length (slots ?p4)] ?p4 else ?p4"
  have q: "q = call [WorkerStarted e] ?p5" using r il by (simp add: install_replacement_def Let_def)
  have "cover_ok (remove1 i sp) ?p4"
    by (rule cover_ok_release [OF c i nd _ _ _ _ _ ok, where s' = ?s]) simp_all
  moreover have "pool_state ?p4 \<noteq> kDead" using nd by simp
  ultimately have "cover_ok (remove1 i sp) ?p5" by (rule cover_ok_cover_all)
  then show ?thesis unfolding q by (rule cover_ok_same_flags) simp_all
qed

lemma cover_ok_launch:
  "cover_ok sp p \<Longrightarrow> length (replacement_due_ms p) = length (slots p) \<Longrightarrow> set is \<subseteq> {..<length (slots p)}
     \<Longrightarrow> fold (launch_due now) is (p, ls) = (q, ls') \<Longrightarrow> \<exists>new. ls' = ls @ new \<and> cover_ok (sp @ new) q"
proof (induction "is" arbitrary: sp p ls)
  case (Cons i "is")
  show ?case
  proof (cases "replacement_due_ms p ! i \<noteq> kNoDue \<and> replacement_due_ms p ! i \<le> now")
    case True
    let ?p = "p\<lparr>replacement_due_ms := (replacement_due_ms p)[i := kNoDue], replacements_in_flight := replacements_in_flight p + 1\<rparr>"
    have "covered ?p = covered p" by (simp add: covered_def)
    then have "cover_ok (sp @ [i]) ?p"
      using Cons.prems True by (auto simp: cover_ok_def nth_list_update)
    from Cons.IH [OF this, of "ls @ [i]"] True Cons.prems(2-4) show ?thesis by (auto simp: launch_due_def)
  next
    case False
    with Cons.IH [OF Cons.prems(1,2), of ls] Cons.prems(3,4) show ?thesis by (auto simp: launch_due_def)
  qed
qed simp

lemma cover_ok_sweep:
  assumes c: "cover_ok sp p" and ok: "gen_ok opts k p" and nd: "pool_state p \<noteq> kDead"
    and r: "pump_sweep exited now now' p = (q, launched, complete)"
  shows "cover_ok (sp @ launched) q"
proof -
  let ?p = "if pool_state p = kDraining then drain_sweep exited p else p"
  have p: "cover_ok sp ?p" "slots ?p = slots p" "replacement_due_ms ?p = replacement_due_ms p"
    by (auto intro: cover_ok_same_flags [OF c] simp: c drain_sweep_def)
  have o: "cover_ok sp (observe_stability now ?p)" "slots (observe_stability now ?p) = slots p"
    "replacement_due_ms (observe_stability now ?p) = replacement_due_ms p"
    using p by (auto intro!: cover_ok_same_flags [OF p(1)] simp: observe_stability_def Let_def)
  have l: "length (replacement_due_ms p) = length (slots p)" using ok nd by (simp add: gen_ok_def)
  have "(q, launched) = (?p, []) \<or> (q, launched) = (observe_stability now ?p, [])
     \<or> (q, launched) = fold (launch_due now') [0..<length (slots p)] (observe_stability now ?p, [])"
    using r o by (auto simp: pump_sweep_def Let_def split: prod.splits if_splits)
  then show ?thesis
    using p(1) o l cover_ok_launch [OF o(1), of "[0..<length (slots p)]" now' "[]" q launched]
    by (auto simp: lessThan_atLeast0)
qed


lemma observation_count: "replacements_in_flight_for_app (pool_observation kd now p) = ucast (replacements_scheduled p)"
  by (simp add: pool_observation_def)

lemma cover_ok_recycle:
  assumes c: "cover_ok sp p" and ok: "gen_ok opts k p" and one: "replacements_concurrent_per_app (pool_recovery opts) = 1"
    and r: "recycle_worker e now p = Some (b, q)"
  shows "cover_ok sp q"
proof (cases "\<exists>i q'. i < length (slots p) \<and> q = call [RequestShutdown e] q'
    \<and> record_instability i (pool_observation kHealthRecycle now (p\<lparr>slots := (slots p)[i := (slots p ! i)\<lparr>shutdown_issued := True, ready := False\<rparr>]\<rparr>))
        ''unhealthy'' (p\<lparr>slots := (slots p)[i := (slots p ! i)\<lparr>shutdown_issued := True, ready := False\<rparr>]\<rparr>) = Some q'")
  case True
  then obtain i q' where i: "i < length (slots p)" and q: "q = call [RequestShutdown e] q'"
    and rec: "record_instability i (pool_observation kHealthRecycle now (p\<lparr>slots := (slots p)[i := (slots p ! i)\<lparr>shutdown_issued := True, ready := False\<rparr>]\<rparr>))
        ''unhealthy'' (p\<lparr>slots := (slots p)[i := (slots p ! i)\<lparr>shutdown_issued := True, ready := False\<rparr>]\<rparr>) = Some q'" by blast
  let ?p = "p\<lparr>slots := (slots p)[i := (slots p ! i)\<lparr>shutdown_issued := True, ready := False\<rparr>]\<rparr>"
  have "cover_ok sp ?p" using i by (intro cover_ok_same_flags [OF c]) (simp_all add: map_update list_update_same_conv)
  moreover have "gen_ok opts k ?p" using ok by (intro slot_update_ok) simp_all
  ultimately have "cover_ok sp q'" using one observation_count rec by (rule cover_ok_record)
  then show ?thesis unfolding q by (rule cover_ok_same_flags) simp_all
next
  case False
  with r have "q = p" by (auto simp: recycle_worker_def Let_def find_Some_iff split: if_splits option.splits)
  with c show ?thesis by simp
qed

lemma cover_ok_exit:
  assumes c: "cover_ok sp p" and ok: "gen_ok opts k p" and one: "replacements_concurrent_per_app (pool_recovery opts) = 1"
    and r: "handle_executor_exit i now p = Some q"
  shows "cover_ok sp q"
proof -
  let ?p' = "p\<lparr>slots := (slots p)[i := (slots p ! i)\<lparr>ready := False\<rparr>]\<rparr>"
  let ?p = "call [WorkerExited (executor (slots p ! i))]
    (p\<lparr>slots := (slots p)[i := (slots p ! i)\<lparr>ready := False\<rparr>], stable_since_ms := 0\<rparr>)"
  have i: "i < length (slots p)" using r by (auto simp: handle_executor_exit_def split: if_splits)
  have "gen_ok opts k ?p'" using ok by (intro slot_update_ok) simp_all
  then have p: "gen_ok opts k ?p" by (intro calls_ok) (simp_all add: fields_ok)
  have cp: "cover_ok sp ?p" using i by (intro cover_ok_same_flags [OF c]) (simp_all add: map_update list_update_same_conv)
  have "q = p \<or> q = ?p \<or> record_instability i (pool_observation kUnexpectedExit now ?p) ''crashed'' ?p = Some q"
    using r i by (auto simp: handle_executor_exit_def Let_def split: if_splits)
  then show ?thesis using c cp cover_ok_record [OF cp p one observation_count] by blast
qed

lemma cover_ok_events:
  assumes "cover_ok sp p" "gen_ok opts k p" "replacements_concurrent_per_app (pool_recovery opts) = 1" "pump_events has_exit now p = Some q"
  shows "cover_ok sp q"
  using pump_events_keeps [OF assms(4), of "\<lambda>p. cover_ok sp p \<and> gen_ok opts k p"] assms(1-3) cover_ok_exit handle_executor_exit_ok
  by blast

definition cover_world :: "world \<Rightarrow> bool" where
  "cover_world w \<longleftrightarrow> cover_ok (spawning w) (pool w) \<and> (finalizing w \<longrightarrow> spawning w = [])"

lemma spawning_bound:
  assumes "cover_ok sp p" "gen_ok opts k p" shows "length sp < 2 ^ 32"
proof -
  have "set sp \<subseteq> {..<length (slots p)}" "distinct sp" using assms(1) by (auto simp: cover_ok_def)
  then have "length sp \<le> length (slots p)" by (metis card_lessThan card_mono distinct_card finite_lessThan)
  also have "\<dots> \<le> unat (workers opts)" using assms(2) by (auto simp: gen_ok_def)
  also have "\<dots> < 2 ^ 32" using unsigned_less [where ?'a = nat and w = "workers opts"] by simp
  finally show ?thesis .
qed


lemma step_cover_world:
  assumes st: "gen_step w w'" and w: "world_ok opts w" "cover_world w" and one: "replacements_concurrent_per_app (pool_recovery opts) = 1"
  shows "cover_world w'"
proof -
  have ok: "gen_ok opts (length (spawning w)) (pool w)" and c: "cover_ok (spawning w) (pool w)"
    and f: "finalizing w \<Longrightarrow> spawning w = []" "finalizing w \<Longrightarrow> pool_state (pool w) = kDraining"
    using w by (auto simp: world_ok_def cover_world_def)
  have in_pool: "pool_state (pool w) \<noteq> kDead" if "(i, False) \<in> set (threads w)" for i
    using that c ok in_spawners [of i "threads w"] by (auto simp: cover_ok_def gen_ok_def)
  show ?thesis
    using st
  proof (cases rule: gen_step.cases)
    case drain
    have "cover_ok (spawning w) (request_drain (pool w))"
      by (rule cover_ok_same_flags [OF c]) (auto simp: request_drain_def shut_all_def)
    then show ?thesis using drain f by (simp add: cover_world_def)
  next
    case (exit e)
    then show ?thesis using w by (simp add: cover_world_def)
  next
    case (recycle e now b p)
    then show ?thesis using cover_ok_recycle [OF c ok one] f by (simp add: cover_world_def)
  next
    case (events has_exit now p)
    then show ?thesis using cover_ok_events [OF c ok one] f by (simp add: cover_world_def)
  next
    case (sweep now now' p launched complete)
    have "spawning w = [] \<and> launched = []" if complete
    proof -
      from that pump_sweep_ok [OF ok sweep(4)] have "of_nat (length (spawning w)) = (0 :: u64)" "launched = []" by auto
      moreover have "unat (of_nat (length (spawning w)) :: u64) = length (spawning w)"
        using spawning_bound [OF c ok] by (simp add: unsigned_of_nat take_bit_nat_eq_self)
      ultimately show ?thesis by (metis length_0_conv unsigned_0)
    qed
    then show ?thesis using sweep cover_ok_sweep [OF c ok sweep(3,4)] by (auto simp: cover_world_def)
  next
    case finalize
    then show ?thesis using f by (simp add: cover_world_def cover_ok_def finalize_drain_def)
  next
    case (give_up i p)
    then have "cover_ok (remove1 i (spawning w)) p"
      using in_spawners [of i "threads w"] in_pool
      by (intro cover_ok_release [OF c _ _ _ _ _ _ _ ok, where s' = "(slots (pool w) ! i)\<lparr>replacement_in_flight := False\<rparr>"])
         (auto simp: abandon_def split: if_splits)
    then show ?thesis using give_up f by (auto simp: cover_world_def)
  next
    case (fails i p)
    then have "cover_ok (remove1 i (spawning w)) p"
      using in_spawners [of i "threads w"] in_pool
      by (intro cover_ok_release [OF c _ _ _ _ _ _ _ ok, where s' = "(slots (pool w) ! i)\<lparr>replacement_in_flight := False\<rparr>"])
         (auto simp: abandon_def split: if_splits)
    then show ?thesis using fails f by (auto simp: cover_world_def)
  next
    case (failure_recorded i now p)
    then show ?thesis
      using cover_ok_record [OF c ok one observation_count] f by (auto simp: cover_world_def replacement_failed_def)
  next
    case (install i now p)
    then show ?thesis
      using cover_ok_install [OF c _ ok] in_spawners [of i "threads w"] f by (auto simp: cover_world_def)
  qed
qed

lemma reachable_cover_world:
  assumes "pool_reachable opts w" "replacements_concurrent_per_app (pool_recovery opts) = 1"
  shows "cover_world w"
  using assms(1)
proof (induction rule: pool_reachable.induct)
  case (start start now p)
  then have "p = fresh_pool opts now" using create_pool_fresh by blast
  then show ?case by (simp add: cover_world_def cover_ok_def created_def fresh_pool_def new_pool_def covered_def filter_map comp_def new_slot_def)
next
  case (adopted warmed adopt now p)
  then have "p = fresh_pool opts now" using create_adopted_fresh by blast
  then show ?case by (simp add: cover_world_def cover_ok_def created_def fresh_pool_def new_pool_def covered_def filter_map comp_def new_slot_def)
next
  case (step w w')
  then show ?case using step_cover_world reachable_world_ok assms(2) by blast
qed

section \<open>Properties of the pool\<close>


text \<open>C13: A drain ends. In every reachable state of a draining pool each worker in a slot has been told to
  shut down, also one whose replacement became ready during the drain; and as soon as these workers
  have exited and no spawn thread is left, the next round of the pump completes the drain, after which the
  pool is dead, holds no worker, and has reported the completion.\<close>

theorem drain_completes:
  assumes "pool_reachable opts w" and "pool_state (pool w) = kDraining"
  shows "(\<forall>s \<in> set (slots (pool w)). RequestShutdown (executor s) \<in> set (calls (pool w)))
    \<and> ((\<forall>s \<in> set (slots (pool w)). executor s \<in> gone w) \<and> spawning w = [] \<longrightarrow>
        (\<forall>now now'. \<exists>p. pump_sweep (\<lambda>e. e \<in> gone w) now now' (pool w) = (p, [], True)
           \<and> pool_state (finalize_drain p) = kDead \<and> slots (finalize_drain p) = [] \<and> retired (finalize_drain p) = []
           \<and> count_list (calls (finalize_drain p)) OnDrainComplete = 1))"
proof -
  have ok: "gen_ok opts (length (spawning w)) (pool w)" using reachable_world_ok [OF assms(1)] by (simp add: world_ok_def)
  have "\<exists>p. pump_sweep (\<lambda>e. e \<in> gone w) now now' (pool w) = (p, [], True)
           \<and> pool_state (finalize_drain p) = kDead \<and> slots (finalize_drain p) = [] \<and> retired (finalize_drain p) = []
           \<and> count_list (calls (finalize_drain p)) OnDrainComplete = 1"
    if "\<forall>s \<in> set (slots (pool w)). executor s \<in> gone w" "spawning w = []" for now now'
  proof -
    obtain p ls b where r: "pump_sweep (\<lambda>e. e \<in> gone w) now now' (pool w) = (p, ls, b)" by (metis prod_cases3)
    from pump_sweep_ok [OF ok r] assms(2) that have "ls = []" b "gen_ok opts 0 p" "pool_state p = kDraining"
      by (auto simp: fleet_exited_def list_all_iff)
    with r show ?thesis by (auto simp: finalize_drain_def gen_ok_def)
  qed
  with ok assms(2) show ?thesis by (auto simp: gen_ok_def)
qed

lemma step_not_active:
  assumes "gen_step v v'" "world_ok opts v" "pool_state (pool v) \<noteq> kActive"
  shows "pool_state (pool v') \<noteq> kActive \<and> mset (spawning v') \<subseteq># mset (spawning v)"
proof -
  have ok: "gen_ok opts (length (spawning v)) (pool v)" using assms(2) by (simp add: world_ok_def)
  have m: "pool_state q \<noteq> kActive" if "moves (pool v) q" for q using that assms(3) by (auto simp: moves_def)
  show ?thesis
    using assms(1)
  proof (cases rule: gen_step.cases)
    case drain
    then show ?thesis using m request_drain_moves ok by (simp add: gen_ok_def)
  next
    case (sweep now now' p launched complete)
    then show ?thesis using pump_sweep_ok [OF ok sweep(4)] assms(3) by simp
  next
    case finalize
    then show ?thesis by (simp add: finalize_drain_def)
  next
    case (failure_recorded i now p)
    then show ?thesis using m record_instability_moves by (simp add: replacement_failed_def)
  qed (use assms(3) m recycle_worker_moves pump_events_moves abandon_moves install_moves in \<open>simp_all add: mset_remove1\<close>)
qed

text \<open>C14: A pool that left service never starts a worker again. Once it drains, by request or because its
  crash budget ran out, no later step makes it active or launches a spawn thread; the threads that remain are some of those that
  ran before; and the completion of the drain is reported exactly once, when the pool dies.\<close>

theorem drained_pool_never_spawns:
  assumes "pool_reachable opts w" and "pool_state (pool w) \<noteq> kActive" and "gen_step\<^sup>*\<^sup>* w w'"
  shows "pool_state (pool w') \<noteq> kActive \<and> mset (spawning w') \<subseteq># mset (spawning w)
    \<and> count_list (calls (pool w')) OnDrainComplete = (if pool_state (pool w') = kDead then 1 else 0)"
proof -
  have "pool_state (pool w') \<noteq> kActive \<and> mset (spawning w') \<subseteq># mset (spawning w) \<and> world_ok opts w'"
    using assms(3)
  proof (induction rule: rtranclp_induct)
    case base
    then show ?case using assms(2) reachable_world_ok [OF assms(1)] by simp
  next
    case (step v v')
    then show ?case using step_not_active [of v v' opts] step_world_ok [of v v' opts] by (auto intro: subset_mset.order_trans)
  qed
  then show ?thesis by (simp add: world_ok_def gen_ok_def)
qed

text \<open>Routing a request to a worker of the pool.\<close>

lemma pick_scan_spec:
  "(pick_scan available load ss best bl = best \<and> (\<forall>s \<in> set ss. ready s \<and> available (executor s) \<longrightarrow> bl \<le> load (executor s)))
   \<or> (\<exists>i < length ss. pick_scan available load ss best bl = Some (executor (ss ! i)) \<and> ready (ss ! i) \<and> available (executor (ss ! i))
        \<and> load (executor (ss ! i)) < bl
        \<and> (\<forall>j < length ss. ready (ss ! j) \<and> available (executor (ss ! j)) \<longrightarrow>
             load (executor (ss ! i)) \<le> load (executor (ss ! j)) \<and> (j < i \<longrightarrow> load (executor (ss ! i)) < load (executor (ss ! j)))))"
proof (induction ss arbitrary: best bl)
  case (Cons s ss)
  show ?case
  proof (cases "ready s \<and> available (executor s) \<and> load (executor s) < bl")
    case True
    then have e: "pick_scan available load (s # ss) best bl = pick_scan available load ss (Some (executor s)) (load (executor s))" by simp
    from Cons.IH [of "Some (executor s)" "load (executor s)"] show ?thesis
    proof (elim disjE exE conjE)
      fix i assume "i < length ss" "pick_scan available load ss (Some (executor s)) (load (executor s)) = Some (executor (ss ! i))"
        "ready (ss ! i)" "available (executor (ss ! i))" "load (executor (ss ! i)) < load (executor s)"
        "\<forall>j < length ss. ready (ss ! j) \<and> available (executor (ss ! j)) \<longrightarrow>
             load (executor (ss ! i)) \<le> load (executor (ss ! j)) \<and> (j < i \<longrightarrow> load (executor (ss ! i)) < load (executor (ss ! j)))"
      with True e show ?thesis
        by (intro disjI2 exI [of _ "Suc i"]) (auto simp: nth_Cons split: nat.splits)
    next
      assume "pick_scan available load ss (Some (executor s)) (load (executor s)) = Some (executor s)"
        "\<forall>s'\<in>set ss. ready s' \<and> available (executor s') \<longrightarrow> load (executor s) \<le> load (executor s')"
      with True e show ?thesis
        by (intro disjI2 exI [of _ 0]) (auto simp: nth_Cons split: nat.splits)
    qed
  next
    case False
    then have e: "pick_scan available load (s # ss) best bl = pick_scan available load ss best bl" by auto
    have skip: "ready s \<and> available (executor s) \<longrightarrow> bl \<le> load (executor s)" using False by (auto simp: not_less)
    from Cons.IH [of best bl] show ?thesis
    proof (elim disjE exE conjE)
      fix i assume "i < length ss" "pick_scan available load ss best bl = Some (executor (ss ! i))"
        "ready (ss ! i)" "available (executor (ss ! i))" "load (executor (ss ! i)) < bl"
        "\<forall>j < length ss. ready (ss ! j) \<and> available (executor (ss ! j)) \<longrightarrow>
             load (executor (ss ! i)) \<le> load (executor (ss ! j)) \<and> (j < i \<longrightarrow> load (executor (ss ! i)) < load (executor (ss ! j)))"
      with skip e show ?thesis
        by (intro disjI2 exI [of _ "Suc i"]) (auto simp: nth_Cons split: nat.splits)
    next
      assume "pick_scan available load ss best bl = best"
        "\<forall>s'\<in>set ss. ready s' \<and> available (executor s') \<longrightarrow> bl \<le> load (executor s')"
      with skip e show ?thesis by (intro disjI1) auto
    qed
  qed
qed simp

text \<open>C15: A request goes to the first of the least loaded workers that are ready and alive: the scan gives no
  worker exactly if the pool is not active or every such worker has the largest representable load, and otherwise one with
  no larger load than any other and a strictly smaller one than all that come before it.\<close>

theorem pick_is_least_loaded:
  "case pick_worker available inflight client_bytes p of
     None \<Rightarrow> pool_state p \<noteq> kActive \<or> (\<forall>i < length (slots p). ready (slots p ! i) \<and> available (executor (slots p ! i)) \<longrightarrow>
        inflight (executor (slots p ! i)) + client_bytes (executor (slots p ! i)) = - 1)
   | Some e \<Rightarrow> pool_state p = kActive \<and> (\<exists>i < length (slots p). e = executor (slots p ! i) \<and> ready (slots p ! i) \<and> available e
        \<and> (\<forall>j < length (slots p). ready (slots p ! j) \<and> available (executor (slots p ! j)) \<longrightarrow>
             inflight e + client_bytes e \<le> inflight (executor (slots p ! j)) + client_bytes (executor (slots p ! j))
             \<and> (j < i \<longrightarrow> inflight e + client_bytes e < inflight (executor (slots p ! j)) + client_bytes (executor (slots p ! j)))))"
proof (cases "pool_state p = kActive")
  case True
  let ?load = "\<lambda>e. inflight e + client_bytes e"
  have e: "pick_worker available inflight client_bytes p = pick_scan available ?load (slots p) None (- 1)"
    using True by (simp add: pick_worker_def)
  from pick_scan_spec [of available ?load "slots p" None "- 1"] show ?thesis
  proof
    assume "pick_scan available ?load (slots p) None (- 1) = None \<and>
      (\<forall>s\<in>set (slots p). ready s \<and> available (executor s) \<longrightarrow> - 1 \<le> ?load (executor s))"
    then show ?thesis unfolding e by (simp add: word_order.extremum_unique)
  next
    assume "\<exists>i<length (slots p). pick_scan available ?load (slots p) None (- 1) = Some (executor (slots p ! i)) \<and> ready (slots p ! i)
      \<and> available (executor (slots p ! i)) \<and> ?load (executor (slots p ! i)) < - 1
      \<and> (\<forall>j < length (slots p). ready (slots p ! j) \<and> available (executor (slots p ! j)) \<longrightarrow>
           ?load (executor (slots p ! i)) \<le> ?load (executor (slots p ! j))
           \<and> (j < i \<longrightarrow> ?load (executor (slots p ! i)) < ?load (executor (slots p ! j))))"
    then obtain i where "i < length (slots p)" "pick_scan available ?load (slots p) None (- 1) = Some (executor (slots p ! i))" "ready (slots p ! i)"
      "available (executor (slots p ! i))"
      "\<forall>j < length (slots p). ready (slots p ! j) \<and> available (executor (slots p ! j)) \<longrightarrow>
         ?load (executor (slots p ! i)) \<le> ?load (executor (slots p ! j)) \<and> (j < i \<longrightarrow> ?load (executor (slots p ! i)) < ?load (executor (slots p ! j)))"
      by blast
    then show ?thesis unfolding e using True by (simp, intro exI [of _ i]) simp
  qed
qed (simp add: pick_worker_def)

section \<open>The end of a drain\<close>

text \<open>What a drain still waits for: a spawn thread counts three (it may yet install a worker or record a failure), a failure
  to be recorded one, a worker that has not exited one, and the pump two before and one in its final section.\<close>

definition drain_work :: "world \<Rightarrow> nat" where
  "drain_work w = (\<Sum>t\<leftarrow>threads w. if snd t then 1 else 3) + length (filter (\<lambda>e. e \<notin> gone w) (map executor (slots (pool w))))
     + (if pool_state (pool w) = kDead then 0 else if finalizing w then 1 else 2)"

lemma record_instability_fleet:
  "record_instability i ob why p = Some q \<Longrightarrow> map executor (slots q) = map executor (slots p)"
  by (erule record_instability_Some) (auto simp: begin_quarantine_pool_def shut_all_def Let_def comp_def map_update list_update_same_conv)

lemma handle_executor_exit_fleet:
  "handle_executor_exit i now p = Some q \<Longrightarrow> map executor (slots q) = map executor (slots p)"
  by (auto simp: handle_executor_exit_def Let_def map_update list_update_same_conv dest!: record_instability_fleet split: if_splits)

lemma pump_events_fleet:
  assumes "pump_events has_exit now p = Some q" shows "map executor (slots q) = map executor (slots p)"
  by (rule pump_events_keeps [OF assms, of "\<lambda>r. map executor (slots r) = map executor (slots p)"])
     (auto dest: handle_executor_exit_fleet)

lemma abandon_fleet: "abandon i p = Some q \<Longrightarrow> map executor (slots q) = map executor (slots p)"
  by (auto simp: abandon_def map_update list_update_same_conv split: if_splits)

lemma install_fleet_draining:
  assumes "install_replacement i e now p = Some q" "pool_state p \<noteq> kActive"
  shows "map executor (slots q) = (map executor (slots p))[i := e]"
  using assms by (auto simp: install_replacement_def Let_def map_update split: if_splits)

lemma pump_sweep_fleet_draining:
  assumes "pump_sweep exited now now' p = (q, launched, complete)" "pool_state p \<noteq> kActive"
  shows "slots q = slots p"
  using assms by (auto simp: pump_sweep_def drain_sweep_def observe_stability_def Let_def split: if_splits)

lemma length_filter_update_le: "length (filter P (xs[i := x])) \<le> Suc (length (filter P xs))"
  by (induction xs arbitrary: i) (auto split: nat.splits)

lemma step_drain_work:
  assumes "gen_step v v'" "world_ok opts v" "pool_state (pool v) \<noteq> kActive"
  shows "drain_work v' \<le> drain_work v"
proof -
  have ok: "gen_ok opts (length (spawning v)) (pool v)" using assms(2) by (simp add: world_ok_def)
  then have st: "pool_state (pool v) = kDraining \<or> pool_state (pool v) = kDead"
    using assms(3) by (cases "pool_state (pool v)") (auto simp: gen_ok_def)
  have m: "pool_state q = pool_state (pool v)" if "moves (pool v) q" for q using that assms(3) by (auto simp: moves_def)
  show ?thesis
    using assms(1)
  proof (cases rule: gen_step.cases)
    case drain
    have "request_drain (pool v) = pool v" using st by (auto simp: request_drain_def)
    then show ?thesis using drain by (simp add: drain_work_def)
  next
    case (exit e)
    have "length (filter (\<lambda>x. x \<notin> insert e (gone v)) xs) \<le> length (filter (\<lambda>x. x \<notin> gone v) xs)" for xs
      by (induction xs) auto
    then show ?thesis using exit by (simp del: length_filter_map add: drain_work_def)
  next
    case (recycle e now b p)
    then have "p = pool v" using assms(3) by (simp add: recycle_worker_def)
    then show ?thesis using recycle(1) by (simp add: drain_work_def)
  next
    case (events has_exit now p)
    then show ?thesis using m [OF pump_events_moves [OF events(5)]] pump_events_fleet [OF events(5)] by (simp del: length_filter_map add: drain_work_def)
  next
    case (sweep now now' p launched complete)
    then show ?thesis using pump_sweep_ok [OF ok sweep(4)] pump_sweep_fleet_draining [OF sweep(4) assms(3)] assms(3)
      by (simp del: length_filter_map add: drain_work_def)
  next
    case finalize
    then show ?thesis by (simp del: length_filter_map add: drain_work_def finalize_drain_def)
  next
    case (give_up i p)
    then show ?thesis using m [OF abandon_moves [OF give_up(3)]] abandon_fleet [OF give_up(3)] sum_list_map_remove1 [OF give_up(2), of "\<lambda>t. if snd t then 1 else (3 :: nat)"]
      by (simp del: length_filter_map add: drain_work_def)
  next
    case (fails i p)
    then show ?thesis using m [OF abandon_moves [OF fails(3)]] abandon_fleet [OF fails(3)] sum_list_map_remove1 [OF fails(2), of "\<lambda>t. if snd t then 1 else (3 :: nat)"]
      by (simp del: length_filter_map add: drain_work_def)
  next
    case (failure_recorded i now p)
    note r = failure_recorded(3) [unfolded replacement_failed_def]
    show ?thesis
      using failure_recorded(1) m [OF record_instability_moves [OF r]] record_instability_fleet [OF r] sum_list_map_remove1 [OF failure_recorded(2), of "\<lambda>t. if snd t then 1 else (3 :: nat)"]
      by (simp del: length_filter_map add: drain_work_def)
  next
    case (install i now p)
    then show ?thesis
      using m [OF install_moves [OF install(3)]] install_fleet_draining [OF install(3) assms(3)] sum_list_map_remove1 [OF install(2), of "\<lambda>t. if snd t then 1 else (3 :: nat)"]
        length_filter_update_le [of "\<lambda>e. e \<notin> gone v" "map executor (slots (pool v))" i "next_executor v"]
      by (simp del: length_filter_map add: drain_work_def)
  qed
qed

lemma drain_progress:
  assumes ok: "world_ok opts v" and c: "cover_world v" and st: "pool_state (pool v) = kDraining"
  shows "\<exists>v'. gen_step v v' \<and> drain_work v' < drain_work v"
proof -
  consider "finalizing v" | i where "(i, False) \<in> set (threads v)"
    | s where "s \<in> set (slots (pool v))" "executor s \<notin> gone v"
    | "\<not> finalizing v" "spawning v = []" "\<forall>s \<in> set (slots (pool v)). executor s \<in> gone v"
    using in_spawners [of _ "threads v"] by (metis list.set_intros(1) neq_Nil_conv)
  then show ?thesis
  proof cases
    case 1
    then show ?thesis
      by (intro exI [of _ "v\<lparr>pool := finalize_drain (pool v), finalizing := False\<rparr>"] conjI gen_step.finalize)
         (simp_all del: length_filter_map add: drain_work_def finalize_drain_def st)
  next
    case (2 i)
    then have "i < length (slots (pool v))" using c in_spawners [of i "threads v"] by (auto simp: cover_world_def cover_ok_def)
    then obtain p where p: "abandon i (pool v) = Some p" by (simp add: abandon_def)
    then show ?thesis
      using 2 abandon_moves [OF p] abandon_fleet [OF p] sum_list_map_remove1 [OF 2, of "\<lambda>t. if snd t then 1 else (3 :: nat)"] st
      by (intro exI [of _ "v\<lparr>pool := p, threads := remove1 (i, False) (threads v)\<rparr>"] conjI gen_step.give_up)
         (simp_all del: length_filter_map add: drain_work_def moves_def)
  next
    case (3 s)
    have "length (filter (\<lambda>x. x \<notin> insert e (gone v)) xs) < length (filter (\<lambda>x. x \<notin> gone v) xs)" if "e \<in> set xs" "e \<notin> gone v" for e xs
    proof -
      have e: "filter (\<lambda>x. x \<notin> insert e (gone v)) xs = filter (\<lambda>x. x \<noteq> e) (filter (\<lambda>x. x \<notin> gone v) xs)"
        by (auto intro: filter_cong)
      show ?thesis unfolding e by (rule length_filter_less [of e]) (use that in simp_all)
    qed
    from this [of "executor s" "map executor (slots (pool v))"] 3 show ?thesis
      by (intro exI [of _ "v\<lparr>gone := insert (executor s) (gone v)\<rparr>"] conjI gen_step.exit) (simp_all del: length_filter_map add: drain_work_def)
  next
    case 4
    have gk: "gen_ok opts (length (spawning v)) (pool v)" using ok by (simp add: world_ok_def)
    obtain p ls b where r: "pump_sweep (\<lambda>e. e \<in> gone v) 0 0 (pool v) = (p, ls, b)" by (metis prod_cases3)
    with pump_sweep_ok [OF gk r] 4 st have "ls = []" b "pool_state p = kDraining"
      by (auto simp: fleet_exited_def list_all_iff)
    with r 4 st pump_sweep_fleet_draining [OF r] show ?thesis
      by (intro exI [of _ "v\<lparr>pool := p, threads := threads v @ map (\<lambda>i. (i, False)) ls, finalizing := b\<rparr>"] conjI gen_step.sweep)
         (simp_all del: length_filter_map add: drain_work_def)
  qed
qed


section \<open>Two runs of a pool with one worker\<close>

definition sample_pool :: pool_options where
  "sample_pool = \<lparr>application_id = application sample_document, pool_version = version sample_document,
     generation_digest = generation sample_document, workers = 1, pool_recovery = sample_recovery_policy, has_factory = True\<rparr>"

lemma sample_pool_one: "replacements_concurrent_per_app (pool_recovery sample_pool) = 1"
  by (simp add: sample_pool_def sample_recovery_policy_def)

abbreviation (input) world_of :: "generation_pool \<Rightarrow> (nat \<times> bool) list \<Rightarrow> executor \<Rightarrow> executor set \<Rightarrow> world" where
  "world_of p ts n g \<equiv> \<lparr>pool = p, threads = ts, next_executor = n, gone = g, finalizing = False\<rparr>"

lemma sample_created: "pool_reachable sample_pool (world_of (fresh_pool sample_pool 1) [] 1 {})"
proof -
  have "create_pool sample_pool (\<lambda>_. True) 1 = Inr (True, fresh_pool sample_pool 1)" by code_simp
  from pool_reachable.start [OF this] show ?thesis by (simp add: created_def fresh_pool_def sample_pool_def)
qed

text \<open>First run: the worker is recycled, its replacement installed, and the replacement crashes.\<close>

definition recycled_pool :: generation_pool where
  "recycled_pool = snd (the (recycle_worker 0 10 (fresh_pool sample_pool 1)))"

definition spawning_pool :: generation_pool where
  "spawning_pool = fst (pump_sweep (\<lambda>e. e \<in> {}) 200 200 recycled_pool)"

definition replaced_pool :: generation_pool where
  "replaced_pool = the (install_replacement 0 1 210 spawning_pool)"

definition lost_pool :: generation_pool where
  "lost_pool = the (pump_events (\<lambda>e. e = 1) 300 replaced_pool)"

lemma recycle_run:
  "recycle_worker 0 10 (fresh_pool sample_pool 1) = Some (True, recycled_pool)"
  "pump_sweep (\<lambda>e. e \<in> {}) 200 200 recycled_pool = (spawning_pool, [0], False)" "pool_state recycled_pool = kActive"
  "install_replacement 0 1 210 spawning_pool = Some replaced_pool"
  "pump_events (\<lambda>e. e = 1) 300 replaced_pool = Some lost_pool" "pool_state replaced_pool = kActive"
  by code_simp+

lemma spawning_reachable: "pool_reachable sample_pool (world_of spawning_pool [(0, False)] 1 {})"
proof -
  have "pool_reachable sample_pool (world_of recycled_pool [] 1 {})"
    using pool_reachable.step [OF sample_created gen_step.recycle [of 0 10 _ True recycled_pool]] recycle_run by simp
  from pool_reachable.step [OF this gen_step.sweep [of _ 200 200 spawning_pool "[0]" False]] recycle_run show ?thesis by simp
qed

lemma lost_reachable: "pool_reachable sample_pool (world_of lost_pool [] 2 {1})"
proof -
  have "pool_reachable sample_pool (world_of replaced_pool [] 2 {})"
    using pool_reachable.step [OF spawning_reachable gen_step.install [of 0 _ 210 replaced_pool]] recycle_run by (simp add: numeral_2_eq_2)
  from pool_reachable.step [OF this gen_step.exit [of _ 1]] have "pool_reachable sample_pool (world_of replaced_pool [] 2 {1})" by simp
  from pool_reachable.step [OF this gen_step.events [of _ "\<lambda>e. e = 1" 300 lost_pool]] recycle_run show ?thesis by simp
qed

text \<open>Second run: the worker crashes, the spawn of its replacement fails, and the pool is drained before the failure is recorded.\<close>

definition crashed_pool :: generation_pool where
  "crashed_pool = the (pump_events (\<lambda>e. e = 0) 10 (fresh_pool sample_pool 1))"

definition retrying_pool :: generation_pool where
  "retrying_pool = fst (pump_sweep (\<lambda>e. e \<in> {0}) 200 200 crashed_pool)"

definition draining_pool :: generation_pool where
  "draining_pool = request_drain (the (abandon 0 retrying_pool))"

definition drained_pool :: generation_pool where
  "drained_pool = fst (pump_sweep (\<lambda>e. e \<in> {0}) 300 300 draining_pool)"

lemma failure_run:
  "pump_events (\<lambda>e. e = 0) 10 (fresh_pool sample_pool 1) = Some crashed_pool" "pool_state (fresh_pool sample_pool 1) = kActive"
  "pump_sweep (\<lambda>e. e \<in> {0}) 200 200 crashed_pool = (retrying_pool, [0], False)" "pool_state crashed_pool = kActive"
  "abandon 0 retrying_pool = Some (the (abandon 0 retrying_pool))" "pool_state draining_pool = kDraining"
  "pump_sweep (\<lambda>e. e \<in> {0}) 300 300 draining_pool = (drained_pool, [], True)"
  by code_simp+

lemma draining_reachable: "pool_reachable sample_pool (world_of draining_pool [(0, True)] 1 {0})"
proof -
  from pool_reachable.step [OF sample_created gen_step.exit [of _ 0]]
  have "pool_reachable sample_pool (world_of (fresh_pool sample_pool 1) [] 1 {0})" by simp
  from pool_reachable.step [OF this gen_step.events [of _ "\<lambda>e. e = 0" 10 crashed_pool]] failure_run
  have "pool_reachable sample_pool (world_of crashed_pool [] 1 {0})" by simp
  from pool_reachable.step [OF this gen_step.sweep [of _ 200 200 retrying_pool "[0]" False]] failure_run
  have "pool_reachable sample_pool (world_of retrying_pool [(0, False)] 1 {0})" by simp
  from pool_reachable.step [OF this gen_step.fails [of 0 _ "the (abandon 0 retrying_pool)"]] failure_run
  have "pool_reachable sample_pool (world_of (the (abandon 0 retrying_pool)) [(0, True)] 1 {0})" by simp
  from pool_reachable.step [OF this gen_step.drain] show ?thesis by (simp add: draining_pool_def)
qed

lemma draining_steps:
  "gen_step\<^sup>*\<^sup>* (world_of draining_pool [(0, True)] 1 {0}) (world_of (finalize_drain drained_pool) [(0, True)] 1 {0})"
proof -
  have "gen_step (world_of draining_pool [(0, True)] 1 {0}) ((world_of drained_pool [(0, True)] 1 {0})\<lparr>finalizing := True\<rparr>)"
    using gen_step.sweep [of "world_of draining_pool [(0, True)] 1 {0}" 300 300 drained_pool "[]" True] failure_run by simp
  moreover have "gen_step ((world_of drained_pool [(0, True)] 1 {0})\<lparr>finalizing := True\<rparr>)
      (world_of (finalize_drain drained_pool) [(0, True)] 1 {0})"
    using gen_step.finalize [of "(world_of drained_pool [(0, True)] 1 {0})\<lparr>finalizing := True\<rparr>"] by simp
  ultimately show ?thesis by auto
qed

lemma reachable_steps: "gen_step\<^sup>*\<^sup>* w w' \<Longrightarrow> pool_reachable opts w \<Longrightarrow> pool_reachable opts w'"
  by (induction rule: rtranclp_induct) (auto intro: pool_reachable.step)


theorem drain_completes_witness:
  "pool_state draining_pool = kDraining \<and> (\<exists>p. pump_sweep (\<lambda>e. e \<in> {0}) 300 300 draining_pool = (p, [], True) \<and> slots (finalize_drain p) = [])"
proof -
  have "executor s = 0" if "s \<in> set (slots draining_pool)" for s
  proof -
    have "list_all (\<lambda>s. executor s = 0) (slots draining_pool)" by code_simp
    with that show ?thesis by (simp add: list_all_iff)
  qed
  with drain_completes [OF draining_reachable] failure_run(6) show ?thesis by (fastforce simp: spawners_def)
qed

theorem drained_pool_never_spawns_witness:
  "pool_state (finalize_drain drained_pool) \<noteq> kActive \<and> count_list (calls (finalize_drain drained_pool)) OnDrainComplete = 1"
  using drained_pool_never_spawns [OF draining_reachable _ draining_steps] failure_run(6) by (simp add: finalize_drain_def)


text \<open>Of two workers with five and three requests in flight, the second one is picked.\<close>

theorem pick_is_least_loaded_witness:
  "pick_worker (\<lambda>_. True) (\<lambda>e. if e = 0 then 5 else 3) (\<lambda>_. 0) (fresh_pool (sample_pool\<lparr>workers := 2\<rparr>) 1) = Some 1
   \<and> pool_state (fresh_pool (sample_pool\<lparr>workers := 2\<rparr>) 1) = kActive"
proof -
  have e: "pick_worker (\<lambda>_. True) (\<lambda>e. if e = 0 then 5 else 3) (\<lambda>_. 0) (fresh_pool (sample_pool\<lparr>workers := 2\<rparr>) 1) = Some 1"
    by code_simp
  show ?thesis
    using e pick_is_least_loaded [where available = "\<lambda>_. True" and inflight = "\<lambda>e. if e = 0 then 5 else 3"
        and client_bytes = "\<lambda>_. 0" and p = "fresh_pool (sample_pool\<lparr>workers := 2\<rparr>) 1"]
    unfolding e by simp
qed

text \<open>C38: A replacement that takes over the slot of a recycled worker inherits the mark that its shutdown was requested. When
  it crashes, the exit counts as expected: a pool of one worker stays active with no worker, although this one was never told to
  shut down, and no replacement is scheduled, under way or ever launched by the pump.\<close>

theorem recycled_slot_is_lost:
  "\<exists>w. pool_reachable sample_pool w \<and> pool_state (pool w) = kActive \<and> ready_workers (pool w) = 0
     \<and> RequestShutdown (executor (slots (pool w) ! 0)) \<notin> set (calls (pool w))
     \<and> replacements_scheduled (pool w) = 0 \<and> threads w = []
     \<and> (\<forall>exited now now'. fst (snd (pump_sweep exited now now' (pool w))) = [])"
proof (intro exI conjI)
  show "pool_reachable sample_pool (world_of lost_pool [] 2 {1})" by (rule lost_reachable)
  show "pool_state (pool (world_of lost_pool [] 2 {1})) = kActive" "ready_workers (pool (world_of lost_pool [] 2 {1})) = 0"
    "RequestShutdown (executor (slots (pool (world_of lost_pool [] 2 {1})) ! 0)) \<notin> set (calls (pool (world_of lost_pool [] 2 {1})))"
    "replacements_scheduled (pool (world_of lost_pool [] 2 {1})) = 0"
    by code_simp+
  have "pool_state lost_pool = kActive" "replacement_due_ms lost_pool = [0]" "length (slots lost_pool) = 1" by code_simp+
  then show "\<forall>exited now now'. fst (snd (pump_sweep exited now now' (pool (world_of lost_pool [] 2 {1})))) = []"
    by (simp add: pump_sweep_def observe_stability_def launch_due_def Let_def split: prod.splits)
qed simp

text \<open>C39: The failure of a replacement is recorded in a second critical section, after the one that released its bookkeeping. A
  drain can be completed in between, which empties the slots; the failure is then recorded for a slot that no longer exists, an
  access out of range.\<close>

theorem late_failure_out_of_range:
  "\<exists>w now. pool_reachable sample_pool w \<and> pool_state (pool w) = kDead \<and> (0, True) \<in> set (threads w)
     \<and> replacement_failed 0 now (pool w) = None"
proof (intro exI conjI)
  show "pool_reachable sample_pool (world_of (finalize_drain drained_pool) [(0, True)] 1 {0})"
    by (rule reachable_steps [OF draining_steps draining_reachable])
  show "replacement_failed 0 310 (pool (world_of (finalize_drain drained_pool) [(0, True)] 1 {0})) = None" by code_simp
qed (simp_all add: finalize_drain_def)

end
