(* ===== verification/Listener_Cors.thy ===== *)
theory Listener_Cors
  imports Request_Normalization
begin

text \<open>
  Cross-origin requests at the listener (\<open>src/host/listener_cors.cc\<close>): the classification of a request, the answer to a
  preflight, and what the listener makes of the CORS fields of a worker's response. The HTTP message class is
  not part of the repository: of a request the model has the values of its Origin fields in order, whether its method is OPTIONS, and
  what \<open>operator[]\<close> gives for the two \<open>Access-Control-Request-*\<close> fields; of a synthesized response it has the
  fields that are set, in order, given the value its Vary field reads as.
\<close>

section \<open>Text\<close>

definition ascii_lower_text :: "string \<Rightarrow> string" where
  "ascii_lower_text s = map (\<lambda>c. if CHR ''A'' \<le> c \<and> c \<le> CHR ''Z'' then char_of (of_char c - 65 + 97 :: nat) else c) s"

definition ascii_case_equal :: "string \<Rightarrow> string \<Rightarrow> bool" where
  "ascii_case_equal l r \<longleftrightarrow> length l = length r \<and> list_all2 (\<lambda>a b. ascii_lower_char a = ascii_lower_char b) l r"

definition ascii_upper_char :: "char \<Rightarrow> char" where
  "ascii_upper_char c = (if CHR ''a'' \<le> c \<and> c \<le> CHR ''z'' then char_of (of_char c - 97 + 65 :: nat) else c)"

definition is_http_tchar :: "char \<Rightarrow> bool" where
  "is_http_tchar c \<longleftrightarrow> (CHR ''a'' \<le> c \<and> c \<le> CHR ''z'') \<or> (CHR ''A'' \<le> c \<and> c \<le> CHR ''Z'') \<or> (CHR ''0'' \<le> c \<and> c \<le> CHR ''9'')
     \<or> c \<in> set ''!#$%&*+-.^_`|~'' \<or> c = CHR 0x27"

fun find_scheme :: "string \<Rightarrow> (string \<times> string) option" where
  "find_scheme [] = None"
| "find_scheme (c # s) =
     (if prefix ''://'' (c # s) then Some ([], drop 3 (c # s)) else map_option (\<lambda>(a, b). (c # a, b)) (find_scheme s))"

definition valid_cors_origin :: "string \<Rightarrow> bool" where
  "valid_cors_origin v =
     (if v = ''*'' then True
      else case find_scheme v of
        None \<Rightarrow> False
      | Some (scheme, rest) \<Rightarrow>
          let scheme = ascii_lower_text scheme in
          if scheme \<noteq> ''http'' \<and> scheme \<noteq> ''https'' then False else is_valid_public_authority rest)"

definition valid_cors_method_token :: "string \<Rightarrow> bool" where
  "valid_cors_method_token v = (if v = '''' then False else list_all is_http_tchar v)"

definition valid_cors_header_token :: "string \<Rightarrow> bool" where
  "valid_cors_header_token v = (if v = '''' then False else list_all is_http_tchar v)"

section \<open>Classification\<close>

record cors_config =
  cors_configured :: bool
  allowed_origins :: "string list"
  allowed_methods :: "string list"
  allowed_headers :: "string list"
  max_age_ms :: u64

datatype cors_decision = kProceed | kBadRequest | kPreflightAllowed | kPreflightRejected

record listener_cors =
  cors_options :: cors_config
  origin_seen :: bool
  wildcard :: bool
  origin_allowed :: bool
  origin :: string
  cors_decision :: cors_decision

record cors_request =
  origin_fields :: "string list"
  is_options :: bool
  requested_method :: string
  requested_headers :: string

definition ListenerCors :: "cors_config \<Rightarrow> listener_cors" where
  "ListenerCors c = \<lparr>cors_options = c, origin_seen = False,
     wildcard = (length (allowed_origins c) = 1 \<and> allowed_origins c ! 0 = ''*''),
     origin_allowed = False, origin = '''', cors_decision = kProceed\<rparr>"

text \<open>The loop over the Origin fields: the first value that is not empty, and the number of fields.\<close>

fun scan_origins :: "string list \<Rightarrow> string \<Rightarrow> u32 \<Rightarrow> string \<times> u32" where
  "scan_origins [] orig cnt = (orig, cnt)"
| "scan_origins (v # vs) orig cnt = scan_origins vs (if orig = '''' then v else orig) (cnt + 1)"

definition requested_header_ok :: "cors_config \<Rightarrow> string \<Rightarrow> bool" where
  "requested_header_ok c item =
     (let name = ascii_lower_text (trim item) in
      \<not> (name = '''' \<or> \<not> valid_cors_header_token name \<or> name \<notin> set (allowed_headers c)))"

definition requested_headers_ok :: "cors_config \<Rightarrow> string \<Rightarrow> bool" where
  "requested_headers_ok c hs \<longleftrightarrow>
     hs = '''' \<or> each_piece (CHR '','') (\<lambda>item. if requested_header_ok c item then None else Some ()) hs = None"

definition cors_prepare :: "cors_request \<Rightarrow> listener_cors \<Rightarrow> listener_cors" where
  "cors_prepare req l =
     (let l = l\<lparr>origin_seen := False, origin_allowed := False, origin := '''', cors_decision := kProceed\<rparr>;
          c = cors_options l;
          (orig, cnt) = scan_origins (origin_fields req) '''' 0 in
      if cnt > 1 then l\<lparr>cors_decision := kBadRequest\<rparr>
      else let l = l\<lparr>origin_seen := orig \<noteq> '''',
                     origin_allowed := orig \<noteq> '''' \<and> (wildcard l \<or> list_ex (\<lambda>configured. ascii_case_equal configured orig) (allowed_origins c))\<rparr>;
               l = (if origin_allowed l then l\<lparr>origin := orig\<rparr> else l) in
      if is_options req \<and> orig \<noteq> '''' \<and> requested_method req \<noteq> ''''
      then let allowed = origin_allowed l;
               allowed = (if allowed then map ascii_upper_char (requested_method req) \<in> set (allowed_methods c) else allowed);
               allowed = (if allowed then requested_headers_ok c (requested_headers req) else allowed) in
        l\<lparr>cors_decision := (if allowed then kPreflightAllowed else kPreflightRejected)\<rparr>
      else l)"

section \<open>Answers\<close>

datatype http_field = Access_Control_Allow_Origin | Vary | Access_Control_Allow_Methods | Access_Control_Allow_Headers
  | Access_Control_Max_Age | Content_Type

text \<open>The value the Vary field of a synthesized response is set to, if it has no Origin token yet.\<close>

definition stamp_vary_origin :: "string \<Rightarrow> (http_field \<times> string) list" where
  "stamp_vary_origin existing =
     (if each_piece (CHR '','') (\<lambda>item. if ascii_case_equal (trim item) ''origin'' then Some () else None) existing \<noteq> None then []
      else [(Vary, if existing = '''' then ''Origin'' else existing @ '', Origin'')])"

fun join_comma :: "string list \<Rightarrow> string \<Rightarrow> string" where
  "join_comma [] acc = acc"
| "join_comma (t # ts) acc = join_comma ts ((if acc \<noteq> '''' then acc @ '', '' else acc) @ t)"

record preflight_answer =
  status :: nat
  fields_set :: "(http_field \<times> string) list"
  answer_body :: string

definition build_preflight :: "string \<Rightarrow> listener_cors \<Rightarrow> preflight_answer" where
  "build_preflight existing l =
     (let c = cors_options l in
      if cors_decision l = kPreflightAllowed
      then \<lparr>status = 204,
            fields_set = [(Access_Control_Allow_Origin, origin l), (Vary, ''Origin''),
                (Access_Control_Allow_Methods, join_comma (allowed_methods c) ''''),
                (Access_Control_Allow_Headers, join_comma (allowed_headers c) '''')]
              @ (if max_age_ms c > 0 then [(Access_Control_Max_Age, to_string (unat (max_age_ms c div 1000)))] else []),
            answer_body = ''''\<rparr>
      else \<lparr>status = 403, fields_set = (Content_Type, ''text/plain'') # (if origin_seen l then stamp_vary_origin existing else []),
            answer_body = ''CORS preflight rejected''\<rparr>)"

definition cors_stamp :: "string \<Rightarrow> listener_cors \<Rightarrow> (http_field \<times> string) list" where
  "cors_stamp existing l =
     (if origin_allowed l then [(Access_Control_Allow_Origin, origin l)] else [])
     @ (if origin_seen l then stamp_vary_origin existing else [])"

section \<open>Worker responses\<close>

type_synonym header_pair = "string \<times> string"

text \<open>The tokens of one Vary value: the pieces between the commas, without blanks, unless empty, in lower case.\<close>

definition vary_tokens :: "string \<Rightarrow> string list" where
  "vary_tokens v = map (\<lambda>item. ascii_lower_text (trim item)) (filter (\<lambda>item. trim item \<noteq> '''') (pieces (CHR '','') v))"

fun collect_vary :: "header_pair list \<Rightarrow> string list \<Rightarrow> header_pair list \<Rightarrow> string list \<times> header_pair list" where
  "collect_vary [] tokens filtered = (tokens, filtered)"
| "collect_vary ((name, v) # hs) tokens filtered =
     (if ascii_lower_text name \<noteq> ''vary'' then collect_vary hs tokens (filtered @ [(name, v)])
      else collect_vary hs (tokens @ vary_tokens v) filtered)"

definition merge_vary_origin :: "header_pair list \<Rightarrow> header_pair list" where
  "merge_vary_origin hs =
     (let (tokens, filtered) = collect_vary hs [] [];
          tokens = (if list_ex (\<lambda>t. t = ''origin'') tokens then tokens else tokens @ [''origin'']) in
      filtered @ [(''Vary'', join_comma tokens '''')])"

definition keep_cors_field :: "bool \<Rightarrow> header_pair \<Rightarrow> bool" where
  "keep_cors_field exact_origin hdr =
     (let lower = ascii_lower_text (fst hdr) in
      if lower = ''access-control-allow-origin'' then False
      else if lower = ''access-control-allow-credentials'' \<and> \<not> exact_origin then False
      else True)"

definition filter_headers :: "listener_cors \<Rightarrow> header_pair list \<Rightarrow> header_pair list" where
  "filter_headers l hs =
     (let exact_origin = (origin_allowed l \<and> origin_seen l \<and> \<not> wildcard l);
          cors_filtered = filter (keep_cors_field exact_origin) hs
            @ (if origin_allowed l then [(''access-control-allow-origin'', origin l)] else []) in
      merge_vary_origin cors_filtered)"

section \<open>Facts about text\<close>

lemma ascii_lower_text_eq: "ascii_lower_text s = lowered s"
  by (simp add: ascii_lower_text_def ascii_lower_char_def)

lemma ascii_case_equal_eq: "ascii_case_equal l r \<longleftrightarrow> lowered l = lowered r"
  by (auto simp: ascii_case_equal_def list_all2_conv_all_nth list_eq_iff_nth_eq)

lemma lower_char_idem [simp]: "ascii_lower_char (ascii_lower_char c) = ascii_lower_char c"
proof (cases "CHR ''A'' \<le> c \<and> c \<le> CHR ''Z''")
  case True
  then have n: "65 \<le> (of_char c :: nat)" "(of_char c :: nat) \<le> 90" by (auto simp: less_eq_char_def)
  then have "\<not> char_of (of_char c - 65 + 97 :: nat) \<le> CHR ''Z''" by (simp add: less_eq_char_def)
  then show ?thesis using True by (simp add: ascii_lower_char_def)
qed (auto simp: ascii_lower_char_def)

lemma lower_char_keeps:
  assumes "(of_char d :: nat) < 65"
  shows "ascii_lower_char c = d \<longleftrightarrow> c = d"
proof (cases "CHR ''A'' \<le> c \<and> c \<le> CHR ''Z''")
  case True
  then have n: "65 \<le> (of_char c :: nat)" "(of_char c :: nat) \<le> 90" by (auto simp: less_eq_char_def)
  then have "(of_char (char_of (of_char c - 65 + 97 :: nat)) :: nat) = of_char c + 32" by simp
  with n assms True show ?thesis by (auto simp: ascii_lower_char_def)
qed (auto simp: ascii_lower_char_def)

lemma is_ows_lower [simp]: "is_ows (ascii_lower_char c) = is_ows c"
  by (simp add: is_ows_def lower_char_keeps)

lemma lowered_no_comma: "CHR '','' \<in> set (lowered s) \<longleftrightarrow> CHR '','' \<in> set s"
  by (induction s) (auto simp: lower_char_keeps eq_commute [of "CHR '',''"])

lemma trim_lowered: "trim (lowered s) = lowered (trim s)"
  by (simp add: trim_def dropWhile_map comp_def rev_map)

lemma trim_Cons_blank: "is_ows c \<Longrightarrow> trim (c # s) = trim s"
  by (simp add: trim_def)

lemma trim_trim [simp]: "trim (trim s) = trim s"
proof -
  let ?t = "dropWhile is_ows s"
  have d: "dropWhile is_ows (dropWhile is_ows xs) = dropWhile is_ows xs" for xs by (induction xs) auto
  show ?thesis
  proof (cases "trim s")
    case (Cons c cs)
    have "?t = trim s @ rev (takeWhile is_ows (rev ?t))"
      unfolding trim_def by (metis rev_append rev_rev_ident takeWhile_dropWhile_id)
    with Cons have "?t = c # cs @ rev (takeWhile is_ows (rev ?t))" by simp
    then have "\<not> is_ows c" by (metis dropWhile_eq_Cons_conv)
    then have "dropWhile is_ows (trim s) = trim s" using Cons by simp
    then have "trim (trim s) = rev (dropWhile is_ows (rev (trim s)))" by (simp add: trim_def)
    also have "\<dots> = trim s" by (simp add: trim_def d)
    finally show ?thesis .
  next
    case Nil
    show ?thesis unfolding Nil by (simp add: trim_def)
  qed
qed

lemma set_trim: "set (trim s) \<subseteq> set s"
  by (auto simp: trim_def dest!: set_dropWhileD)

section \<open>Token lists\<close>

abbreviation (input) tokens_of :: "string \<Rightarrow> string set" where
  "tokens_of v \<equiv> (\<lambda>x. lowered (trim x)) ` set (pieces (CHR '','') v)"

lemma tokens_join:
  assumes "acc \<noteq> ''''" "\<forall>t \<in> set ts. CHR '','' \<notin> set t"
  shows "tokens_of (join_comma ts acc) = tokens_of acc \<union> (\<lambda>t. lowered (trim t)) ` set ts"
  using assms
proof (induction ts arbitrary: acc)
  case (Cons t ts)
  have "pieces (CHR '','') (acc @ '', '' @ t) = pieces (CHR '','') acc @ [CHR '' '' # t]"
    using Cons.prems(2) pieces_append_sep [of "CHR '',''" acc "CHR '' '' # t"] by (simp add: pieces_no_sep)
  with Cons show ?case by (auto simp: trim_Cons_blank is_ows_def)
qed simp

text \<open>A list of tokens as \<open>merge_vary_origin\<close> keeps it.\<close>

definition plain_tokens :: "string list \<Rightarrow> bool" where
  "plain_tokens ts \<longleftrightarrow> (\<forall>t \<in> set ts. t \<noteq> '''' \<and> CHR '','' \<notin> set t \<and> lowered (trim t) = t)"

lemma has_token_join:
  assumes "plain_tokens ts" "ts \<noteq> []"
  shows "header_value_has_token (join_comma ts '''') x \<longleftrightarrow> lowered x \<in> set ts"
proof -
  obtain t us where ts: "ts = t # us" using assms(2) by (cases ts) auto
  have "(\<lambda>t. lowered (trim t)) ` set us = set us" "lowered (trim t) = t" "t \<noteq> ''''" "CHR '','' \<notin> set t"
    using assms(1) ts by (force simp: plain_tokens_def)+
  then have "tokens_of (join_comma ts '''') = set ts"
    using tokens_join [of t us] assms(1) ts by (auto simp: plain_tokens_def pieces_no_sep)
  then show ?thesis by (simp add: has_token_iff)
qed

lemma plain_vary_tokens: "plain_tokens (vary_tokens v)"
  unfolding plain_tokens_def
proof
  fix t assume "t \<in> set (vary_tokens v)"
  then obtain x where x: "x \<in> set (pieces (CHR '','') v)" "trim x \<noteq> ''''" "t = lowered (trim x)"
    by (auto simp: vary_tokens_def ascii_lower_text_eq)
  then show "t \<noteq> '''' \<and> CHR '','' \<notin> set t \<and> lowered (trim t) = t"
    using sep_not_in_pieces [OF x(1)] set_trim [of x] by (auto simp: trim_lowered lower_char_keeps comp_def eq_commute [of "CHR '',''"])
qed

lemma vary_token_iff:
  "t \<in> set (vary_tokens v) \<longleftrightarrow> t \<noteq> '''' \<and> t \<in> tokens_of v"
  by (force simp: vary_tokens_def ascii_lower_text_eq)

section \<open>What the listener decides\<close>

definition the_origin :: "cors_request \<Rightarrow> string" where
  "the_origin req = (case origin_fields req of [v] \<Rightarrow> v | _ \<Rightarrow> '''')"

definition origin_listed :: "cors_config \<Rightarrow> string \<Rightarrow> bool" where
  "origin_listed c v \<longleftrightarrow> v \<noteq> '''' \<and> (allowed_origins c = [''*''] \<or> (\<exists>a \<in> set (allowed_origins c). lowered a = lowered v))"

lemma scan_origins_count: "snd (scan_origins vs orig cnt) = cnt + of_nat (length vs)"
  by (induction vs arbitrary: orig cnt) auto

lemma scan_origins_one: "length vs \<le> 1 \<Longrightarrow> fst (scan_origins vs '''' 0) = (case vs of [v] \<Rightarrow> v | _ \<Rightarrow> '''')"
  by (cases vs; cases "tl vs"; auto)

lemma origin_count_iff:
  assumes "length vs < 2 ^ 32"
  shows "snd (scan_origins vs '''' 0) > 1 \<longleftrightarrow> length vs > 1"
  using assms by (simp add: scan_origins_count word_less_nat_alt unsigned_of_nat take_bit_nat_eq_self)

lemma requested_headers_iff:
  "requested_headers_ok c hs \<longleftrightarrow> hs = '''' \<or> (\<forall>item \<in> set (pieces (CHR '','') hs). requested_header_ok c item)"
  by (auto simp: requested_headers_ok_def each_piece_None split: if_splits)

lemma cors_prepare_fields:
  fixes c req defines "l \<equiv> cors_prepare req (ListenerCors c)"
  assumes "length (origin_fields req) < 2 ^ 32"
  shows "cors_options l = c" "wildcard l \<longleftrightarrow> allowed_origins c = [''*'']" "origin_seen l \<longleftrightarrow> the_origin req \<noteq> ''''"
    "origin_allowed l \<longleftrightarrow> origin_listed c (the_origin req)" "origin_allowed l \<Longrightarrow> origin l = the_origin req"
    "cors_decision l = (if length (origin_fields req) > 1 then kBadRequest
       else if is_options req \<and> the_origin req \<noteq> '''' \<and> requested_method req \<noteq> ''''
       then if origin_listed c (the_origin req) \<and> map ascii_upper_char (requested_method req) \<in> set (allowed_methods c)
              \<and> requested_headers_ok c (requested_headers req) then kPreflightAllowed else kPreflightRejected
       else kProceed)"
proof -
  have w: "length (allowed_origins c) = 1 \<and> allowed_origins c ! 0 = ''*'' \<longleftrightarrow> allowed_origins c = [''*'']"
    by (cases "allowed_origins c") auto
  obtain orig cnt where s: "scan_origins (origin_fields req) '''' 0 = (orig, cnt)" by fastforce
  have n: "cnt > 1 \<longleftrightarrow> length (origin_fields req) > 1" using origin_count_iff [OF assms(2)] s by simp
  have o: "the_origin req = orig" if "\<not> cnt > 1"
    using scan_origins_one [of "origin_fields req"] that n s by (simp add: the_origin_def)
  have b: "the_origin req = ''''" if "cnt > 1"
    using that n by (auto simp: the_origin_def split: list.splits)
  show "cors_options l = c" "wildcard l \<longleftrightarrow> allowed_origins c = [''*'']" "origin_seen l \<longleftrightarrow> the_origin req \<noteq> ''''"
    "origin_allowed l \<longleftrightarrow> origin_listed c (the_origin req)" "origin_allowed l \<Longrightarrow> origin l = the_origin req"
    unfolding l_def cors_prepare_def ListenerCors_def s w
    using o b by (auto simp: Let_def origin_listed_def list_ex_iff ascii_case_equal_eq)
  show "cors_decision l = (if length (origin_fields req) > 1 then kBadRequest
       else if is_options req \<and> the_origin req \<noteq> '''' \<and> requested_method req \<noteq> ''''
       then if origin_listed c (the_origin req) \<and> map ascii_upper_char (requested_method req) \<in> set (allowed_methods c)
              \<and> requested_headers_ok c (requested_headers req) then kPreflightAllowed else kPreflightRejected
       else kProceed)"
    unfolding l_def cors_prepare_def ListenerCors_def s w
    using o n by (auto simp: Let_def origin_listed_def list_ex_iff ascii_case_equal_eq)
qed

definition is_field :: "string \<Rightarrow> header_pair \<Rightarrow> bool" where
  "is_field name hdr \<longleftrightarrow> lowered (fst hdr) = name"

lemma collect_vary_eq:
  "collect_vary hs tokens filtered
     = (tokens @ concat (map (\<lambda>fld. vary_tokens (snd fld)) (filter (is_field ''vary'') hs)), filtered @ filter (\<lambda>fld. \<not> is_field ''vary'' fld) hs)"
  by (induction hs tokens filtered rule: collect_vary.induct) (simp_all only: collect_vary.simps is_field_def ascii_lower_text_eq, simp_all)

lemma plain_tokens_concat: "plain_tokens (concat (map (\<lambda>fld. vary_tokens (snd fld)) hs))"
  using plain_vary_tokens by (fastforce simp: plain_tokens_def)

lemma merge_vary:
  obtains v where "merge_vary_origin hs = filter (\<lambda>fld. \<not> is_field ''vary'' fld) hs @ [(''Vary'', v)]"
    and "header_value_has_token v ''origin''"
    and "\<And>fld t. fld \<in> set hs \<Longrightarrow> is_field ''vary'' fld \<Longrightarrow> t \<noteq> '''' \<Longrightarrow> header_value_has_token (snd fld) t \<Longrightarrow> header_value_has_token v t"
proof -
  define ts where "ts = concat (map (\<lambda>fld. vary_tokens (snd fld)) (filter (is_field ''vary'') hs))"
  define us where "us = (if list_ex (\<lambda>t. t = ''origin'') ts then ts else ts @ [''origin''])"
  have orig: "lowered ''origin'' = ''origin''" and o: "plain_tokens [''origin'']" by code_simp+
  have in_us: "set us = insert ''origin'' (set ts)" unfolding us_def by (auto simp only: list_ex_iff set_append list.set split: if_splits)
  have "plain_tokens ts" unfolding ts_def by (rule plain_tokens_concat)
  with o have p: "plain_tokens us" unfolding plain_tokens_def in_us list.set by blast
  have ne: "us \<noteq> []" using in_us by auto
  have has: "header_value_has_token (join_comma us '''') x \<longleftrightarrow> lowered x \<in> set us" for x by (rule has_token_join [OF p ne])
  show ?thesis
  proof (rule that)
    show "merge_vary_origin hs = filter (\<lambda>fld. \<not> is_field ''vary'' fld) hs @ [(''Vary'', join_comma us '''')]"
      by (simp only: merge_vary_origin_def collect_vary_eq Let_def split ts_def [symmetric] us_def append_Nil)
    show "header_value_has_token (join_comma us '''') ''origin''" unfolding has orig in_us by (rule insertI1)
    fix fld t assume a: "fld \<in> set hs" "is_field ''vary'' fld" "t \<noteq> ''''" "header_value_has_token (snd fld) t"
    then have "lowered t \<in> set (vary_tokens (snd fld))" by (simp add: vary_token_iff has_token_iff)
    then have "lowered t \<in> set ts" using a(1,2) by (auto simp only: ts_def set_concat set_map set_filter)
    then show "header_value_has_token (join_comma us '''') t" unfolding has in_us by (rule insertI2)
  qed
qed

lemma keep_cors_field_iff:
  "keep_cors_field exact hdr \<longleftrightarrow> \<not> is_field ''access-control-allow-origin'' hdr
     \<and> (is_field ''access-control-allow-credentials'' hdr \<longrightarrow> exact)"
  by (simp only: keep_cors_field_def ascii_lower_text_eq Let_def is_field_def) simp

lemma cors_names [simp]:
  "is_field ''access-control-allow-origin'' (''access-control-allow-origin'', x)" "\<not> is_field ''vary'' (''access-control-allow-origin'', x)"
  "\<not> is_field ''access-control-allow-credentials'' (''access-control-allow-origin'', x)"
  "is_field ''vary'' (''Vary'', x)" "\<not> is_field ''access-control-allow-origin'' (''Vary'', x)"
  "\<not> is_field ''access-control-allow-credentials'' (''Vary'', x)"
  unfolding is_field_def fst_conv by code_simp+

lemma is_field_distinct:
  "is_field ''access-control-allow-origin'' fld \<Longrightarrow> \<not> is_field ''vary'' fld"
  "is_field ''access-control-allow-credentials'' fld \<Longrightarrow> \<not> is_field ''vary'' fld"
  "is_field ''access-control-allow-credentials'' fld \<Longrightarrow> \<not> is_field ''access-control-allow-origin'' fld"
  unfolding is_field_def by simp_all

section \<open>Properties\<close>

text \<open>C22: The host owns CORS. Whatever fields a worker's response carries, the response sent has an Access-Control-Allow-Origin
  field exactly if the request has one Origin and the configuration lists it, then only one, with that origin; credentials are
  kept only for an origin listed by name, never under the wildcard; there is one Vary field, which has the
  token Origin and every token of the worker's Vary fields; and all other fields are unchanged and in order.\<close>

theorem cors_is_host_owned:
  assumes "length (origin_fields req) < 2 ^ 32"
  shows "let out = filter_headers (cors_prepare req (ListenerCors c)) hs;
        other = (\<lambda>fld. \<not> is_field ''access-control-allow-origin'' fld \<and> \<not> is_field ''access-control-allow-credentials'' fld \<and> \<not> is_field ''vary'' fld) in
    filter (is_field ''access-control-allow-origin'') out
      = (if origin_listed c (the_origin req) then [(''access-control-allow-origin'', the_origin req)] else [])
    \<and> filter (is_field ''access-control-allow-credentials'') out
      = (if origin_listed c (the_origin req) \<and> allowed_origins c \<noteq> [''*''] then filter (is_field ''access-control-allow-credentials'') hs else [])
    \<and> (\<exists>v. filter (is_field ''vary'') out = [(''Vary'', v)] \<and> header_value_has_token v ''origin''
         \<and> (\<forall>fld t. fld \<in> set hs \<and> is_field ''vary'' fld \<and> t \<noteq> '''' \<and> header_value_has_token (snd fld) t \<longrightarrow> header_value_has_token v t))
    \<and> filter other out = filter other hs"
proof -
  let ?l = "cors_prepare req (ListenerCors c)"
  let ?exact = "origin_allowed ?l \<and> origin_seen ?l \<and> \<not> wildcard ?l"
  let ?cf = "filter (keep_cors_field ?exact) hs @ (if origin_allowed ?l then [(''access-control-allow-origin'', origin ?l)] else [])"
  let ?other = "\<lambda>fld. \<not> is_field ''access-control-allow-origin'' fld \<and> \<not> is_field ''access-control-allow-credentials'' fld \<and> \<not> is_field ''vary'' fld"
  note f = cors_prepare_fields [OF assms, of c]
  obtain v where m: "filter_headers ?l hs = filter (\<lambda>fld. \<not> is_field ''vary'' fld) ?cf @ [(''Vary'', v)]"
    and v: "header_value_has_token v ''origin''"
      "\<And>fld t. fld \<in> set ?cf \<Longrightarrow> is_field ''vary'' fld \<Longrightarrow> t \<noteq> '''' \<Longrightarrow> header_value_has_token (snd fld) t \<Longrightarrow> header_value_has_token v t"
    using merge_vary [of ?cf] unfolding filter_headers_def Let_def by metis
  have exact: "?exact \<longleftrightarrow> origin_listed c (the_origin req) \<and> allowed_origins c \<noteq> [''*'']"
    using f(2-4) by (auto simp: origin_listed_def)
  have keep: "keep_cors_field ?exact fld" if "is_field ''vary'' fld" for fld
    using that is_field_distinct(1,2) [of fld] by (auto simp only: keep_cors_field_iff)
  have aco: "filter (is_field ''access-control-allow-origin'') (filter (\<lambda>fld. \<not> is_field ''vary'' fld) ?cf @ [(''Vary'', v)])
        = (if origin_listed c (the_origin req) then [(''access-control-allow-origin'', the_origin req)] else [])"
    using f(4,5) by (simp add: keep_cors_field_iff filter_empty_conv) blast
  have cred: "filter (is_field ''access-control-allow-credentials'') (filter (\<lambda>fld. \<not> is_field ''vary'' fld) ?cf @ [(''Vary'', v)])
        = (if ?exact then filter (is_field ''access-control-allow-credentials'') hs else [])"
    using is_field_distinct by (auto simp: keep_cors_field_iff filter_empty_conv intro!: filter_cong)
  have vary: "filter (is_field ''vary'') (filter (\<lambda>fld. \<not> is_field ''vary'' fld) ?cf @ [(''Vary'', v)]) = [(''Vary'', v)]"
    by simp
  have rest: "filter ?other (filter (\<lambda>fld. \<not> is_field ''vary'' fld) ?cf @ [(''Vary'', v)]) = filter ?other hs"
    by (auto simp: keep_cors_field_iff intro!: filter_cong)
  have "\<forall>fld t. fld \<in> set hs \<and> is_field ''vary'' fld \<and> t \<noteq> '''' \<and> header_value_has_token (snd fld) t \<longrightarrow> header_value_has_token v t"
  proof (intro allI impI)
    fix fld t assume a: "fld \<in> set hs \<and> is_field ''vary'' fld \<and> t \<noteq> '''' \<and> header_value_has_token (snd fld) t"
    then have "fld \<in> set ?cf" using keep [of fld] by (simp add: set_append)
    then show "header_value_has_token v t" using v(2) a by blast
  qed
  with aco cred vary rest v(1) show ?thesis unfolding Let_def m exact [symmetric] by (intro conjI exI [of _ v])
qed


definition sample_cors :: cors_config where
  "sample_cors = \<lparr>cors_configured = True, allowed_origins = [''https://shop.example''], allowed_methods = [''GET'', ''PUT''],
     allowed_headers = [''x-trace''], max_age_ms = 5000\<rparr>"

definition sample_preflight :: cors_request where
  "sample_preflight = \<lparr>origin_fields = [''https://shop.example''], is_options = True, requested_method = ''put'', requested_headers = '' X-Trace''\<rparr>"

theorem cors_is_host_owned_witness:
  "filter (is_field ''access-control-allow-origin'')
     (filter_headers (cors_prepare sample_preflight (ListenerCors sample_cors)) [(''Access-Control-Allow-Origin'', ''*''), (''Vary'', ''Accept'')])
   = [(''access-control-allow-origin'', ''https://shop.example'')]"
proof -
  have o: "origin_listed sample_cors (the_origin sample_preflight)" "the_origin sample_preflight = ''https://shop.example''" by code_simp+
  have "length (origin_fields sample_preflight) < 2 ^ 32" by (simp add: sample_preflight_def)
  from cors_is_host_owned [OF this, of sample_cors "[(''Access-Control-Allow-Origin'', ''*''), (''Vary'', ''Accept'')]", unfolded Let_def, THEN conjunct1] o
  show ?thesis by simp
qed


end
