(* ===== verification/Managed_Registry.thy ===== *)
theory Managed_Registry
  imports Capsid_Prelude "HOL-Library.List_Lexorder" "HOL-Library.Char_ord"
begin

text \<open>
  The bounded registries of the host (\<open>src/host/managed_registry.cc\<close>): the settled outcomes of operations, kept for a time and
  in a bounded number, and the table of locks that serialises the operations of one application. A \<open>std::map\<close> is an
  association list in the order of its keys; the steady clock is an argument of the operations that read it, in nanoseconds.
\<close>

section \<open>Ordered maps\<close>

text \<open>\<open>map[key] = v\<close>.\<close>

fun put :: "'k::linorder \<Rightarrow> 'v \<Rightarrow> ('k \<times> 'v) list \<Rightarrow> ('k \<times> 'v) list" where
  "put k v [] = [(k, v)]"
| "put k v ((j, w) # m) = (if k < j then (k, v) # (j, w) # m else if k = j then (k, v) # m else (j, w) # put k v m)"

definition erase :: "'k \<Rightarrow> ('k \<times> 'v) list \<Rightarrow> ('k \<times> 'v) list" where
  "erase k m = filter (\<lambda>e. fst e \<noteq> k) m"

section \<open>Operation records\<close>

abbreviation (input) kOperationRecordTtl :: int where "kOperationRecordTtl \<equiv> 60 * 60 * 1000000000"
abbreviation (input) kMaxOperationRecords :: nat where "kMaxOperationRecords \<equiv> 1024"

record 's operation_record =
  op_status :: 's
  recorded_at :: int

type_synonym 's registry = "(string \<times> 's operation_record) list"

text \<open>The scan for the record with the least time, the first one of equals.\<close>

fun oldest :: "'s registry \<Rightarrow> string \<times> 's operation_record \<Rightarrow> string \<times> 's operation_record" where
  "oldest [] best = best"
| "oldest (e # m) best = oldest m (if recorded_at (snd e) < recorded_at (snd best) then e else best)"

function evict_oldest :: "nat \<Rightarrow> 's registry \<Rightarrow> 's registry" where
  "evict_oldest cap m = (if length m > cap then evict_oldest cap (erase (fst (oldest m (hd m))) m) else m)"
  by pat_completeness auto

lemma oldest_least:
  "oldest m best \<in> insert best (set m) \<and> (\<forall>e \<in> insert best (set m). recorded_at (snd (oldest m best)) \<le> recorded_at (snd e))"
proof (induction m arbitrary: best)
  case (Cons e m)
  let ?b = "if recorded_at (snd e) < recorded_at (snd best) then e else best"
  have "recorded_at (snd (oldest (e # m) best)) \<le> recorded_at (snd ?b)" using Cons.IH [of ?b] by simp
  then have "recorded_at (snd (oldest (e # m) best)) \<le> recorded_at (snd e) \<and> recorded_at (snd (oldest (e # m) best)) \<le> recorded_at (snd best)"
    by (auto split: if_splits)
  with Cons.IH [of ?b] show ?case by (auto split: if_splits)
qed simp

lemma oldest_hd: "m \<noteq> [] \<Longrightarrow> oldest m (hd m) \<in> set m"
  using oldest_least [of m "hd m"] by auto

termination evict_oldest
proof (relation "measure (\<lambda>(_, m). length m)")
  fix cap and m :: "'s registry" assume "cap < length m"
  then have "oldest m (hd m) \<in> set m" by (intro oldest_hd) auto
  then show "((cap, erase (fst (oldest m (hd m))) m), (cap, m)) \<in> measure (\<lambda>(_, m). length m)"
    by (auto simp: erase_def intro: length_filter_less)
qed simp

declare evict_oldest.simps [simp del]

definition prune_operation_registry :: "int \<Rightarrow> 's registry \<Rightarrow> 's registry" where
  "prune_operation_registry now m =
     evict_oldest kMaxOperationRecords (filter (\<lambda>e. \<not> now - recorded_at (snd e) \<ge> kOperationRecordTtl) m)"

text \<open>The clock is read for the record, and again for the pruning.\<close>

definition record_operation :: "string \<Rightarrow> 's \<Rightarrow> int \<Rightarrow> int \<Rightarrow> 's registry \<Rightarrow> 's registry" where
  "record_operation operation_id st now now' m =
     prune_operation_registry now' (put operation_id \<lparr>op_status = st, recorded_at = now\<rparr> m)"

definition lookup_operation :: "string \<Rightarrow> int \<Rightarrow> 's registry \<Rightarrow> 's option \<times> 's registry" where
  "lookup_operation operation_id now m =
     (let m = prune_operation_registry now m in (map_option op_status (map_of m operation_id), m))"

section \<open>Operation locks\<close>

abbreviation (input) kMaxAppOperationSlots :: nat where "kMaxAppOperationSlots \<equiv> 256"

text \<open>
  A slot with its mutex: \<open>slot_id\<close> stands for its address, \<open>owner\<close> for the thread that holds the mutex. The number of users
  counts live lock objects, and stays below any machine bound.
\<close>

record app_slot =
  slot_id :: nat
  users :: nat
  last_used :: int
  owner :: "nat option"

type_synonym slot_table = "(string \<times> app_slot) list"

fun evict_candidate :: "slot_table \<Rightarrow> (string \<times> app_slot) option \<Rightarrow> (string \<times> app_slot) option" where
  "evict_candidate [] evict = evict"
| "evict_candidate (e # m) evict =
     (if users (snd e) > 0 then evict_candidate m evict
      else if (case evict of None \<Rightarrow> True | Some b \<Rightarrow> last_used (snd e) < last_used (snd b)) then evict_candidate m (Some e)
      else evict_candidate m evict)"

lemma evict_candidate_in:
  "evict_candidate m evict = Some e \<Longrightarrow> evict = Some e \<or> (e \<in> set m \<and> users (snd e) = 0)"
  by (induction m evict rule: evict_candidate.induct) (auto split: if_splits option.splits)

function prune_app_operation_table :: "slot_table \<Rightarrow> slot_table" where
  "prune_app_operation_table m =
     (if length m > kMaxAppOperationSlots
      then case evict_candidate m None of None \<Rightarrow> m | Some e \<Rightarrow> prune_app_operation_table (erase (fst e) m)
      else m)"
  by pat_completeness auto

termination
proof (relation "measure length")
  fix m :: slot_table and e assume "evict_candidate m None = Some e"
  then have "e \<in> set m" using evict_candidate_in by blast
  then show "(erase (fst e) m, m) \<in> measure length" by (auto simp: erase_def intro: length_filter_less)
qed simp

declare prune_app_operation_table.simps [simp del]

text \<open>The constructor up to the wait for the mutex, and the destructor after the unlock; both run under the table mutex.\<close>

definition pin_slot :: "string \<Rightarrow> int \<Rightarrow> slot_table \<times> nat \<Rightarrow> nat \<times> slot_table \<times> nat" where
  "pin_slot app now = (\<lambda>(table, fresh).
     let (slot, fresh) = (case map_of table app of
             Some s \<Rightarrow> (s, fresh)
           | None \<Rightarrow> (\<lparr>slot_id = fresh, users = 0, last_used = 0, owner = None\<rparr>, fresh + 1));
         slot = slot\<lparr>users := users slot + 1, last_used := now\<rparr> in
     (slot_id slot, prune_app_operation_table (put app slot table), fresh))"

definition update_slot :: "nat \<Rightarrow> (app_slot \<Rightarrow> app_slot) \<Rightarrow> slot_table \<Rightarrow> slot_table" where
  "update_slot ptr f table = map (\<lambda>(a, s). (a, if slot_id s = ptr then f s else s)) table"

definition unpin_slot :: "nat \<Rightarrow> slot_table \<Rightarrow> slot_table" where
  "unpin_slot ptr table = prune_app_operation_table (update_slot ptr (\<lambda>s. s\<lparr>users := users s - 1\<rparr>) table)"

text \<open>
  The threads that hold a lock object, with the application, the slot they point to, and how far they are: waiting for the mutex,
  in the operation, or past the unlock.
\<close>

datatype lock_phase = Waiting | Holding | Unlocked

record lock_world =
  table :: slot_table
  fresh_slot :: nat
  lockers :: "nat \<Rightarrow> (string \<times> nat \<times> lock_phase) option"

inductive lock_step :: "lock_world \<Rightarrow> lock_world \<Rightarrow> bool" where
  begin_op: "lockers w t = None \<Longrightarrow> pin_slot app now (table w, fresh_slot w) = (ptr, m, n)
    \<Longrightarrow> lock_step w (w\<lparr>table := m, fresh_slot := n, lockers := (lockers w)(t \<mapsto> (app, ptr, Waiting))\<rparr>)"
| lock: "lockers w t = Some (app, ptr, Waiting) \<Longrightarrow> (a, s) \<in> set (table w) \<Longrightarrow> slot_id s = ptr \<Longrightarrow> owner s = None
    \<Longrightarrow> lock_step w (w\<lparr>table := update_slot ptr (\<lambda>s. s\<lparr>owner := Some t\<rparr>) (table w), lockers := (lockers w)(t \<mapsto> (app, ptr, Holding))\<rparr>)"
| unlock: "lockers w t = Some (app, ptr, Holding)
    \<Longrightarrow> lock_step w (w\<lparr>table := update_slot ptr (\<lambda>s. s\<lparr>owner := None\<rparr>) (table w), lockers := (lockers w)(t \<mapsto> (app, ptr, Unlocked))\<rparr>)"
| end_op: "lockers w t = Some (app, ptr, Unlocked)
    \<Longrightarrow> lock_step w (w\<lparr>table := unpin_slot ptr (table w), lockers := (lockers w)(t := None)\<rparr>)"

definition no_locks :: lock_world where
  "no_locks = \<lparr>table = [], fresh_slot = 0, lockers = (\<lambda>_. None)\<rparr>"

abbreviation (input) lock_reachable :: "lock_world \<Rightarrow> bool" where
  "lock_reachable w \<equiv> lock_step\<^sup>*\<^sup>* no_locks w"

section \<open>Ordered maps\<close>

abbreviation (input) ordered :: "('k::linorder \<times> 'v) list \<Rightarrow> bool" where
  "ordered m \<equiv> sorted_wrt (<) (map fst m)"

lemma ordered_distinct: "ordered m \<Longrightarrow> distinct (map fst m)"
  by (induction m) auto

lemma keys_put: "fst ` set (put k v m) = insert k (fst ` set m)"
  by (induction k v m rule: put.induct) auto

lemma ordered_put: "ordered m \<Longrightarrow> ordered (put k v m)"
proof (induction k v m rule: put.induct)
  case (2 k v j w m)
  then show ?case using keys_put [of k v m] by (auto simp flip: set_map)
qed simp

lemma set_put: "ordered m \<Longrightarrow> set (put k v m) = insert (k, v) {e \<in> set m. fst e \<noteq> k}"
proof (induction k v m rule: put.induct)
  case (2 k v j w m)
  then show ?case by (cases "k < j"; cases "k = j") (force+)
qed simp

lemma ordered_filter: "ordered m \<Longrightarrow> ordered (filter P m)"
  by (induction m) auto

lemma ordered_erase: "ordered m \<Longrightarrow> ordered (erase k m)"
  unfolding erase_def by (rule ordered_filter)

lemma set_erase: "ordered m \<Longrightarrow> e \<in> set m \<Longrightarrow> set (erase (fst e) m) = set m - {e}"
  unfolding erase_def by (cases e) (auto dest!: ordered_distinct dest: eq_key_imp_eq_value)

lemma ordered_length: "ordered m \<Longrightarrow> length m = card (set m)"
  using ordered_distinct distinct_card [of m] by (metis distinct_map)

lemma length_erase:
  assumes "ordered m" "e \<in> set m" shows "Suc (length (erase (fst e) m)) = length m"
  using card.remove [of "set m" e] assms
  by (simp add: ordered_length [OF assms(1)] ordered_length [OF ordered_erase [OF assms(1)]] set_erase [OF assms])

lemma in_set_map_of: "ordered m \<Longrightarrow> (k, v) \<in> set m \<longleftrightarrow> map_of m k = Some v"
  by (metis map_of_eq_Some_iff ordered_distinct)

section \<open>The registry\<close>

lemma evict_oldest_spec:
  assumes "ordered m"
  shows "set (evict_oldest cap m) \<subseteq> set m \<and> ordered (evict_oldest cap m) \<and> length (evict_oldest cap m) = min cap (length m)
    \<and> (\<forall>e \<in> set m - set (evict_oldest cap m). length (evict_oldest cap m) = cap
         \<and> (\<forall>e' \<in> set (evict_oldest cap m). recorded_at (snd e) \<le> recorded_at (snd e')))"
  using assms
proof (induction cap m rule: evict_oldest.induct)
  case (1 cap m)
  show ?case
  proof (cases "length m > cap")
    case True
    let ?e = "oldest m (hd m)" and ?m = "erase (fst (oldest m (hd m))) m"
    have ne: "m \<noteq> []" using True by auto
    have e: "?e \<in> set m" by (rule oldest_hd [OF ne])
    have r: "evict_oldest cap m = evict_oldest cap ?m" using True by (simp add: evict_oldest.simps [of cap m])
    have m: "set ?m = set m - {?e}" "Suc (length ?m) = length m" using set_erase [OF 1(2) e] length_erase [OF 1(2) e] by auto
    note IH = 1(1) [OF True ordered_erase [OF 1(2)]]
    have least: "recorded_at (snd ?e) \<le> recorded_at (snd y)" if "y \<in> set m" for y using oldest_least [of m "hd m"] that by auto
    define r where "r = evict_oldest cap ?m"
    have r_ok: "set r \<subseteq> set m - {?e}" "ordered r" "length r = cap"
      and dropped: "\<And>x y. x \<in> set m - {?e} - set r \<Longrightarrow> y \<in> set r \<Longrightarrow> recorded_at (snd x) \<le> recorded_at (snd y)"
      using IH m True unfolding r_def by auto
    have "recorded_at (snd x) \<le> recorded_at (snd y)" if "x \<in> set m - set r" "y \<in> set r" for x y
    proof (cases "x = ?e")
      case True
      then show ?thesis using least that(2) r_ok(1) by blast
    next
      case False
      then show ?thesis using dropped that by blast
    qed
    with r_ok True show ?thesis unfolding r r_def [symmetric] by auto
  qed (use 1(2) in \<open>simp add: evict_oldest.simps [of cap m]\<close>)
qed

text \<open>
  A history of calls: outcomes recorded, with the time and the time of the pruning, and look-ups. \<open>settled\<close> lists the outcomes
  recorded so far, the latest first.
\<close>

datatype 's registry_op = RecordOp string 's int int | LookupOp string int

fun registry_step :: "'s registry_op \<Rightarrow> 's registry \<Rightarrow> 's registry" where
  "registry_step (RecordOp op st now now') m = record_operation op st now now' m"
| "registry_step (LookupOp op now) m = snd (lookup_operation op now m)"

fun settled :: "'s registry_op list \<Rightarrow> (string \<times> 's \<times> int) list" where
  "settled [] = []"
| "settled (RecordOp op st now now' # ops) = settled ops @ [(op, st, now)]"
| "settled (LookupOp op now # ops) = settled ops"

fun op_times :: "'s registry_op \<Rightarrow> int list" where
  "op_times (RecordOp op st now now') = [now, now']"
| "op_times (LookupOp op now) = [now]"

text \<open>Enough other outcomes, recorded no earlier, to displace one recorded at \<open>t\<close>.\<close>

definition displaced :: "(string \<times> 's \<times> int) list \<Rightarrow> string \<Rightarrow> int \<Rightarrow> bool" where
  "displaced h op t \<longleftrightarrow> (\<exists>K. card K = kMaxOperationRecords \<and> op \<notin> K \<and> (\<forall>k \<in> K. \<exists>st t'. (k, st, t') \<in> set h \<and> t \<le> t'))"

lemma displaced_mono: "displaced h op t \<Longrightarrow> set h \<subseteq> set h' \<Longrightarrow> displaced h' op t"
  unfolding displaced_def by blast

definition registry_ok :: "(string \<times> 's \<times> int) list \<Rightarrow> int \<Rightarrow> 's registry \<Rightarrow> bool" where
  "registry_ok h now m \<longleftrightarrow> ordered m \<and> length m \<le> kMaxOperationRecords
     \<and> (\<forall>op r. (op, r) \<in> set m \<longrightarrow> map_of h op = Some (op_status r, recorded_at r))
     \<and> (\<forall>op st t. map_of h op = Some (st, t) \<and> op \<notin> fst ` set m \<longrightarrow> now - t \<ge> kOperationRecordTtl \<or> displaced h op t)"

lemma prune_registry_ok:
  assumes o: "ordered m" and now: "now \<le> now'"
    and in_h: "\<And>op r. (op, r) \<in> set m \<Longrightarrow> map_of h op = Some (op_status r, recorded_at r)"
    and lost: "\<And>op st t. map_of h op = Some (st, t) \<Longrightarrow> op \<notin> fst ` set m \<Longrightarrow> now - t \<ge> kOperationRecordTtl \<or> displaced h op t"
  shows "registry_ok h now' (prune_operation_registry now' m)
    \<and> (\<forall>e \<in> set (prune_operation_registry now' m). now' - recorded_at (snd e) < kOperationRecordTtl)"
proof -
  let ?f = "filter (\<lambda>e. \<not> now' - recorded_at (snd e) \<ge> kOperationRecordTtl) m"
  let ?p = "prune_operation_registry now' m"
  have s: "set ?p \<subseteq> set ?f" "ordered ?p" "length ?p \<le> kMaxOperationRecords"
    and d: "\<And>e. e \<in> set ?f \<Longrightarrow> e \<notin> set ?p \<Longrightarrow> length ?p = kMaxOperationRecords \<and> (\<forall>e' \<in> set ?p. recorded_at (snd e) \<le> recorded_at (snd e'))"
    using evict_oldest_spec [OF ordered_filter [OF o], of kMaxOperationRecords "\<lambda>e. \<not> now' - recorded_at (snd e) \<ge> kOperationRecordTtl"]
    unfolding prune_operation_registry_def by auto
  have "now' - t \<ge> kOperationRecordTtl \<or> displaced h op t" if h: "map_of h op = Some (st, t)" and n: "op \<notin> fst ` set ?p" for op st t
  proof (cases "op \<in> fst ` set m")
    case False
    then show ?thesis using lost [OF h] now by fastforce
  next
    case True
    then obtain r where r: "(op, r) \<in> set m" by force
    then have t: "recorded_at r = t" using in_h h by fastforce
    show ?thesis
    proof (cases "(op, r) \<in> set ?f")
      case False
      then show ?thesis using r t by auto
    next
      case True
      have "(op, r) \<notin> set ?p" using n by force
      with d [OF True] have len: "length ?p = kMaxOperationRecords" and le: "\<And>e'. e' \<in> set ?p \<Longrightarrow> t \<le> recorded_at (snd e')" by (auto simp: t)
      have "card (fst ` set ?p) = kMaxOperationRecords"
        using len ordered_distinct [OF s(2)] distinct_card [of "map fst ?p"] by simp
      moreover have "\<exists>st t'. (k, st, t') \<in> set h \<and> t \<le> t'" if "k \<in> fst ` set ?p" for k
      proof -
        from that obtain r' where r': "(k, r') \<in> set ?p" by force
        then have "map_of h k = Some (op_status r', recorded_at r')" using in_h s(1) by auto
        then show ?thesis using le [OF r'] by (auto dest: map_of_SomeD)
      qed
      ultimately show ?thesis using n unfolding displaced_def by blast
    qed
  qed
  with s in_h show ?thesis unfolding registry_ok_def by auto
qed

lemma record_operation_ok:
  assumes "registry_ok h now m" "now \<le> t" "t \<le> now'"
  shows "registry_ok ((op, st, t) # h) now' (record_operation op st t now' m)"
proof -
  let ?h = "(op, st, t) # h"
  have o: "ordered m" using assms(1) by (simp add: registry_ok_def)
  have "registry_ok ?h now' (prune_operation_registry now' (put op \<lparr>op_status = st, recorded_at = t\<rparr> m))"
  proof (rule prune_registry_ok [THEN conjunct1, of _ now])
    show "ordered (put op \<lparr>op_status = st, recorded_at = t\<rparr> m)" by (rule ordered_put [OF o])
    show "now \<le> now'" using assms(2,3) by simp
    show "map_of ?h k = Some (op_status r, recorded_at r)" if "(k, r) \<in> set (put op \<lparr>op_status = st, recorded_at = t\<rparr> m)" for k r
      using that assms(1) by (auto simp: set_put [OF o] registry_ok_def)
    show "now - t' \<ge> kOperationRecordTtl \<or> displaced ?h k t'"
      if "map_of ?h k = Some (st', t')" "k \<notin> fst ` set (put op \<lparr>op_status = st, recorded_at = t\<rparr> m)" for k st' t'
    proof -
      from that have "map_of h k = Some (st', t')" "k \<notin> fst ` set m" by (auto simp: keys_put split: if_splits)
      then have "now - t' \<ge> kOperationRecordTtl \<or> displaced h k t'" using assms(1) by (auto simp: registry_ok_def)
      then show ?thesis using displaced_mono [of h k t' ?h] by auto
    qed
  qed
  then show ?thesis by (simp add: record_operation_def)
qed

lemma lookup_operation_ok:
  assumes "registry_ok h now m" "now \<le> now'"
  shows "registry_ok h now' (snd (lookup_operation op now' m))"
    "\<forall>e \<in> set (snd (lookup_operation op now' m)). now' - recorded_at (snd e) < kOperationRecordTtl"
  using prune_registry_ok [of m now now' h] assms by (auto simp: lookup_operation_def Let_def registry_ok_def)

lemma registry_run_ok:
  assumes "registry_ok h now m" "sorted (now # concat (map op_times ops))"
  shows "registry_ok (settled ops @ h) (last (now # concat (map op_times ops))) (fold registry_step ops m)"
  using assms
proof (induction ops arbitrary: h now m)
  case (Cons op ops)
  show ?case
  proof (cases op)
    case (RecordOp i st t t')
    with Cons.prems have "registry_ok ((i, st, t) # h) t' (record_operation i st t t' m)"
      by (intro record_operation_ok [of h now]) auto
    from Cons.IH [OF this] Cons.prems RecordOp show ?thesis by (auto simp: last_append split: if_splits)
  next
    case (LookupOp i t)
    with Cons.prems have "registry_ok h t (snd (lookup_operation i t m))" by (intro lookup_operation_ok [of h now]) auto
    from Cons.IH [OF this] Cons.prems LookupOp show ?thesis by (auto simp: last_append split: if_splits)
  qed
qed simp

section \<open>The lock table\<close>

lemma evict_candidate_None: "evict_candidate m evict = None \<Longrightarrow> evict = None \<and> (\<forall>e \<in> set m. users (snd e) > 0)"
proof (induction m arbitrary: evict)
  case (Cons e m)
  show ?case
  proof (cases "users (snd e) > 0")
    case True
    then show ?thesis using Cons by simp
  next
    case False
    then show ?thesis using Cons.prems Cons.IH [of "Some e"] Cons.IH [of evict] by (cases evict) (simp_all split: if_splits)
  qed
qed simp

lemma prune_table_spec:
  assumes "ordered m"
  shows "ordered (prune_app_operation_table m) \<and> set (prune_app_operation_table m) \<subseteq> set m
    \<and> (\<forall>e \<in> set m. users (snd e) > 0 \<longrightarrow> e \<in> set (prune_app_operation_table m))
    \<and> (length (prune_app_operation_table m) \<le> kMaxAppOperationSlots \<or> (\<forall>e \<in> set (prune_app_operation_table m). users (snd e) > 0))"
  using assms
proof (induction m rule: prune_app_operation_table.induct)
  case (1 m)
  show ?case
  proof (cases "length m > kMaxAppOperationSlots")
    case True
    show ?thesis
    proof (cases "evict_candidate m None")
      case None
      then have "prune_app_operation_table m = m" using True by (simp add: prune_app_operation_table.simps [of m])
      then show ?thesis using evict_candidate_None [OF None] 1(2) by simp
    next
      case (Some e)
      then have r: "prune_app_operation_table m = prune_app_operation_table (erase (fst e) m)"
        using True by (simp add: prune_app_operation_table.simps [of m])
      have e: "e \<in> set m" "users (snd e) = 0" using evict_candidate_in [OF Some] by auto
      note IH = 1(1) [OF True Some ordered_erase [OF 1(2)], unfolded set_erase [OF 1(2) e(1)]]
      have "x \<in> set (prune_app_operation_table (erase (fst e) m))" if "x \<in> set m" "users (snd x) > 0" for x
        using IH that e(2) by (cases "x = e") (simp, blast)
      with IH show ?thesis unfolding r by blast
    qed
  qed (use 1(2) in \<open>simp add: prune_app_operation_table.simps [of m]\<close>)
qed

lemma map_of_put: "ordered m \<Longrightarrow> map_of (put k v m) = (map_of m)(k \<mapsto> v)"
proof (induction k v m rule: put.induct)
  case (2 k v j w m)
  then show ?case by (simp add: fun_eq_iff)
qed simp

lemma map_of_update_slot: "map_of (update_slot ptr f m) a = map_option (\<lambda>s. if slot_id s = ptr then f s else s) (map_of m a)"
proof (induction m)
  case (Cons e m)
  then show ?case by (cases e) (simp add: update_slot_def)
qed (simp add: update_slot_def)

lemma map_fst_update_slot [simp]: "map fst (update_slot ptr f m) = map fst m"
  by (simp add: update_slot_def comp_def case_prod_beta)

lemma length_update_slot [simp]: "length (update_slot ptr f m) = length m"
  by (simp add: update_slot_def)

lemma pinned_update_slot:
  "(\<And>s. users (f s) = users s) \<Longrightarrow> (\<forall>e \<in> set (update_slot ptr f m). users (snd e) > 0) \<longleftrightarrow> (\<forall>e \<in> set m. users (snd e) > 0)"
  by (simp add: update_slot_def case_prod_beta)

lemma prune_table_map:
  assumes "ordered m"
  shows "map_of (prune_app_operation_table m) a = Some s \<Longrightarrow> map_of m a = Some s"
    "map_of m a = Some s \<Longrightarrow> users s > 0 \<Longrightarrow> map_of (prune_app_operation_table m) a = Some s"
  using prune_table_spec [OF assms] in_set_map_of [OF assms, of a s] in_set_map_of [of "prune_app_operation_table m" a s] by auto

definition ops_of :: "(nat \<Rightarrow> (string \<times> nat \<times> lock_phase) option) \<Rightarrow> string \<Rightarrow> nat set" where
  "ops_of L a = {t. \<exists>p ph. L t = Some (a, p, ph)}"

definition slots_ok :: "nat \<Rightarrow> (nat \<Rightarrow> (string \<times> nat \<times> lock_phase) option) \<Rightarrow> (string \<Rightarrow> app_slot option) \<Rightarrow> bool" where
  "slots_ok n L M \<longleftrightarrow>
     (\<forall>a s. M a = Some s \<longrightarrow> slot_id s < n \<and> users s = card (ops_of L a) \<and> (\<forall>t. owner s = Some t \<longleftrightarrow> (\<exists>p. L t = Some (a, p, Holding))))
     \<and> (\<forall>a b s s'. M a = Some s \<and> M b = Some s' \<and> slot_id s = slot_id s' \<longrightarrow> a = b)
     \<and> (\<forall>t a p ph. L t = Some (a, p, ph) \<longrightarrow> (\<exists>s. M a = Some s \<and> slot_id s = p))"

definition lock_ok :: "lock_world \<Rightarrow> bool" where
  "lock_ok w \<longleftrightarrow> ordered (table w) \<and> finite (dom (lockers w)) \<and> slots_ok (fresh_slot w) (lockers w) (map_of (table w))
     \<and> (length (table w) \<le> kMaxAppOperationSlots \<or> (\<forall>e \<in> set (table w). users (snd e) > 0))"

lemma finite_ops: "finite (dom L) \<Longrightarrow> finite (ops_of L a)"
  by (rule finite_subset [of _ "dom L"]) (auto simp: ops_of_def)

lemma ops_of_upd:
  "ops_of (L(t \<mapsto> (a, p, ph))) b = (if b = a then insert t (ops_of L b) else ops_of L b - {t})"
  "ops_of (L(t := None)) b = ops_of L b - {t}"
  by (auto simp: ops_of_def)

lemma pruned_ok:
  assumes "ordered m" "finite (dom L)" "slots_ok n L (map_of m)"
  shows "lock_ok \<lparr>table = prune_app_operation_table m, fresh_slot = n, lockers = L\<rparr>"
proof -
  have keep: "map_of (prune_app_operation_table m) a = Some s" if "L t = Some (a, p, ph)" "map_of m a = Some s" for t a p ph s
  proof (rule prune_table_map(2) [OF assms(1) that(2)])
    have "t \<in> ops_of L a" using that(1) by (auto simp: ops_of_def)
    then have "card (ops_of L a) > 0" using finite_ops [OF assms(2)] by (auto simp: card_gt_0_iff)
    then show "users s > 0" using assms(3) that(2) by (auto simp: slots_ok_def)
  qed
  have "slots_ok n L (map_of (prune_app_operation_table m))"
    unfolding slots_ok_def
  proof (intro conjI allI impI)
    fix t a p ph assume t: "L t = Some (a, p, ph)"
    then obtain s where "map_of m a = Some s" "slot_id s = p" using assms(3) unfolding slots_ok_def by meson
    then show "\<exists>s. map_of (prune_app_operation_table m) a = Some s \<and> slot_id s = p" using keep [OF t] by blast
  qed (use assms(3) prune_table_map(1) [OF assms(1)] in \<open>auto simp: slots_ok_def\<close>)
  then show ?thesis using prune_table_spec [OF assms(1)] assms(2) by (simp add: lock_ok_def)
qed

lemma slots_okD:
  assumes "slots_ok n L M"
  shows "M a = Some s \<Longrightarrow> slot_id s < n" "M a = Some s \<Longrightarrow> users s = card (ops_of L a)"
    "M a = Some s \<Longrightarrow> owner s = Some t \<longleftrightarrow> (\<exists>p. L t = Some (a, p, Holding))"
    "M a = Some s \<Longrightarrow> M b = Some s' \<Longrightarrow> slot_id s = slot_id s' \<Longrightarrow> a = b"
    "L t = Some (a, p, ph) \<Longrightarrow> \<exists>s. M a = Some s \<and> slot_id s = p"
  using assms unfolding slots_ok_def by blast+

lemma slots_okI:
  assumes "\<And>a s. M a = Some s \<Longrightarrow> slot_id s < n \<and> users s = card (ops_of L a)"
    "\<And>a s t. M a = Some s \<Longrightarrow> owner s = Some t \<longleftrightarrow> (\<exists>p. L t = Some (a, p, Holding))"
    "\<And>a b s s'. M a = Some s \<Longrightarrow> M b = Some s' \<Longrightarrow> slot_id s = slot_id s' \<Longrightarrow> a = b"
    "\<And>t a p ph. L t = Some (a, p, ph) \<Longrightarrow> \<exists>s. M a = Some s \<and> slot_id s = p"
  shows "slots_ok n L M"
  using assms unfolding slots_ok_def by blast

text \<open>The slot a new lock object pins: the application's own, or a fresh one.\<close>

lemma slots_ok_fresh:
  assumes "slots_ok n L M" "M app = None"
  shows "slots_ok (n + 1) L (M(app \<mapsto> \<lparr>slot_id = n, users = 0, last_used = 0, owner = None\<rparr>))"
proof -
  note D = slots_okD [OF assms(1)]
  have none: "L u \<noteq> Some (app, p, ph)" for u p ph
  proof
    assume "L u = Some (app, p, ph)"
    from D(5) [OF this] show False by (simp add: assms(2))
  qed
  then have e: "ops_of L app = {}" by (simp add: ops_of_def)
  let ?M = "M(app \<mapsto> \<lparr>slot_id = n, users = 0, last_used = 0, owner = None\<rparr>)"
  show ?thesis
  proof (rule slots_okI)
    fix a x assume x: "?M a = Some x"
    show "slot_id x < n + 1 \<and> users x = card (ops_of L a)"
      using x D(1,2) [of a x] e by (cases "a = app") auto
    show "owner x = Some u \<longleftrightarrow> (\<exists>p. L u = Some (a, p, Holding))" for u
      using x D(3) [of a x u] none by (cases "a = app") auto
  next
    fix a b x y assume x: "?M a = Some x" and y: "?M b = Some y" and e: "slot_id x = slot_id y"
    have id: "(c = app \<and> slot_id z = n) \<or> (c \<noteq> app \<and> M c = Some z \<and> slot_id z < n)" if "?M c = Some z" for c z
      using that D(1) [of c z] by (cases "c = app") auto
    show "a = b" using id [OF x] id [OF y] e D(4) [of a x b y] by (metis less_irrefl)
  next
    fix u a p ph assume "L u = Some (a, p, ph)"
    then show "\<exists>x. ?M a = Some x \<and> slot_id x = p" using D(5) [of u a p ph] none by (cases "a = app") auto
  qed
qed

lemma slots_ok_pin:
  assumes "slots_ok n L M" "L t = None" "finite (dom L)" "M app = Some s"
  shows "slots_ok n (L(t \<mapsto> (app, slot_id s, Waiting))) (M(app \<mapsto> s\<lparr>users := users s + 1, last_used := now\<rparr>))"
proof -
  note D = slots_okD [OF assms(1)]
  have nt: "t \<notin> ops_of L a" for a using assms(2) by (simp add: ops_of_def)
  show ?thesis
  proof (rule slots_okI)
    fix a x assume x: "(M(app \<mapsto> s\<lparr>users := users s + 1, last_used := now\<rparr>)) a = Some x"
    show "slot_id x < n \<and> users x = card (ops_of (L(t \<mapsto> (app, slot_id s, Waiting))) a)"
      using x D(1,2) [of a] assms(4) nt finite_ops [OF assms(3)] by (cases "a = app") (auto simp: ops_of_upd)
    show "owner x = Some u \<longleftrightarrow> (\<exists>p. (L(t \<mapsto> (app, slot_id s, Waiting))) u = Some (a, p, Holding))" for u
      using x D(3) [of a _ u] assms(2,4) by (cases "a = app"; cases "u = t") auto
  next
    fix a b x y
    assume x: "(M(app \<mapsto> s\<lparr>users := users s + 1, last_used := now\<rparr>)) a = Some x"
      and y: "(M(app \<mapsto> s\<lparr>users := users s + 1, last_used := now\<rparr>)) b = Some y" and e: "slot_id x = slot_id y"
    have id: "\<exists>z'. M c = Some z' \<and> slot_id z' = slot_id z"
      if "(M(app \<mapsto> s\<lparr>users := users s + 1, last_used := now\<rparr>)) c = Some z" for c z
      using that assms(4) by (cases "c = app") auto
    show "a = b" using id [OF x] id [OF y] e D(4) by metis
  next
    fix u a p ph assume "(L(t \<mapsto> (app, slot_id s, Waiting))) u = Some (a, p, ph)"
    then show "\<exists>x. (M(app \<mapsto> s\<lparr>users := users s + 1, last_used := now\<rparr>)) a = Some x \<and> slot_id x = p"
      using D(5) [of u a p ph] assms(4) by (cases "u = t"; cases "a = app") auto
  qed
qed

lemma slots_ok_change:
  assumes "slots_ok n L M" "L t = Some (app, ptr, ph)" "M app = Some s" "slot_id s' = slot_id s"
    and L': "L' = L(t := x)" "x = None \<or> (\<exists>ph'. x = Some (app, ptr, ph'))"
    and s': "users s' = card (ops_of L' app)" "\<And>u. owner s' = Some u \<longleftrightarrow> (\<exists>p. L' u = Some (app, p, Holding))"
  shows "slots_ok n L' (M(app \<mapsto> s'))"
proof -
  note D = slots_okD [OF assms(1)]
  have ptr: "ptr = slot_id s" using D(5) [OF assms(2)] assms(3) by auto
  have other: "L' u = Some (a, p, q) \<longleftrightarrow> L u = Some (a, p, q)" if "a \<noteq> app" for u a p q
    using that assms(2) L' by (cases "u = t") auto
  have id: "\<exists>z'. M c = Some z' \<and> slot_id z' = slot_id z" if "(M(app \<mapsto> s')) c = Some z" for c z
    using that assms(3,4) by (cases "c = app") auto
  show ?thesis
  proof (rule slots_okI)
    fix a z assume z: "(M(app \<mapsto> s')) a = Some z"
    obtain z' where "M a = Some z'" "slot_id z' = slot_id z" using id [OF z] by blast
    then have "slot_id z < n" using D(1) by fastforce
    moreover have "users z = card (ops_of L' a)"
    proof (cases "a = app")
      case False
      then have "ops_of L' a = ops_of L a" by (simp add: ops_of_def other)
      then show ?thesis using z False D(2) [of a z] by simp
    qed (use z s'(1) in simp)
    ultimately show "slot_id z < n \<and> users z = card (ops_of L' a)" by blast
    show "owner z = Some u \<longleftrightarrow> (\<exists>p. L' u = Some (a, p, Holding))" for u
      using z D(3) [of a z u] s'(2) by (cases "a = app") (simp_all add: other)
  next
    fix a b z y assume z: "(M(app \<mapsto> s')) a = Some z" and y: "(M(app \<mapsto> s')) b = Some y" and e: "slot_id z = slot_id y"
    show "a = b" using id [OF z] id [OF y] e D(4) by metis
  next
    fix u a p q assume u: "L' u = Some (a, p, q)"
    show "\<exists>z. (M(app \<mapsto> s')) a = Some z \<and> slot_id z = p"
    proof (cases "a = app")
      case True
      have "p = slot_id s"
      proof (cases "u = t")
        case True
        then show ?thesis using u L' ptr by auto
      next
        case False
        then have "L u = Some (app, p, q)" using u L'(1) \<open>a = app\<close> by simp
        from D(5) [OF this] show ?thesis using assms(3) by auto
      qed
      then show ?thesis using True assms(4) by simp
    next
      case False
      then show ?thesis using D(5) [of u a p q] u other [OF False] by auto
    qed
  qed
qed

lemma update_slot_upd:
  assumes "slots_ok n L (map_of m)" "map_of m app = Some s"
  shows "map_of (update_slot (slot_id s) f m) = (map_of m)(app \<mapsto> f s)"
proof
  fix a
  show "map_of (update_slot (slot_id s) f m) a = ((map_of m)(app \<mapsto> f s)) a"
  proof (cases "a = app")
    case False
    then have "slot_id z \<noteq> slot_id s" if "map_of m a = Some z" for z using slots_okD(4) [OF assms(1) that assms(2)] by blast
    then show ?thesis using False by (cases "map_of m a") (simp_all add: map_of_update_slot)
  qed (simp add: map_of_update_slot assms(2))
qed

lemma lock_step_ok:
  assumes "lock_step w w'" "lock_ok w"
  shows "lock_ok w'"
proof -
  have o: "ordered (table w)" and fin: "finite (dom (lockers w))" and ok: "slots_ok (fresh_slot w) (lockers w) (map_of (table w))"
    and bound: "length (table w) \<le> kMaxAppOperationSlots \<or> (\<forall>e \<in> set (table w). users (snd e) > 0)"
    using assms(2) by (auto simp: lock_ok_def)
  have at: "\<exists>s. map_of (table w) app = Some s \<and> slot_id s = ptr" if "lockers w t = Some (app, ptr, ph)" for t app ptr ph
    using slots_okD(5) [OF ok that] .
  show ?thesis
    using assms(1)
  proof (cases rule: lock_step.cases)
    case (begin_op t app now ptr m n)
    define M where "M = map_of (table w)"
    obtain s n' where s: "(case M app of Some s \<Rightarrow> (s, fresh_slot w)
        | None \<Rightarrow> (\<lparr>slot_id = fresh_slot w, users = 0, last_used = 0, owner = None\<rparr>, fresh_slot w + 1)) = (s, n')" by fastforce
    have p: "ptr = slot_id s" "n = n'" "m = prune_app_operation_table (put app (s\<lparr>users := users s + 1, last_used := now\<rparr>) (table w))"
      using begin_op(3) s by (auto simp: pin_slot_def M_def)
    have "slots_ok n' (lockers w) (M(app \<mapsto> s))"
    proof (cases "M app")
      case None
      then show ?thesis using slots_ok_fresh [OF ok, folded M_def, OF None] s by simp
    next
      case (Some s0)
      then show ?thesis using ok s by (simp add: fun_upd_idem M_def)
    qed
    from slots_ok_pin [OF this begin_op(2) fin, of app s now]
    have "slots_ok n' ((lockers w)(t \<mapsto> (app, slot_id s, Waiting))) (map_of (put app (s\<lparr>users := users s + 1, last_used := now\<rparr>) (table w)))"
      by (simp add: map_of_put [OF o] M_def)
    from pruned_ok [OF ordered_put [OF o] _ this] fin begin_op(1) show ?thesis by (simp add: p lock_ok_def)
  next
    case (lock t app ptr a s)
    obtain z where z: "map_of (table w) app = Some z" "slot_id z = ptr" using at [OF lock(2)] by blast
    have as: "map_of (table w) a = Some s" using lock(3) in_set_map_of [OF o, of a s] by simp
    have "a = app" by (rule slots_okD(4) [OF ok as z(1)]) (simp add: z(2) lock(4))
    then have s: "map_of (table w) app = Some s" "slot_id s = ptr" using as lock(4) by simp_all
    have free: "lockers w u \<noteq> Some (app, p, Holding)" for u p using slots_okD(3) [OF ok s(1), of u] lock(5) by auto
    have "slots_ok (fresh_slot w) ((lockers w)(t \<mapsto> (app, ptr, Holding))) ((map_of (table w))(app \<mapsto> s\<lparr>owner := Some t\<rparr>))"
    proof (rule slots_ok_change [OF ok lock(2) s(1) _ refl])
      have "t \<in> ops_of (lockers w) app" using lock(2) by (auto simp: ops_of_def)
      then show "users (s\<lparr>owner := Some t\<rparr>) = card (ops_of ((lockers w)(t \<mapsto> (app, ptr, Holding))) app)"
        using slots_okD(2) [OF ok s(1)] by (simp add: ops_of_upd insert_absorb)
      show "owner (s\<lparr>owner := Some t\<rparr>) = Some u \<longleftrightarrow> (\<exists>p. ((lockers w)(t \<mapsto> (app, ptr, Holding))) u = Some (app, p, Holding))" for u
        using free by auto
    qed simp_all
    then show ?thesis
      using lock(1) o fin bound update_slot_upd [OF ok s(1), of "\<lambda>s. s\<lparr>owner := Some t\<rparr>"] s(2)
      by (simp add: lock_ok_def pinned_update_slot)
  next
    case (unlock t app ptr)
    obtain s where s: "map_of (table w) app = Some s" "slot_id s = ptr" using at [OF unlock(2)] by blast
    have "slots_ok (fresh_slot w) ((lockers w)(t \<mapsto> (app, ptr, Unlocked))) ((map_of (table w))(app \<mapsto> s\<lparr>owner := None\<rparr>))"
    proof (rule slots_ok_change [OF ok unlock(2) s(1) _ refl])
      have "t \<in> ops_of (lockers w) app" using unlock(2) by (auto simp: ops_of_def)
      then show "users (s\<lparr>owner := None\<rparr>) = card (ops_of ((lockers w)(t \<mapsto> (app, ptr, Unlocked))) app)"
        using slots_okD(2) [OF ok s(1)] by (simp add: ops_of_upd insert_absorb)
      have "owner s = Some t" using slots_okD(3) [OF ok s(1), of t] unlock(2) by blast
      then show "owner (s\<lparr>owner := None\<rparr>) = Some u \<longleftrightarrow> (\<exists>p. ((lockers w)(t \<mapsto> (app, ptr, Unlocked))) u = Some (app, p, Holding))" for u
        using slots_okD(3) [OF ok s(1), of u] by auto
    qed simp_all
    then show ?thesis
      using unlock(1) o fin bound update_slot_upd [OF ok s(1), of "\<lambda>s. s\<lparr>owner := None\<rparr>"] s(2)
      by (simp add: lock_ok_def pinned_update_slot)
  next
    case (end_op t app ptr)
    obtain s where s: "map_of (table w) app = Some s" "slot_id s = ptr" using at [OF end_op(2)] by blast
    have "slots_ok (fresh_slot w) ((lockers w)(t := None)) ((map_of (table w))(app \<mapsto> s\<lparr>users := users s - 1\<rparr>))"
    proof (rule slots_ok_change [OF ok end_op(2) s(1) _ refl])
      have "t \<in> ops_of (lockers w) app" using end_op(2) by (auto simp: ops_of_def)
      then show "users (s\<lparr>users := users s - 1\<rparr>) = card (ops_of ((lockers w)(t := None)) app)"
        using slots_okD(2) [OF ok s(1)] by (simp add: ops_of_upd)
      show "owner (s\<lparr>users := users s - 1\<rparr>) = Some u \<longleftrightarrow> (\<exists>p. ((lockers w)(t := None)) u = Some (app, p, Holding))" for u
        using slots_okD(3) [OF ok s(1), of u] end_op(2) by auto
    qed simp_all
    then have "slots_ok (fresh_slot w) ((lockers w)(t := None)) (map_of (update_slot ptr (\<lambda>s. s\<lparr>users := users s - 1\<rparr>) (table w)))"
      using update_slot_upd [OF ok s(1), of "\<lambda>s. s\<lparr>users := users s - 1\<rparr>"] s(2) by simp
    from pruned_ok [OF _ _ this] o fin end_op(1) show ?thesis by (simp add: unpin_slot_def lock_ok_def)
  qed
qed

lemma lock_reachable_ok: "lock_reachable w \<Longrightarrow> lock_ok w"
proof (induction rule: rtranclp_induct)
  case base
  show ?case by (simp add: lock_ok_def slots_ok_def no_locks_def)
qed (rule lock_step_ok)

section \<open>Properties\<close>

text \<open>C23: The operations of one application are serialised, in every interleaving of the threads that begin, wait for,
  perform and end operations. No two threads are in an operation of the same application at once; the slot a thread points to stays
  in the table, pinned, as long as the thread has it, so that the reclaiming of idle slots never gives an
  application a second mutex; a mutex is free whenever no thread is in an operation; and the table has at most 256 slots, or one per application
  that has an operation under way.\<close>

theorem app_operations_serialized:
  assumes "lock_reachable w"
  shows "(lockers w t = Some (app, p, Holding) \<and> lockers w t' = Some (app, p', Holding) \<longrightarrow> t = t')
    \<and> (lockers w t = Some (app, p, ph) \<longrightarrow> (\<exists>s. map_of (table w) app = Some s \<and> slot_id s = p \<and> users s > 0
          \<and> (owner s = None \<longleftrightarrow> (\<forall>u q. lockers w u \<noteq> Some (app, q, Holding)))))
    \<and> length (table w) \<le> max kMaxAppOperationSlots (card {a. ops_of (lockers w) a \<noteq> {}})"
proof -
  have o: "ordered (table w)" and fin: "finite (dom (lockers w))" and ok: "slots_ok (fresh_slot w) (lockers w) (map_of (table w))"
    and bound: "length (table w) \<le> kMaxAppOperationSlots \<or> (\<forall>e \<in> set (table w). users (snd e) > 0)"
    using lock_reachable_ok [OF assms] by (auto simp: lock_ok_def)
  note D = slots_okD [OF ok]
  have slot: "\<exists>s. map_of (table w) app = Some s \<and> slot_id s = p \<and> users s > 0 \<and> (owner s = None \<longleftrightarrow> (\<forall>u q. lockers w u \<noteq> Some (app, q, Holding)))"
    if t: "lockers w t = Some (app, p, ph)" for t app p ph
  proof -
    obtain s where s: "map_of (table w) app = Some s" "slot_id s = p" using D(5) [OF t] by blast
    have "t \<in> ops_of (lockers w) app" using t by (auto simp: ops_of_def)
    then have "card (ops_of (lockers w) app) > 0" using finite_ops [OF fin, of app] card_gt_0_iff by blast
    then have "users s > 0" by (simp add: D(2) [OF s(1)])
    moreover have "(\<forall>u q. lockers w u \<noteq> Some (app, q, Holding)) \<longleftrightarrow> (\<forall>u. owner s \<noteq> Some u)" by (simp add: D(3) [OF s(1)])
    then have "owner s = None \<longleftrightarrow> (\<forall>u q. lockers w u \<noteq> Some (app, q, Holding))" by (cases "owner s") simp_all
    ultimately show ?thesis using s by (intro exI [of _ s] conjI)
  qed
  have one: "t = t'" if a: "lockers w t = Some (app, p, Holding)" "lockers w t' = Some (app, p', Holding)"
  proof -
    obtain s where s: "map_of (table w) app = Some s" using slot [OF a(1)] by blast
    have "owner s = Some t" "owner s = Some t'" using a by (simp_all add: D(3) [OF s])
    then show ?thesis by simp
  qed
  have "length (table w) \<le> card {a. ops_of (lockers w) a \<noteq> {}}" if "\<forall>e \<in> set (table w). users (snd e) > 0"
  proof -
    have "a \<in> {a. ops_of (lockers w) a \<noteq> {}}" if a: "a \<in> fst ` set (table w)" for a
    proof -
      obtain s where s: "(a, s) \<in> set (table w)" using a by force
      then have "users s > 0" using \<open>\<forall>e \<in> set (table w). users (snd e) > 0\<close> by force
      then show ?thesis using D(2) [of a s] s in_set_map_of [OF o, of a s] by auto
    qed
    moreover have "finite {a. ops_of (lockers w) a \<noteq> {}}"
      by (rule finite_subset [of _ "(\<lambda>t. fst (the (lockers w t))) ` dom (lockers w)"])
         (use fin in \<open>force simp: ops_of_def image_iff\<close>)+
    ultimately have "card (fst ` set (table w)) \<le> card {a. ops_of (lockers w) a \<noteq> {}}" by (intro card_mono) auto
    then show ?thesis using distinct_card [OF ordered_distinct [OF o]] by simp
  qed
  with bound have "length (table w) \<le> max kMaxAppOperationSlots (card {a. ops_of (lockers w) a \<noteq> {}})" by (metis max.coboundedI1 max.coboundedI2)
  with slot one show ?thesis by blast
qed

text \<open>C24: The registry answers truthfully and stays small. After any calls in the order of the clock it holds at most 1024
  records; a look-up returns the outcome recorded last under the identifier, and only within the hour; and when it finds none, nothing
  was recorded, the hour is over, or 1024 other operations were recorded no earlier.\<close>

theorem operations_are_remembered:
  assumes "sorted (concat (map op_times ops) @ [now])"
  shows "length (fold registry_step ops []) \<le> kMaxOperationRecords
    \<and> (case fst (lookup_operation op now (fold registry_step ops [])) of
         Some st \<Rightarrow> \<exists>t. map_of (settled ops) op = Some (st, t) \<and> now - t < kOperationRecordTtl
       | None \<Rightarrow> (case map_of (settled ops) op of
           None \<Rightarrow> True
         | Some (st, t) \<Rightarrow> now - t \<ge> kOperationRecordTtl \<or> displaced (settled ops) op t))"
proof -
  let ?ts = "concat (map op_times ops)" and ?m = "fold registry_step ops []"
  obtain c where c: "sorted (c # ?ts)" "last (c # ?ts) \<le> now"
  proof (cases ?ts)
    case Nil
    show ?thesis by (rule that [of now]) (unfold Nil, simp_all)
  next
    case (Cons c ts)
    have "sorted ((c # ts) @ [now])" using assms unfolding Cons .
    then show ?thesis by (intro that [of c]; unfold Cons) (auto simp: sorted_append)
  qed
  have "registry_ok [] c []" by (simp add: registry_ok_def)
  from registry_run_ok [OF this c(1)] have ok: "registry_ok (settled ops) (last (c # ?ts)) ?m" by simp
  note l = lookup_operation_ok [OF ok c(2), of op]
  let ?m' = "snd (lookup_operation op now ?m)"
  have f: "fst (lookup_operation op now ?m) = map_option op_status (map_of ?m' op)" by (simp add: lookup_operation_def Let_def)
  have "length ?m \<le> kMaxOperationRecords" using ok by (simp add: registry_ok_def)
  moreover have "case map_option op_status (map_of ?m' op) of
         Some st \<Rightarrow> \<exists>t. map_of (settled ops) op = Some (st, t) \<and> now - t < kOperationRecordTtl
       | None \<Rightarrow> (case map_of (settled ops) op of
           None \<Rightarrow> True
         | Some (st, t) \<Rightarrow> now - t \<ge> kOperationRecordTtl \<or> displaced (settled ops) op t)"
  proof (cases "map_of ?m' op")
    case None
    then have "op \<notin> fst ` set ?m'" by (simp add: map_of_eq_None_iff)
    then show ?thesis using None l(1) by (auto simp: registry_ok_def split: option.splits)
  next
    case (Some r)
    then have "(op, r) \<in> set ?m'" by (rule map_of_SomeD)
    then show ?thesis using Some l by (fastforce simp: registry_ok_def)
  qed
  ultimately show ?thesis unfolding f by blast
qed

theorem app_operations_serialized_witness:
  "\<exists>w. lock_reachable w \<and> lockers w 7 = Some (''shop'', 0, Holding) \<and> length (table w) \<le> 256"
proof -
  let ?s = "\<lparr>slot_id = 0, users = 1, last_used = 5, owner = None\<rparr>"
  let ?w = "\<lparr>table = [(''shop'', ?s)], fresh_slot = 1, lockers = (\<lambda>_. None)(7 \<mapsto> (''shop'', 0, Waiting))\<rparr>"
  let ?v = "\<lparr>table = [(''shop'', ?s\<lparr>owner := Some 7\<rparr>)], fresh_slot = 1, lockers = (\<lambda>_. None)(7 \<mapsto> (''shop'', 0, Holding))\<rparr>"
  have "pin_slot ''shop'' 5 ([], 0) = (0, [(''shop'', ?s)], 1)" by code_simp
  then have "lock_step no_locks ?w"
    using lock_step.begin_op [of no_locks 7 "''shop''" 5 0 "[(''shop'', ?s)]" 1] by (simp add: no_locks_def)
  moreover have "lock_step ?w ?v"
    using lock_step.lock [of ?w 7 "''shop''" 0 "''shop''" ?s] by (simp add: update_slot_def)
  ultimately have r: "lock_reachable ?v" by auto
  have "card {a. ops_of (lockers ?v) a \<noteq> {}} = 1" by (simp add: ops_of_def)
  with app_operations_serialized [OF r, of 7 "''shop''" 0 7 0 Holding] r show ?thesis by (intro exI [of _ ?v]) simp
qed

theorem operations_are_remembered_witness:
  "length (fold registry_step [RecordOp ''op-1'' True 1 2] []) \<le> 1024
   \<and> fst (lookup_operation ''op-1'' 5 (fold registry_step [RecordOp ''op-1'' True 1 2] [])) = Some True"
proof -
  have "sorted (concat (map op_times [RecordOp ''op-1'' True 1 2]) @ [5])" by simp
  from operations_are_remembered [OF this, of "''op-1''"] show ?thesis by (auto split: option.splits simp: displaced_def) code_simp
qed

end
