(* ===== verification/Spec2Isabelle.thy ===== *)
theory Spec2Isabelle
  imports Capsid_Prelude Framing Protocol Outbound_Buffer Capacity_Ledger Host_Routing Host_Pools Ws_Codec
    Egress_Policy Active_State Service_Lifecycle Worker_Recovery Request_Normalization Generation_Pool
    Listener_Cors Managed_Registry
begin

text \<open>
  \<^bold>\<open>Capsid\<close> is a host for JavaScript workers. One host process accepts public HTTP requests, decides which
  application they belong to, and hands them to worker processes that it starts, replaces and drains; each worker runs one
  generation of one application and speaks to the host over a socket. This development models the parts of the repository that
  decide what crosses those boundaries and which worker may serve, as executable functions and step relations, and proves what they promise.

  \<^bold>\<open>How the parts interact.\<close> A byte stream joins host and worker: \<open>src/protocol.cc\<close> frames it, \<open>src/outbound_buffer.h\<close>
  queues it on the worker's side, and \<open>src/egress_policy.cc\<close> decides what a worker may connect to. In the host, a request
  is classified for CORS, normalised to an application and a worker-side URL, looked up in the routing snapshot, and given to
  the least loaded worker of that application's generation pool. Deployments and retirements reserve workers in the capacity ledger, run
  under a per-application lock, write the durable \<open>active.json\<close>, publish a new routing snapshot, and are remembered in the
  operation registry. When workers crash, the pool charges a rolling crash budget, waits a backoff, asks for a start-up permit, and
  ends in quarantine when the budget is spent.

  \<^bold>\<open>Theories and sources\<close> (paths under \<open>src/src\<close>).

  \<^item> \<open>Capsid_Prelude\<close>: integer widths, spans, cursor readers, and the lemmas on lists, words and options that the others share.
  \<^item> \<open>Framing\<close>: the locales \<open>frame_codec\<close> and \<open>stream_parser\<close>, the contract of an incremental frame
    parser; its lemma that the chunking of a stream is invisible is proved once there.
  \<^item> \<open>Protocol\<close>: \<open>protocol.h\<close>, \<open>protocol.cc\<close> and the receive loop of \<open>worker_runtime.cc\<close>. State: the record \<open>parser\<close> of class
    \<open>Parser\<close>. Shown: frames survive any chunking, parsing and encoding are inverse, the buffer is bounded, errors are final.
  \<^item> \<open>Ws_Codec\<close>: \<open>host/ws_codec.cc\<close>, the second interpretation of \<open>stream_parser\<close>, and the handshake key, whose incremental
    SHA-1 is proved equal to padding and folding the whole message.
  \<^item> \<open>Outbound_Buffer\<close>: \<open>outbound_buffer.h\<close> with the worker's socket writer. The locale \<open>byte_writer\<close> is the contract
    of a writer, interpreted on that socket. Shown: the output is first in, first out and bounded, and a flush drains it.
  \<^item> \<open>Egress_Policy\<close>: \<open>egress_policy.cc\<close> and the two gates of \<open>worker_runtime.cc\<close>. Shown: decisions do not depend on the
    order of rules, and a connection passes exactly when every governing policy allows it.
  \<^item> \<open>Capacity_Ledger\<close>: \<open>host/worker_capacity_ledger.cc\<close> and the calls of \<open>host/managed_host.cc\<close> on it. The counters are 64-bit words.
    Shown: totals are sums, serving workers stay within the budget; and that the documented ceiling on all processes can be exceeded.
  \<^item> \<open>Host_Routing\<close>: \<open>host/routing_snapshot.cc\<close>, the transaction callbacks of \<open>host/main.cc\<close>, and the routing decision of
    \<open>host/managed_listener.cc\<close>. Shown: the router answers what the last settled transaction of each application says.
  \<^item> \<open>Host_Pools\<close>: \<open>host/static_pool.cc\<close>, \<open>host/response_body_batch.h\<close>, \<open>host/credit_limits.h\<close>, \<open>host/poll_limits.h\<close>.
  \<^item> \<open>Active_State\<close>: \<open>host/active_state.cc\<close>. The order of file operations is kept, and a disk model says what a crash at
    any point leaves behind. Shown: recovery reads the old or the new document, and the text of a document parses back to it.
  \<^item> \<open>Service_Lifecycle\<close>: \<open>host/service_lifecycle.cc\<close>. Shown: phase, document and disk agree along every run of transitions, and a
    withdrawn service stays down until it is deployed again.
  \<^item> \<open>Worker_Recovery\<close>: \<open>host/worker_recovery.cc\<close> and the permit coordinator of \<open>host/managed_admin_backend.h\<close>. Shown: the
    crash budget is exact, the backoff is a capped exponential, permits have one holder and are granted fairly.
  \<^item> \<open>Generation_Pool\<close>: \<open>host/generation_pool.cc\<close>. Each critical section of the pool mutex is one definition, and \<open>gen_step\<close>
    interleaves the pump, the spawn threads, the listener and the supervisor. Shown: counters are exact in every interleaving, a drain
    terminates and completes, a drained pool never spawns, the scheduler picks the least loaded ready worker.
  \<^item> \<open>Request_Normalization\<close>: \<open>host/request_normalization.cc\<close>. Shown: the application, origin and path a worker sees, the exact
    set of header fields it gets, and the exact condition for a WebSocket upgrade.
  \<^item> \<open>Listener_Cors\<close>: \<open>host/listener_cors.cc\<close>. Shown: the host owns the CORS fields of every response, and preflights are exact.
  \<^item> \<open>Managed_Registry\<close>: \<open>host/managed_registry.cc\<close>. The threads that begin, wait for, hold and release an operation lock are the
    step relation \<open>lock_step\<close>. Shown: operations of one application are serialised, and outcomes are remembered within bounds.

  \<^bold>\<open>Conventions.\<close> A C++ struct is a record, an enumeration a datatype, a fixed-width integer a word; \<open>std::map\<close> is an association
  list in key order or a map; an out-parameter is a result; a failure is an error value or \<open>None\<close>. Each mutex section or
  event handler is one function on the state, so that the step relations over them are the interleavings the locks permit.
  The C library (\<open>inet_pton\<close>), the JSON library, the file system, clocks, executors and the HTTP library are parameters, and the
  theorems name what they rely on. Where a theorem is of kind \<open>error\<close>, it shows an input on which the code departs from its
  documentation.

  \<^bold>\<open>Bounds and termination.\<close> The loops of the sources are structural recursions over what they scan, or functions with a
  termination proof. Only the loop that takes frames out of a parser has fuel, because it ends when the parser asks for more bytes:
  one more step than the frames that arrive is enough, and the theorems about it say that it then returns, with the result. The
  liveness theorems (fair permits, terminating drains, drained queues) give explicit bounds or measures.

  \<^bold>\<open>Not modelled.\<close>
  \<^item> The JavaScript engine and the bridge to it: the rest of \<open>worker_runtime.cc\<close>, \<open>txiki_restricted_core.c\<close>, \<open>binding_rpc.cc\<close>. They
    call the C interface of vendored engines, whose behaviour is not in the repository's own sources.
  \<^item> Processes, sockets, threads and the sandbox: \<open>client.cc\<close>, \<open>sandbox.cc\<close>, \<open>worker_main.cc\<close>, \<open>host/worker_executor.cc\<close>,
    \<open>host/worker_supervisor.cc\<close>, \<open>host/worker_event_source.cc\<close>, \<open>host/process_snapshot.cc\<close>, \<open>win32_compat.h\<close>. What they do is
    sequences of operating system calls; where a modelled component relies on an executor, its answers are arguments.
  \<^item> Configuration and policy compilers: \<open>host/config.cc\<close>, \<open>host/host_config_model.cc\<close>, \<open>host/policy_compiler.cc\<close>,
    \<open>host/local_capsid_policy.cc\<close>, \<open>host/binding_compile.cc\<close>, \<open>capability_policy.cc\<close>, and the validation of start-up payloads in
    \<open>ipc_validation.cc\<close>. Most of them walk JSON trees of a library; their outputs are the inputs of the modelled components.
  \<^item> The administrative interface and the coordinator around the modelled transactions: \<open>host/admin_api.cc\<close>, \<open>host/admin_http.cc\<close>,
    \<open>host/admin_service.cc\<close>, \<open>host/managed_admin_backend.cc\<close>, the rest of \<open>host/managed_host.cc\<close> and of \<open>host/main.cc\<close>.
  \<^item> The older servers \<open>host/single_worker_server.cc\<close> and \<open>host/static_pool_server.cc\<close>, which have a data plane of the same kind.
  \<^item> Files, keys, secrets and digests: \<open>host/artifact_safe_read.cc\<close>, \<open>host/trusted_key_store.cc\<close>, \<open>host/bytecode_attestation.cc\<close>,
    \<open>host/secret_file_provider.cc\<close>, \<open>host/secret_snapshot.cc\<close>, \<open>host/generation_identity.cc\<close>, \<open>host/binding_registry.cc\<close>. They are
    descriptor-based file reads and calls of a cryptographic library.
  \<^item> Logs, metrics and build information: \<open>host/structured_log.cc\<close>, \<open>host/metrics.cc\<close>, \<open>audit.cc\<close>, \<open>cpu_topology.cc\<close>,
    \<open>memory_metrics.cc\<close>, \<open>build_info.cc\<close>.
\<close>

end
